(* ===== verification/Prelude.thy ===== *)
theory Prelude
  imports Main "HOL-Library.Word" "HOL-Library.Monad_Syntax" "HOL-Library.Multiset"
begin

text \<open>
  Shared vocabulary of the development.

  \<^item> A Go computation that may panic (index out of range, nil dereference) or may not
    return is a value of \<open>'a option\<close>; \<open>None\<close> says that it does not return normally.
    Every theorem that speaks of a result shows \<open>Some\<close>.
  \<^item> A Go slice is a list; \<open>at\<close>, \<open>upd_at\<close>, \<open>slice_from\<close> and \<open>slice_to\<close> are \<open>xs[i]\<close>,
    \<open>xs[i] = v\<close>, \<open>xs[i:]\<close> and \<open>xs[:i]\<close> with Go's bounds checks on a signed index.
  \<^item> Lemma collections: \<open>slice_simps\<close> for the slice operations.
\<close>

named_theorems slice_simps \<open>rewriting of in-range slice operations\<close>

section \<open>Slices with bounds checks\<close>

definition at :: "'a list \<Rightarrow> int \<Rightarrow> 'a option" where
  "at xs i = (if 0 \<le> i \<and> i < int (length xs) then Some (xs ! nat i) else None)"

definition upd_at :: "'a list \<Rightarrow> int \<Rightarrow> 'a \<Rightarrow> 'a list option" where
  "upd_at xs i v = (if 0 \<le> i \<and> i < int (length xs) then Some (xs[nat i := v]) else None)"

definition slice_from :: "'a list \<Rightarrow> int \<Rightarrow> 'a list option" where
  "slice_from xs i = (if 0 \<le> i \<and> i \<le> int (length xs) then Some (drop (nat i) xs) else None)"

definition slice_to :: "'a list \<Rightarrow> int \<Rightarrow> 'a list option" where
  "slice_to xs i = (if 0 \<le> i \<and> i \<le> int (length xs) then Some (take (nat i) xs) else None)"

lemma at_Some_iff [slice_simps]:
  "at xs i = Some x \<longleftrightarrow> 0 \<le> i \<and> i < int (length xs) \<and> x = xs ! nat i"
  by (auto simp: at_def)

lemma at_None_iff [slice_simps]: "at xs i = None \<longleftrightarrow> i < 0 \<or> int (length xs) \<le> i"
  by (auto simp: at_def)

lemma at_int [simp]: "k < length xs \<Longrightarrow> at xs (int k) = Some (xs ! k)"
  by (simp add: at_def)

lemma upd_at_Some_iff [slice_simps]:
  "upd_at xs i v = Some ys \<longleftrightarrow> 0 \<le> i \<and> i < int (length xs) \<and> ys = xs[nat i := v]"
  by (auto simp: upd_at_def)

lemma slice_from_Some_iff [slice_simps]:
  "slice_from xs i = Some ys \<longleftrightarrow> 0 \<le> i \<and> i \<le> int (length xs) \<and> ys = drop (nat i) xs"
  by (auto simp: slice_from_def)

lemma slice_to_Some_iff [slice_simps]:
  "slice_to xs i = Some ys \<longleftrightarrow> 0 \<le> i \<and> i \<le> int (length xs) \<and> ys = take (nat i) xs"
  by (auto simp: slice_to_def)

section \<open>Options\<close>

lemma bind_Some_iff: "Option.bind m f = Some y \<longleftrightarrow> (\<exists>x. m = Some x \<and> f x = Some y)"
  by (cases m) auto

end
