(* ===== verification/Porcupine_Model.thy ===== *)
theory Porcupine_Model
  imports Prelude
begin

text \<open>
  The data types of \<^verbatim>\<open>porcupine/model.go\<close>.  Go's \<open>interface{}\<close> values are type parameters:
  \<open>'v\<close> for inputs and outputs of operations, \<open>'s\<close> for states of the sequential model.
  A \<open>Step\<close> or \<open>Partition\<close> function that panics (a failed type assertion) returns \<open>None\<close>;
  the optional function fields are \<open>None\<close> where the Go field is nil.
\<close>

record 'v operation =
  ClientId :: int
  Input :: 'v
  Call :: int
  Output :: 'v
  Return :: int

datatype EventKind = CallEvent | ReturnEvent

record 'v porc_event =
  ev_ClientId :: int
  ev_Kind :: EventKind
  ev_Value :: 'v
  ev_Id :: int

record ('v, 's) model =
  Partition :: "('v operation list \<Rightarrow> 'v operation list list option) option"
  PartitionEvent :: "('v porc_event list \<Rightarrow> 'v porc_event list list option) option"
  Init :: 's
  Step :: "'s \<Rightarrow> 'v \<Rightarrow> 'v \<Rightarrow> (bool \<times> 's) option"
  Equal :: "('s \<Rightarrow> 's \<Rightarrow> bool) option"
  DescribeOperation :: "('v \<Rightarrow> 'v \<Rightarrow> string option) option"
  DescribeState :: "('s \<Rightarrow> string) option"

datatype CheckResult = Unknown | Ok | Illegal

definition NoPartition :: "'v operation list \<Rightarrow> 'v operation list list" where
  "NoPartition history = [history]"

definition NoPartitionEvent :: "'v porc_event list \<Rightarrow> 'v porc_event list list" where
  "NoPartitionEvent history = [history]"

definition ShallowEqual :: "'s \<Rightarrow> 's \<Rightarrow> bool" where
  "ShallowEqual state1 state2 = (state1 = state2)"

text \<open>The formatting verb \<^verbatim>\<open>%v\<close> of \<^verbatim>\<open>fmt.Sprintf\<close> on the two kinds of values is a parameter.\<close>

definition DefaultDescribeOperation :: "('v \<Rightarrow> string) \<Rightarrow> 'v \<Rightarrow> 'v \<Rightarrow> string" where
  "DefaultDescribeOperation show input outp = show input @ '' -> '' @ show outp"

definition DefaultDescribeState :: "('s \<Rightarrow> string) \<Rightarrow> 's \<Rightarrow> string" where
  "DefaultDescribeState show state = show state"

definition fillDefault :: "('v \<Rightarrow> string) \<Rightarrow> ('s \<Rightarrow> string) \<Rightarrow> ('v, 's) model \<Rightarrow> ('v, 's) model" where
  "fillDefault showv shows m =
    (let m = (if Partition m = None then m\<lparr>Partition := Some (\<lambda>h. Some (NoPartition h))\<rparr> else m);
         m = (if PartitionEvent m = None
              then m\<lparr>PartitionEvent := Some (\<lambda>h. Some (NoPartitionEvent h))\<rparr> else m);
         m = (if Equal m = None then m\<lparr>Equal := Some ShallowEqual\<rparr> else m);
         m = (if DescribeOperation m = None
              then m\<lparr>DescribeOperation := Some (\<lambda>i out. Some (DefaultDescribeOperation showv i out))\<rparr> else m);
         m = (if DescribeState m = None
              then m\<lparr>DescribeState := Some (DefaultDescribeState shows)\<rparr> else m)
     in m)"

lemma fillDefault_simps [simp]:
  "Init (fillDefault f g m) = Init m"
  "Step (fillDefault f g m) = Step m"
  "Equal (fillDefault f g m) = Some (case Equal m of None \<Rightarrow> ShallowEqual | Some e \<Rightarrow> e)"
  "Partition (fillDefault f g m) =
     Some (case Partition m of None \<Rightarrow> (\<lambda>h. Some (NoPartition h)) | Some p \<Rightarrow> p)"
  "PartitionEvent (fillDefault f g m) =
     Some (case PartitionEvent m of None \<Rightarrow> (\<lambda>h. Some (NoPartitionEvent h)) | Some p \<Rightarrow> p)"
  by (auto simp: fillDefault_def Let_def split: option.splits)

end
