(* ===== verification/Linearizability.thy ===== *)
theory Linearizability
  imports Prelude
begin

text \<open>
  What the checker of \<^verbatim>\<open>porcupine/checker.go\<close> decides, stated without the checker.  A history
  is a list of call and return events of operations \<open>0..<n\<close>; it is linearizable when
  some order of all operations keeps the real-time order (an operation that returned before
  another one was called comes first) and is accepted by the sequential model from its
  initial state.  \<open>completable\<close> is the same property read as a search: repeatedly take an
  operation that is called before the first pending return.  The last lemma of the theory
  shows the two equivalent.
\<close>

section \<open>Order of elements in a list\<close>

fun before :: "'a list \<Rightarrow> 'a \<Rightarrow> 'a \<Rightarrow> bool" where
  "before [] x y = False"
| "before (a # xs) x y = (if a = x then y \<in> set xs else before xs x y)"

lemma before_in_set: "before xs x y \<Longrightarrow> x \<in> set xs \<and> y \<in> set xs"
  by (induction xs) (auto split: if_splits)

lemma before_append_right: "x \<in> set xs \<Longrightarrow> y \<in> set ys \<Longrightarrow> before (xs @ ys) x y"
  by (induction xs) auto

lemma before_filter:
  assumes "distinct xs"
  shows "before (filter Q xs) x y \<longleftrightarrow> Q x \<and> Q y \<and> before xs x y"
  using assms
proof (induction xs)
  case (Cons a xs)
  then show ?case by (cases "a = x") (auto dest: before_in_set)
qed simp

lemma before_split:
  assumes "distinct (xs @ x # ys)"
  shows "before (xs @ x # ys) y x \<longleftrightarrow> y \<in> set xs"
  using assms by (induction xs) (auto dest: before_in_set)

lemma in_takeWhile_append:
  "x \<notin> set us \<Longrightarrow> x \<in> set (takeWhile P (us @ x # vs)) \<longleftrightarrow> (\<forall>y\<in>set us. P y) \<and> P x"
proof (induction us)
  case Nil
  show ?case by (cases "P x") simp_all
next
  case (Cons a us)
  then show ?case by (cases "P a") simp_all
qed

lemma in_takeWhile_iff:
  assumes "distinct xs"
  shows "x \<in> set (takeWhile P xs) \<longleftrightarrow> x \<in> set xs \<and> P x \<and> (\<forall>y. before xs y x \<longrightarrow> P y)"
proof (cases "x \<in> set xs")
  case True
  then obtain us vs where xs: "xs = us @ x # vs" by (meson split_list)
  with assms have "x \<notin> set us" by simp
  then show ?thesis
    using in_takeWhile_append[of x us P vs] before_split[of us x vs] assms xs True by auto
next
  case False
  then show ?thesis by (auto dest: set_takeWhileD)
qed

section \<open>Histories and linearizability\<close>

type_synonym event = "bool \<times> nat" \<comment> \<open>is it a return, operation\<close>

definition wf_hist :: "nat \<Rightarrow> event list \<Rightarrow> bool" where
  "wf_hist n H \<longleftrightarrow> distinct H \<and> set H = UNIV \<times> {..<n} \<and> (\<forall>i<n. before H (False, i) (True, i))"

fun run :: "('s \<Rightarrow> nat \<Rightarrow> 's option) \<Rightarrow> 's \<Rightarrow> nat list \<Rightarrow> 's option" where
  "run f s [] = Some s"
| "run f s (i # is) = Option.bind (f s i) (\<lambda>t. run f t is)"

definition rt_order :: "event list \<Rightarrow> nat list \<Rightarrow> bool" where
  "rt_order H p \<longleftrightarrow> (\<forall>i\<in>set p. \<forall>j\<in>set p. before H (True, i) (False, j) \<longrightarrow> before p i j)"

definition linearizable :: "('s \<Rightarrow> nat \<Rightarrow> 's option) \<Rightarrow> 's \<Rightarrow> nat \<Rightarrow> event list \<Rightarrow> bool" where
  "linearizable f s n H \<longleftrightarrow>
     (\<exists>p. distinct p \<and> set p = {..<n} \<and> rt_order H p \<and> run f s p \<noteq> None)"

lemma run_append: "run f s (xs @ ys) = Option.bind (run f s xs) (\<lambda>t. run f t ys)"
  by (induction xs arbitrary: s) (auto split: bind_splits)

section \<open>Linearizability as a search\<close>

definition remaining :: "event list \<Rightarrow> nat set \<Rightarrow> event list" where
  "remaining H L = filter (\<lambda>(r, i). i \<notin> L) H"

definition minimal :: "event list \<Rightarrow> nat set \<Rightarrow> nat set" where
  "minimal H L = snd ` set (takeWhile (\<lambda>(r, i). \<not> r) (remaining H L))"

inductive completable :: "('s \<Rightarrow> nat \<Rightarrow> 's option) \<Rightarrow> event list \<Rightarrow> nat set \<Rightarrow> 's \<Rightarrow> bool"
  for f H where
  completable_done: "remaining H L = [] \<Longrightarrow> completable f H L s"
| completable_step: "i \<in> minimal H L \<Longrightarrow> f s i = Some t \<Longrightarrow> completable f H (insert i L) t
    \<Longrightarrow> completable f H L s"

inductive_simps completable_unfold: "completable f H L s"

lemma remaining_empty_iff: "wf_hist n H \<Longrightarrow> remaining H L = [] \<longleftrightarrow> {..<n} \<subseteq> L"
  by (auto simp: remaining_def filter_empty_conv wf_hist_def)

lemma minimal_iff:
  assumes "wf_hist n H"
  shows "i \<in> minimal H L \<longleftrightarrow>
    i < n \<and> i \<notin> L \<and> (\<forall>j<n. j \<notin> L \<longrightarrow> \<not> before H (True, j) (False, i))"
proof -
  let ?P = "\<lambda>(r, i). \<not> r"
  have d: "distinct H" "distinct (remaining H L)"
    using assms by (auto simp: wf_hist_def remaining_def)
  have "i \<in> minimal H L \<longleftrightarrow> (False, i) \<in> set (takeWhile ?P (remaining H L))"
  proof
    assume "i \<in> minimal H L"
    then obtain r where "(r, i) \<in> set (takeWhile ?P (remaining H L))"
      unfolding minimal_def by auto
    then show "(False, i) \<in> set (takeWhile ?P (remaining H L))"
      using set_takeWhileD[of "(r, i)" ?P "remaining H L"] by auto
  next
    assume "(False, i) \<in> set (takeWhile ?P (remaining H L))"
    then show "i \<in> minimal H L" unfolding minimal_def by (metis imageI snd_conv)
  qed
  also have "\<dots> \<longleftrightarrow> (False, i) \<in> set (remaining H L) \<and>
      (\<forall>r j. before (remaining H L) (r, j) (False, i) \<longrightarrow> \<not> r)"
    by (simp add: in_takeWhile_iff[OF d(2)])
  also have "\<dots> \<longleftrightarrow> i < n \<and> i \<notin> L \<and> (\<forall>j<n. j \<notin> L \<longrightarrow> \<not> before H (True, j) (False, i))"
  proof -
    have "\<forall>j. before H (True, j) (False, i) \<longrightarrow> j < n"
      using assms before_in_set[of H "(True, _)"] unfolding wf_hist_def by blast
    then show ?thesis using assms unfolding remaining_def before_filter[OF d(1)]
      by (auto simp: wf_hist_def)
  qed
  finally show ?thesis .
qed

lemma rt_order_Cons:
  assumes "i \<notin> set p" "\<And>j. before H (True, j) (False, j) \<Longrightarrow> False"
  shows "rt_order H (i # p) \<longleftrightarrow> (\<forall>j\<in>set p. \<not> before H (True, j) (False, i)) \<and> rt_order H p"
  using assms by (auto simp: rt_order_def dest: before_in_set)

lemma before_asym: "distinct xs \<Longrightarrow> before xs x y \<Longrightarrow> \<not> before xs y x"
  by (induction xs) (auto dest: before_in_set split: if_splits)

lemma wf_hist_no_self: "wf_hist n H \<Longrightarrow> before H (True, j) (False, j) \<Longrightarrow> False"
  unfolding wf_hist_def using before_asym[of H] before_in_set[of H "(True, j)"]
  by (metis SigmaD2 lessThan_iff)

definition completion :: "('s \<Rightarrow> nat \<Rightarrow> 's option) \<Rightarrow> nat \<Rightarrow> event list \<Rightarrow> nat set \<Rightarrow> 's \<Rightarrow> nat list \<Rightarrow> bool" where
  "completion f n H L s p \<longleftrightarrow> distinct p \<and> set p = {..<n} - L \<and> rt_order H p \<and> run f s p \<noteq> None"

lemma completion_Cons:
  assumes "wf_hist n H"
  shows "completion f n H L s (i # p) \<longleftrightarrow>
    i \<in> minimal H L \<and> (\<exists>t. f s i = Some t \<and> completion f n H (insert i L) t p)"
proof -
  have sets: "i \<notin> set p \<and> set (i # p) = {..<n} - L \<longleftrightarrow>
      i < n \<and> i \<notin> L \<and> set p = {..<n} - insert i L"
    by auto
  have ord: "i \<notin> set p \<Longrightarrow> rt_order H (i # p) \<longleftrightarrow>
      (\<forall>j\<in>set p. \<not> before H (True, j) (False, i)) \<and> rt_order H p"
    using rt_order_Cons[of i p H] wf_hist_no_self[OF assms] by blast
  have self: "\<not> before H (True, i) (False, i)" using wf_hist_no_self[OF assms] by blast
  have run: "run f s (i # p) \<noteq> None \<longleftrightarrow> (\<exists>t. f s i = Some t \<and> run f t p \<noteq> None)"
    by (cases "f s i") auto
  show ?thesis
  proof (cases "i \<notin> set p \<and> set (i # p) = {..<n} - L")
    case True
    with sets have p: "i < n" "i \<notin> L" "set p = {..<n} - insert i L" by auto
    have "i \<in> minimal H L \<longleftrightarrow> (\<forall>j\<in>set p. \<not> before H (True, j) (False, i))"
      using p self unfolding minimal_iff[OF assms] by auto
    moreover have "completion f n H L s (i # p) \<longleftrightarrow>
        distinct p \<and> rt_order H (i # p) \<and> run f s (i # p) \<noteq> None"
      using True unfolding completion_def distinct.simps by metis
    moreover have "completion f n H (insert i L) t p \<longleftrightarrow>
        distinct p \<and> rt_order H p \<and> run f t p \<noteq> None" for t
      using p unfolding completion_def by metis
    ultimately show ?thesis using True ord run by metis
  next
    case False
    then have "\<not> completion f n H L s (i # p)"
      unfolding completion_def distinct.simps by metis
    moreover have "\<not> (i \<in> minimal H L \<and> completion f n H (insert i L) t p)" for t
      using False sets unfolding completion_def minimal_iff[OF assms] by metis
    ultimately show ?thesis by metis
  qed
qed

lemma completable_iff_completion:
  assumes "wf_hist n H"
  shows "completable f H L s \<longleftrightarrow> (\<exists>p. completion f n H L s p)"
proof
  assume "completable f H L s"
  then show "\<exists>p. completion f n H L s p"
  proof induction
    case (completable_done L s)
    then have "completion f n H L s []"
      using remaining_empty_iff[OF assms] by (auto simp: completion_def rt_order_def)
    then show ?case ..
  next
    case (completable_step i L s t)
    then show ?case using completion_Cons[OF assms] by metis
  qed
next
  assume "\<exists>p. completion f n H L s p"
  then obtain p where "completion f n H L s p" ..
  then show "completable f H L s"
  proof (induction p arbitrary: L s)
    case Nil
    then have "remaining H L = []"
      using remaining_empty_iff[OF assms] by (auto simp: completion_def)
    then show ?case by (rule completable_done)
  next
    case (Cons i p)
    then show ?case using completion_Cons[OF assms] by (metis completable_step)
  qed
qed

lemma completable_iff_linearizable:
  "wf_hist n H \<Longrightarrow> completable f H {} s \<longleftrightarrow> linearizable f s n H"
  by (simp add: completable_iff_completion linearizable_def completion_def)

end
