(* ===== verification/EventList.thy ===== *)
theory EventList
  imports Porcupine_Model Linearizability
begin

text \<open>
  The doubly linked list of events of \<^verbatim>\<open>porcupine/checker.go\<close>, on an explicit heap: a list of
  nodes whose addresses are their positions, extended by every allocation.  The operations
  are translated assignment by assignment; dereferencing nil or a dangling address is
  \<open>None\<close>.  The abstraction \<open>dseg h p xs q\<close> says that the addresses \<open>xs\<close> are linked one to
  the next in \<open>h\<close>, with \<open>p\<close> before and \<open>q\<close> after them.  The main results: lifting an
  operation takes its call and return node out of the list, and unlifting restores
  exactly the heap before.
\<close>

section \<open>Entries\<close>

datatype entryKind = callEntry | returnEntry

record 'v entry =
  kind :: entryKind
  evalue :: 'v
  eid :: int
  etime :: int
  eclientId :: int

definition Less :: "'v entry list \<Rightarrow> nat \<Rightarrow> nat \<Rightarrow> bool" where
  "Less a i j = (etime (a ! i) < etime (a ! j))"

text \<open>
  \<^verbatim>\<open>makeEntries\<close>; the standard library's \<^verbatim>\<open>sort.Sort\<close> is not stable, so the sorting function
  is a parameter, of which only \<open>sorts_by_time\<close> is known.
\<close>

fun raw_entries :: "int \<Rightarrow> 'v operation list \<Rightarrow> 'v entry list" where
  "raw_entries i [] = []"
| "raw_entries i (elem # history) =
     \<lparr>kind = callEntry, evalue = Input elem, eid = i, etime = Call elem, eclientId = ClientId elem\<rparr>
   # \<lparr>kind = returnEntry, evalue = Output elem, eid = i, etime = Return elem, eclientId = ClientId elem\<rparr>
   # raw_entries (i + 1) history"

definition makeEntries :: "('v entry list \<Rightarrow> 'v entry list) \<Rightarrow> 'v operation list \<Rightarrow> 'v entry list" where
  "makeEntries sort_fn history = sort_fn (raw_entries 0 history)"

definition sorts_by_time :: "('v entry list \<Rightarrow> 'v entry list) \<Rightarrow> bool" where
  "sorts_by_time sort_fn \<longleftrightarrow>
     (\<forall>es. mset (sort_fn es) = mset es \<and> sorted (map etime (sort_fn es)))"

fun renumber_loop :: "'v porc_event list \<Rightarrow> (int \<rightharpoonup> int) \<Rightarrow> int \<Rightarrow> 'v porc_event list" where
  "renumber_loop [] m i = []"
| "renumber_loop (v # events) m i =
     (case m (ev_Id v) of
        Some r \<Rightarrow> v\<lparr>ev_Id := r\<rparr> # renumber_loop events m i
      | None \<Rightarrow> v\<lparr>ev_Id := i\<rparr> # renumber_loop events (m(ev_Id v \<mapsto> i)) (i + 1))"

definition renumber :: "'v porc_event list \<Rightarrow> 'v porc_event list" where
  "renumber events = renumber_loop events Map.empty 0"

fun convert_loop :: "int \<Rightarrow> 'v porc_event list \<Rightarrow> 'v entry list" where
  "convert_loop i [] = []"
| "convert_loop i (elem # events) =
     \<lparr>kind = (if ev_Kind elem = ReturnEvent then returnEntry else callEntry),
      evalue = ev_Value elem, eid = ev_Id elem, etime = i, eclientId = ev_ClientId elem\<rparr>
     # convert_loop (i + 1) events"

definition convertEntries :: "'v porc_event list \<Rightarrow> 'v entry list" where
  "convertEntries events = convert_loop 0 events"

section \<open>Nodes and the heap\<close>

type_synonym addr = nat

record 'v node =
  nvalue :: "'v option"
  nmatch :: "addr option"
  nid :: int
  nnext :: "addr option"
  nprev :: "addr option"

type_synonym 'v heap = "'v node list"

definition deref :: "'v heap \<Rightarrow> addr option \<Rightarrow> 'v node option" where
  "deref h p = (case p of None \<Rightarrow> None | Some a \<Rightarrow> if a < length h then Some (h ! a) else None)"

definition set_next :: "'v heap \<Rightarrow> addr option \<Rightarrow> addr option \<Rightarrow> 'v heap option" where
  "set_next h p v = (case p of None \<Rightarrow> None
     | Some a \<Rightarrow> if a < length h then Some (h[a := (h ! a)\<lparr>nnext := v\<rparr>]) else None)"

definition set_prev :: "'v heap \<Rightarrow> addr option \<Rightarrow> addr option \<Rightarrow> 'v heap option" where
  "set_prev h p v = (case p of None \<Rightarrow> None
     | Some a \<Rightarrow> if a < length h then Some (h[a := (h ! a)\<lparr>nprev := v\<rparr>]) else None)"

definition insertBefore :: "'v heap \<Rightarrow> addr \<Rightarrow> addr option \<Rightarrow> 'v heap option" where
  "insertBefore h n mark =
    (if mark \<noteq> None then do {
       mk \<leftarrow> deref h mark;
       let beforeMark = nprev mk;
       h \<leftarrow> set_prev h mark (Some n);
       h \<leftarrow> set_next h (Some n) mark;
       if beforeMark \<noteq> None then do {
         h \<leftarrow> set_prev h (Some n) beforeMark;
         set_next h beforeMark (Some n) }
       else Some h }
     else Some h)"

partial_function (option) length_loop :: "'v heap \<Rightarrow> addr option \<Rightarrow> nat \<Rightarrow> nat option" where
  "length_loop h n l =
    (case n of None \<Rightarrow> Some l
     | Some a \<Rightarrow> (case deref h n of None \<Rightarrow> None | Some nd \<Rightarrow> length_loop h (nnext nd) (l + 1)))"

definition length_list :: "'v heap \<Rightarrow> addr option \<Rightarrow> nat option" where
  "length_list h n = length_loop h n 0"

text \<open>The loop of \<^verbatim>\<open>makeLinkedEntries\<close> runs over the entries from the last to the first.\<close>

fun link_entries :: "'v entry list \<Rightarrow> 'v heap \<Rightarrow> addr option \<Rightarrow> (int \<rightharpoonup> addr)
    \<Rightarrow> ('v heap \<times> addr option) option" where
  "link_entries [] h root m = Some (h, root)"
| "link_entries (elem # rest) h root m =
    (if kind elem = returnEntry then do {
       let entry = length h;
       let h = h @ [\<lparr>nvalue = Some (evalue elem), nmatch = None, nid = eid elem,
                     nnext = None, nprev = None\<rparr>];
       let m = m(eid elem \<mapsto> entry);
       h \<leftarrow> insertBefore h entry root;
       link_entries rest h (Some entry) m }
     else do {
       let entry = length h;
       let h = h @ [\<lparr>nvalue = Some (evalue elem), nmatch = m (eid elem), nid = eid elem,
                     nnext = None, nprev = None\<rparr>];
       h \<leftarrow> insertBefore h entry root;
       link_entries rest h (Some entry) m })"

definition makeLinkedEntries :: "'v entry list \<Rightarrow> ('v heap \<times> addr option) option" where
  "makeLinkedEntries entries = link_entries (rev entries) [] None Map.empty"

definition lift :: "'v heap \<Rightarrow> addr option \<Rightarrow> 'v heap option" where
  "lift h entry = do {
     en \<leftarrow> deref h entry;
     h \<leftarrow> set_next h (nprev en) (nnext en);
     en \<leftarrow> deref h entry;
     h \<leftarrow> set_prev h (nnext en) (nprev en);
     en \<leftarrow> deref h entry;
     let mt = nmatch en;
     mn \<leftarrow> deref h mt;
     h \<leftarrow> set_next h (nprev mn) (nnext mn);
     mn \<leftarrow> deref h mt;
     if nnext mn \<noteq> None then set_prev h (nnext mn) (nprev mn) else Some h }"

definition unlift :: "'v heap \<Rightarrow> addr option \<Rightarrow> 'v heap option" where
  "unlift h entry = do {
     en \<leftarrow> deref h entry;
     let mt = nmatch en;
     mn \<leftarrow> deref h mt;
     h \<leftarrow> set_next h (nprev mn) mt;
     mn \<leftarrow> deref h mt;
     h \<leftarrow> (if nnext mn \<noteq> None then set_prev h (nnext mn) mt else Some h);
     en \<leftarrow> deref h entry;
     h \<leftarrow> set_next h (nprev en) entry;
     en \<leftarrow> deref h entry;
     set_prev h (nnext en) entry }"

section \<open>Linked segments\<close>

definition fst_or :: "'a list \<Rightarrow> 'a option \<Rightarrow> 'a option" where
  "fst_or xs q = (case xs of [] \<Rightarrow> q | x # _ \<Rightarrow> Some x)"

definition lst_or :: "'a option \<Rightarrow> 'a list \<Rightarrow> 'a option" where
  "lst_or p xs = (if xs = [] then p else Some (last xs))"

fun dseg :: "'v heap \<Rightarrow> addr option \<Rightarrow> addr list \<Rightarrow> addr option \<Rightarrow> bool" where
  "dseg h p [] q = True"
| "dseg h p (a # xs) q = (a < length h \<and> nprev (h ! a) = p \<and> nnext (h ! a) = fst_or xs q
     \<and> dseg h (Some a) xs q)"

definition same_content :: "'v heap \<Rightarrow> 'v heap \<Rightarrow> bool" where
  "same_content h h' \<longleftrightarrow> length h = length h' \<and> map nvalue h = map nvalue h' \<and>
     map nmatch h = map nmatch h' \<and> map nid h = map nid h'"

lemma fst_or_simps [simp]: "fst_or [] q = q" "fst_or (x # xs) q = Some x"
  by (auto simp: fst_or_def)

lemma lst_or_simps [simp]: "lst_or p [] = p" "lst_or p (xs @ [x]) = Some x" "lst_or p [x] = Some x"
  by (auto simp: lst_or_def)

lemma fst_or_append: "fst_or (xs @ ys) q = fst_or xs (fst_or ys q)"
  by (cases xs) (auto simp: fst_or_def)

lemma lst_or_Cons: "lst_or p (x # xs) = lst_or (Some x) xs"
  by (auto simp: lst_or_def)

lemma dseg_append:
  "dseg h p (xs @ ys) q \<longleftrightarrow> dseg h p xs (fst_or ys q) \<and> dseg h (lst_or p xs) ys q"
  by (induction xs arbitrary: p) (auto simp: fst_or_append lst_or_Cons)

lemma dseg_frame: "a \<notin> set xs \<Longrightarrow> dseg (h[a := n]) p xs q \<longleftrightarrow> dseg h p xs q"
  by (induction xs arbitrary: p) auto

lemma dseg_range: "dseg h p xs q \<Longrightarrow> set xs \<subseteq> {..<length h}"
  by (induction xs arbitrary: p) auto

lemma node_upd_same: "nnext n = v \<Longrightarrow> n\<lparr>nnext := v\<rparr> = n" "nprev n = v \<Longrightarrow> n\<lparr>nprev := v\<rparr> = n"
  by (cases n; simp)+

lemma map_upd_same: "f n = f (h ! a) \<Longrightarrow> map f (h[a := n]) = map f h"
  by (metis list_update_id map_update)

lemma same_content_refl [simp]: "same_content h h"
  by (simp add: same_content_def)

lemma same_content_trans: "same_content a b \<Longrightarrow> same_content b c \<Longrightarrow> same_content a c"
  by (simp add: same_content_def)

lemma same_contentD:
  assumes "same_content h h'"
  shows "length h' = length h" "a < length h \<Longrightarrow> nid (h' ! a) = nid (h ! a)"
    "a < length h \<Longrightarrow> nmatch (h' ! a) = nmatch (h ! a)"
    "a < length h \<Longrightarrow> nvalue (h' ! a) = nvalue (h ! a)"
  using assms unfolding same_content_def by (metis length_map nth_map)+

lemmas heap_op_defs = deref_def set_next_def set_prev_def

section \<open>Lifting and unlifting\<close>

text \<open>
  The list around the lifted operation: \<open>p\<close> precedes the call \<open>e\<close>, and \<open>ys\<close> stands between
  the call and its return \<open>m\<close>.  The three shapes of \<open>ys\<close> differ in which nodes are written.
\<close>

definition lift_spec :: "'v heap \<Rightarrow> addr \<Rightarrow> addr list \<Rightarrow> bool" where
  "lift_spec h e rest \<longleftrightarrow> (\<exists>h'. lift h (Some e) = Some h' \<and> dseg h' None rest None \<and>
     same_content h h' \<and> unlift h' (Some e) = Some h)"

lemmas lift_simps = lift_def unlift_def heap_op_defs Let_def
lemmas dseg_simps = dseg_append dseg_frame fst_or_append

lemma lift_specI:
  "lift h (Some e) = Some h' \<Longrightarrow> dseg h' None rest None \<Longrightarrow> same_content h h' \<Longrightarrow>
   unlift h' (Some e) = Some h \<Longrightarrow> lift_spec h e rest"
  unfolding lift_spec_def by blast

lemma heap_eqI:
  "length h' = length h \<Longrightarrow> (\<And>a. a < length h \<Longrightarrow> h' ! a = h ! a) \<Longrightarrow> Some h' = Some h"
  by (simp add: nth_equalityI)

definition relink :: "'v heap \<Rightarrow> addr \<Rightarrow> addr option \<Rightarrow> 'v heap" where
  "relink h a q = (case q of None \<Rightarrow> h[a := (h ! a)\<lparr>nnext := None\<rparr>]
     | Some b \<Rightarrow> (h[a := (h ! a)\<lparr>nnext := Some b\<rparr>])[b := ((h[a := (h ! a)\<lparr>nnext := Some b\<rparr>]) ! b)\<lparr>nprev := Some a\<rparr>])"

lemma lift_adjacent:
  assumes d: "dseg h None (xs @ p # e # m # zs) None" and dist: "distinct (xs @ p # e # m # zs)"
    and m: "nmatch (h ! e) = Some m"
  shows "lift_spec h e (xs @ p # zs)"
proof -
  let ?h = "relink (relink h p (Some m)) p (fst_or zs None)"
  have f: "p < length h" "e < length h" "m < length h" "nnext (h ! p) = Some e" "nprev (h ! e) = Some p"
    "nnext (h ! e) = Some m" "nprev (h ! m) = Some e" "nnext (h ! m) = fst_or zs None"
    "p \<noteq> e" "p \<noteq> m" "e \<noteq> m"
    using d dist by (simp_all add: dseg_append)
  show ?thesis
  proof (cases zs)
    case Nil
    then show ?thesis using d dist m f
      by (intro lift_specI[where h' = ?h])
        (simp_all add: relink_def lift_simps dseg_simps same_content_def map_upd_same,
         auto intro!: nth_equalityI simp: nth_list_update node_upd_same heap_op_defs)
  next
    case (Cons z zs')
    then show ?thesis using d dist m f
      by (intro lift_specI[where h' = ?h])
        (simp_all add: relink_def lift_simps dseg_simps same_content_def map_upd_same,
         auto intro!: nth_equalityI simp: nth_list_update node_upd_same heap_op_defs)
  qed
qed

lemma same_content_relink: "same_content h (relink h a q)"
  by (auto simp: relink_def same_content_def map_upd_same split: option.splits)

lemma lift_one_between:
  assumes d: "dseg h None (xs @ p # e # y # m # zs) None" and dist: "distinct (xs @ p # e # y # m # zs)"
    and m: "nmatch (h ! e) = Some m"
  shows "lift_spec h e (xs @ p # y # zs)"
proof (rule lift_specI)
  let ?h = "relink (relink h p (Some y)) y (fst_or zs None)"
  have f: "p < length h" "e < length h" "m < length h" "y < length h"
    "nnext (h ! p) = Some e" "nprev (h ! e) = Some p"
    "nnext (h ! e) = Some y" "nprev (h ! y) = Some e" "nnext (h ! y) = Some m"
    "nprev (h ! m) = Some y" "nnext (h ! m) = fst_or zs None"
    "p \<noteq> e" "p \<noteq> m" "e \<noteq> m" "p \<noteq> y" "y \<noteq> m" "e \<noteq> y"
    using d dist by (simp_all add: dseg_append)
  note g = f(12-)[symmetric]
  have z: "z < length h \<and> z \<noteq> p \<and> z \<noteq> e \<and> z \<noteq> y \<and> z \<noteq> m \<and> nprev (h ! z) = Some m"
    if "zs = z # zs'" for z zs'
    using d dist that by (auto simp add: dseg_append)
  show "lift h (Some e) = Some ?h"
  proof (cases zs)
    case Nil
    with f g m show ?thesis by (simp add: lift_simps relink_def)
  next
    case (Cons a zs')
    with f g m z[OF Cons] show ?thesis by (simp add: lift_simps relink_def)
  qed
  show "same_content h ?h"
    by (metis same_content_relink same_content_trans)
  show "dseg ?h None (xs @ p # y # zs) None"
    using d dist by (cases zs) (simp_all add: relink_def dseg_simps nth_list_update, metis+)
  show "unlift ?h (Some e) = Some h"
  proof (cases zs)
    case Nil
    with f g m show ?thesis
      by (simp add: lift_simps relink_def) (rule nth_equalityI; auto simp: nth_list_update node_upd_same)
  next
    case (Cons a zs')
    with f g m z[OF Cons] show ?thesis
      by (simp add: lift_simps relink_def) (rule nth_equalityI; auto simp: nth_list_update node_upd_same)
  qed
qed

lemma lift_many_between:
  assumes d: "dseg h None (xs @ p # e # y # ws @ y' # m # zs) None"
    and dist: "distinct (xs @ p # e # y # ws @ y' # m # zs)" and m: "nmatch (h ! e) = Some m"
  shows "lift_spec h e (xs @ p # y # ws @ y' # zs)"
proof (rule lift_specI)
  let ?h = "relink (relink h p (Some y)) y' (fst_or zs None)"
  have f: "p < length h" "e < length h" "m < length h" "y < length h" "y' < length h"
    "nnext (h ! p) = Some e" "nprev (h ! e) = Some p"
    "nnext (h ! e) = Some y" "nprev (h ! y) = Some e" "nnext (h ! y') = Some m"
    "nprev (h ! m) = Some y'" "nnext (h ! m) = fst_or zs None"
    "p \<noteq> e" "p \<noteq> m" "e \<noteq> m" "p \<noteq> y" "p \<noteq> y'" "y \<noteq> y'" "y \<noteq> m" "y' \<noteq> m" "e \<noteq> y" "e \<noteq> y'"
    using d dist by (auto simp add: dseg_append)
  note g = f(13-)[symmetric]
  have z: "z < length h \<and> z \<noteq> p \<and> z \<noteq> e \<and> z \<noteq> y \<and> z \<noteq> y' \<and> z \<noteq> m \<and> nprev (h ! z) = Some m"
    if "zs = z # zs'" for z zs'
    using d dist that by (auto simp add: dseg_append)
  show "lift h (Some e) = Some ?h"
  proof (cases zs)
    case Nil
    with f g m show ?thesis by (simp add: lift_simps relink_def)
  next
    case (Cons a zs')
    with f g m z[OF Cons] show ?thesis by (simp add: lift_simps relink_def)
  qed
  show "same_content h ?h"
    by (metis same_content_relink same_content_trans)
  show "dseg ?h None (xs @ p # y # ws @ y' # zs) None"
    using d dist by (cases zs) (simp_all add: relink_def dseg_simps nth_list_update, metis+)
  show "unlift ?h (Some e) = Some h"
  proof (cases zs)
    case Nil
    with f g m show ?thesis
      by (simp add: lift_simps relink_def) (rule nth_equalityI; auto simp: nth_list_update node_upd_same)
  next
    case (Cons a zs')
    with f g m z[OF Cons] show ?thesis
      by (simp add: lift_simps relink_def) (rule nth_equalityI; auto simp: nth_list_update node_upd_same)
  qed
qed

lemma lift_unlift:
  assumes "dseg h None (xs @ p # e # ys @ m # zs) None"
    "distinct (xs @ p # e # ys @ m # zs)" "nmatch (h ! e) = Some m"
  shows "lift_spec h e (xs @ p # ys @ zs)"
proof (cases ys)
  case Nil
  then show ?thesis using assms lift_adjacent[of h xs p e m zs] by simp
next
  case (Cons y ys')
  show ?thesis
  proof (cases ys' rule: rev_cases)
    case Nil
    with Cons assms lift_one_between[of h xs p e y m zs] show ?thesis by simp
  next
    case (snoc ws y')
    with Cons assms lift_many_between[of h xs p e y ws y' m zs] show ?thesis by simp
  qed
qed

section \<open>Building the list\<close>

definition fresh_node :: "'v node \<Rightarrow> bool" where
  "fresh_node nd \<longleftrightarrow> nnext nd = None \<and> nprev nd = None"

lemma dseg_append_heap: "set xs \<subseteq> {..<length h} \<Longrightarrow> dseg (h @ hs) p xs q \<longleftrightarrow> dseg h p xs q"
  by (induction xs arbitrary: p) (auto simp: nth_append)

lemma insertBefore_fresh:
  assumes "dseg h None (rev [0..<length h]) None" "fresh_node nd"
  shows "\<exists>h'. insertBefore (h @ [nd]) (length h) (fst_or (rev [0..<length h]) None) = Some h' \<and>
    same_content (h @ [nd]) h' \<and> dseg h' None (rev [0..<length h']) None"
proof (cases "length h")
  case 0
  then have "h = []" by simp
  with assms(2) show ?thesis
    by (simp add: insertBefore_def fresh_node_def)
next
  case (Suc k)
  let ?h = "(h @ [nd])[k := (h ! k)\<lparr>nprev := Some (Suc k)\<rparr>, Suc k := nd\<lparr>nnext := Some k\<rparr>]"
  have d: "dseg h None (k # rev [0..<k]) None" using assms(1) Suc by simp
  then have k: "k < length h" "nprev (h ! k) = None" "nnext (h ! k) = fst_or (rev [0..<k]) None"
    "dseg h (Some k) (rev [0..<k]) None" by simp_all
  have "insertBefore (h @ [nd]) (length h) (Some k) = Some ?h"
    using k Suc by (simp add: insertBefore_def heap_op_defs nth_append Let_def)
  moreover have "same_content (h @ [nd]) ?h"
    using k Suc by (simp add: same_content_def map_upd_same nth_append)
  moreover have "dseg ?h None (Suc k # k # rev [0..<k]) None"
    using k Suc assms(2) dseg_append_heap[of "rev [0..<k]" h "[nd]"]
    by (simp add: dseg_frame nth_append fresh_node_def subset_eq)
  ultimately show ?thesis using Suc by (intro exI[of _ ?h]) simp
qed

text \<open>Positions in the reversed list of entries are the addresses of their nodes.\<close>

definition links :: "'v entry list \<Rightarrow> 'v node \<Rightarrow> addr \<Rightarrow> bool" where
  "links r nd b \<longleftrightarrow> nvalue nd = Some (evalue (r ! b)) \<and> nid nd = eid (r ! b) \<and>
     (\<forall>c. nmatch nd = Some c \<longleftrightarrow> kind (r ! b) = callEntry \<and> c < b \<and>
        kind (r ! c) = returnEntry \<and> eid (r ! c) = eid (r ! b))"

definition return_map :: "'v entry list \<Rightarrow> nat \<Rightarrow> (int \<rightharpoonup> addr) \<Rightarrow> bool" where
  "return_map r a m \<longleftrightarrow> (\<forall>i b. m i = Some b \<longleftrightarrow> b < a \<and> kind (r ! b) = returnEntry \<and> eid (r ! b) = i)"

definition unique_returns :: "'v entry list \<Rightarrow> bool" where
  "unique_returns r \<longleftrightarrow> (\<forall>b<length r. \<forall>c<length r. kind (r ! b) = returnEntry \<longrightarrow>
     kind (r ! c) = returnEntry \<longrightarrow> eid (r ! b) = eid (r ! c) \<longrightarrow> b = c)"

lemma links_content:
  "nvalue nd' = nvalue nd \<Longrightarrow> nid nd' = nid nd \<Longrightarrow> nmatch nd' = nmatch nd \<Longrightarrow> links r nd' b \<longleftrightarrow> links r nd b"
  by (simp add: links_def)

lemma same_content_links:
  "same_content h h' \<Longrightarrow> b < length h \<Longrightarrow> links r (h' ! b) b \<longleftrightarrow> links r (h ! b) b"
  by (intro links_content) (simp_all add: same_contentD)

lemma link_entries_ok:
  assumes u: "unique_returns r" and a: "a \<le> length r"
    and "length h = a" "dseg h None (rev [0..<length h]) None" "return_map r a m"
    and "\<forall>b<a. links r (h ! b) b" "root = fst_or (rev [0..<length h]) None"
  shows "\<exists>h'. link_entries (drop a r) h root m = Some (h', fst_or (rev [0..<length r]) None) \<and>
    length h' = length r \<and> dseg h' None (rev [0..<length r]) None \<and> (\<forall>b<length r. links r (h' ! b) b)"
  using assms(2-)
proof (induction "length r - a" arbitrary: a h m root)
  case 0
  then show ?case by simp
next
  case (Suc k)
  then have a: "a < length r" by simp
  define nd where "nd = \<lparr>nvalue = Some (evalue (r ! a)),
    nmatch = (if kind (r ! a) = returnEntry then None else m (eid (r ! a))), nid = eid (r ! a),
    nnext = None, nprev = None\<rparr>"
  define m' where "m' = (if kind (r ! a) = returnEntry then m(eid (r ! a) \<mapsto> a) else m)"
  have "fresh_node nd" by (simp add: nd_def fresh_node_def)
  then obtain h' where h': "insertBefore (h @ [nd]) (length h) root = Some h'"
    "same_content (h @ [nd]) h'" "dseg h' None (rev [0..<length h']) None"
    using insertBefore_fresh[of h nd] Suc.prems by auto
  have len: "length h' = Suc a" using same_contentD(1)[OF h'(2)] Suc.prems by simp
  have nd: "links r nd a"
    using Suc.prems(4) by (auto simp: nd_def links_def return_map_def) (cases "kind (r ! a)"; simp)+
  have l: "links r (h' ! b) b" if "b < Suc a" for b
    using that Suc.prems(2,5) nd same_content_links[OF h'(2), of b]
    by (auto simp: nth_append less_Suc_eq)
  have "return_map r (Suc a) m'"
    using Suc.prems(4) u a unfolding return_map_def unique_returns_def m'_def
    by (auto simp: less_Suc_eq)
  then have "\<exists>h''. link_entries (drop (Suc a) r) h' (fst_or (rev [0..<length h']) None) m' =
      Some (h'', fst_or (rev [0..<length r]) None) \<and> length h'' = length r \<and>
      dseg h'' None (rev [0..<length r]) None \<and> (\<forall>b<length r. links r (h'' ! b) b)"
    using Suc.hyps a h'(3) l len by (intro Suc.hyps(1)) auto
  moreover have "link_entries (drop a r) h root m = link_entries (drop (Suc a) r) h' (Some a) m'"
    using h'(1) Suc.prems(2)
    by (cases "kind (r ! a)") (simp_all add: Cons_nth_drop_Suc[OF a, symmetric] nd_def m'_def Let_def)
  ultimately show ?case using len by simp
qed

lemma makeLinkedEntries_ok:
  assumes "unique_returns (rev es)"
  shows "\<exists>h. makeLinkedEntries es = Some (h, fst_or (rev [0..<length es]) None) \<and>
    length h = length es \<and> dseg h None (rev [0..<length es]) None \<and>
    (\<forall>b<length es. links (rev es) (h ! b) b)"
  using link_entries_ok[OF assms, of 0 "[]" Map.empty None]
  by (simp add: makeLinkedEntries_def return_map_def)

lemma length_loop_dseg:
  "dseg h p xs None \<Longrightarrow> length_loop h (fst_or xs None) l = Some (l + length xs)"
proof (induction xs arbitrary: p l)
  case Nil
  then show ?case by (simp add: length_loop.simps)
next
  case (Cons a xs)
  from Cons.prems have "length_loop h (fst_or xs None) (l + 1) = Some (l + 1 + length xs)"
    by (intro Cons.IH[of "Some a"]) simp
  with Cons.prems show ?case by (subst length_loop.simps) (simp add: deref_def)
qed

lemma length_list_dseg: "dseg h p xs None \<Longrightarrow> length_list h (fst_or xs None) = Some (length xs)"
  by (simp add: length_list_def length_loop_dseg)

section \<open>Properties\<close>

text \<open>
  \<^bold>\<open>C34\<close>. On a doubly linked list of entries, unlift after lift restores every node of the heap.
\<close>

theorem lift_then_unlift:
  assumes "dseg h None (xs @ p # e # ys @ m # zs) None" "distinct (xs @ p # e # ys @ m # zs)" "nmatch (h ! e) = Some m"
  shows "\<exists>h'. lift h (Some e) = Some h' \<and> dseg h' None (xs @ p # ys @ zs) None \<and> unlift h' (Some e) = Some h"
  using lift_unlift[OF assms] unfolding lift_spec_def by blast

definition small_heap :: "nat heap" where
  "small_heap =
    [\<lparr>nvalue = None, nmatch = None, nid = -1, nnext = Some 1, nprev = None\<rparr>,
     \<lparr>nvalue = Some 5, nmatch = Some 2, nid = 0, nnext = Some 2, nprev = Some 0\<rparr>,
     \<lparr>nvalue = Some 6, nmatch = None, nid = 0, nnext = None, nprev = Some 1\<rparr>]"

theorem lift_then_unlift_witness:
  "\<exists>h'. lift small_heap (Some 1) = Some h' \<and> dseg h' None [0] None \<and> unlift h' (Some 1) = Some small_heap"
  using lift_then_unlift[of small_heap "[]" 0 1 "[]" 2 "[]"] by (simp add: small_heap_def fst_or_def lst_or_def)

theorem makeLinkedEntries_length:
  assumes "unique_returns (rev es)"
  shows "\<exists>h root. makeLinkedEntries es = Some (h, root) \<and> length h = length es \<and> length_list h root = Some (length es)"
proof -
  obtain h where "makeLinkedEntries es = Some (h, fst_or (rev [0..<length es]) None)" "length h = length es"
      "dseg h None (rev [0..<length es]) None"
    using makeLinkedEntries_ok[OF assms] by blast
  with length_list_dseg[of h None "rev [0..<length es]"] show ?thesis by auto
qed

theorem makeLinkedEntries_length_witness:
  "\<exists>h root. makeLinkedEntries (raw_entries 0 [\<lparr>ClientId = 0, Input = (5 :: nat), Call = 0, Output = 6, Return = 3\<rparr>]) = Some (h, root) \<and>
     length_list h root = Some 2"
  using makeLinkedEntries_length[of "raw_entries 0 [\<lparr>ClientId = 0, Input = (5 :: nat), Call = 0, Output = 6, Return = 3\<rparr>]"]
  by (auto simp: unique_returns_def less_Suc_eq)

end
