(* ===== verification/Bitset.thy ===== *)
theory Bitset
  imports Prelude
begin

text \<open>
  The bit sets of \<^verbatim>\<open>porcupine/bitset.go\<close>: a slice of 64-bit words, bits 0 to 63 in the
  first word, the next ones in the second.  The abstraction \<open>bits_of\<close> is the set of
  positions whose bit is set; the locale \<open>finite_set_impl\<close> is what the checker
  relies on, and the interpretation at the end discharges it for the code's operations.
  The in-place methods are modelled on values: the checker mutates a set only through
  its own variable, after \<open>clone\<close>.
\<close>

unbundle bit_operations_syntax

type_synonym bitset = "64 word list"

section \<open>Operations\<close>

definition newBitset :: "nat \<Rightarrow> bitset" where
  "newBitset bits = (let extra = (if bits mod 64 \<noteq> 0 then 1 else 0);
                         chunks = bits div 64 + extra
                     in replicate chunks 0)"

definition clone :: "bitset \<Rightarrow> bitset" where
  "clone b = map (\<lambda>i. b ! i) [0..<length b]"

definition bitsetIndex :: "nat \<Rightarrow> nat \<times> nat" where
  "bitsetIndex pos = (pos div 64, pos mod 64)"

definition bitset_set :: "bitset \<Rightarrow> nat \<Rightarrow> bitset option" where
  "bitset_set b pos = (let (major, minor) = bitsetIndex pos in
     do { w \<leftarrow> at b (int major);
          upd_at b (int major) (w OR push_bit minor 1) })"

definition bitset_clear :: "bitset \<Rightarrow> nat \<Rightarrow> bitset option" where
  "bitset_clear b pos = (let (major, minor) = bitsetIndex pos in
     do { w \<leftarrow> at b (int major);
          upd_at b (int major) (w AND NOT (push_bit minor 1)) })"

definition bitset_get :: "bitset \<Rightarrow> nat \<Rightarrow> bool option" where
  "bitset_get b pos = (let (major, minor) = bitsetIndex pos in
     do { w \<leftarrow> at b (int major);
          Some (w AND push_bit minor 1 \<noteq> 0) })"

text \<open>\<^verbatim>\<open>bits.OnesCount64\<close> of the standard library.\<close>

definition OnesCount64 :: "64 word \<Rightarrow> nat" where
  "OnesCount64 v = length (filter (bit v) [0..<64])"

definition popcnt :: "bitset \<Rightarrow> nat" where
  "popcnt b = foldl (\<lambda>total v. total + OnesCount64 v) 0 b"

definition bitset_hash :: "bitset \<Rightarrow> 64 word" where
  "bitset_hash b = foldl (\<lambda>hash v. hash XOR v) (of_nat (popcnt b)) b"

definition bitset_equals :: "bitset \<Rightarrow> bitset \<Rightarrow> bool" where
  "bitset_equals b b2 = (if length b \<noteq> length b2 then False
     else list_all (\<lambda>i. b ! i = b2 ! i) [0..<length b])"

section \<open>Abstraction\<close>

definition bits_of :: "bitset \<Rightarrow> nat set" where
  "bits_of b = {pos. pos < 64 * length b \<and> bit (b ! (pos div 64)) (pos mod 64)}"

lemma word_and_bit_iff: "w AND push_bit k (1 :: 64 word) \<noteq> 0 \<longleftrightarrow> k < 64 \<and> bit w k"
proof
  assume "w AND push_bit k 1 \<noteq> 0"
  then obtain n where "bit (w AND push_bit k 1) n"
    by (metis bit_eqI bit_0_eq bot_apply bot_bool_def)
  then show "k < 64 \<and> bit w k"
    by (auto simp: bit_and_iff bit_exp_iff possible_bit_def)
next
  assume "k < 64 \<and> bit w k"
  then have "bit (w AND push_bit k 1) k"
    by (simp add: bit_and_iff bit_exp_iff possible_bit_def)
  then show "w AND push_bit k 1 \<noteq> 0" by auto
qed

lemma bitset_chunk: "pos < 64 * length b \<longleftrightarrow> pos div 64 < length (b :: bitset)"
  by (simp add: div_less_iff_less_mult mult.commute)

lemma bitset_pos_eq: "pos div 64 = k div 64 \<Longrightarrow> pos mod 64 = k mod 64 \<Longrightarrow> pos = (k :: nat)"
  by (metis div_mult_mod_eq)

lemma bit_set_word: "bit (w OR 2 ^ k :: 64 word) n \<longleftrightarrow> bit w n \<or> (k < 64 \<and> n = k)"
  by (auto simp: bit_or_iff bit_exp_iff possible_bit_def)

lemma bit_clear_word:
  "n < 64 \<Longrightarrow> bit (w AND NOT (2 ^ k) :: 64 word) n \<longleftrightarrow> bit w n \<and> n \<noteq> k"
  by (auto simp: bit_and_iff bit_not_iff bit_exp_iff possible_bit_def)

lemma bits_of_iff:
  "pos \<in> bits_of b \<longleftrightarrow> pos div 64 < length b \<and> bit (b ! (pos div 64)) (pos mod 64)"
  by (auto simp: bits_of_def bitset_chunk)

lemma newBitset_eq: "newBitset n = replicate ((n + 63) div 64) 0"
proof -
  define q r where "q = n div 64" "r = n mod 64"
  then have n: "n = 64 * q + r" and r: "r < 64" by simp_all
  have "(n + 63) div 64 = q + (r + 63) div 64"
    unfolding n add.assoc by (rule div_mult_self4) simp
  moreover have "(r + 63) div 64 = (if r \<noteq> 0 then 1 else 0)"
    using r by (auto intro: div_nat_eqI)
  ultimately have "n div 64 + (if n mod 64 \<noteq> 0 then 1 else 0) = (n + 63) div 64"
    by (simp only: q_r_def)
  then show ?thesis by (simp only: newBitset_def Let_def)
qed

lemma newBitset_length [simp]: "length (newBitset n) = (n + 63) div 64"
  by (simp add: newBitset_eq)

lemma newBitset_bits [simp]: "bits_of (newBitset n) = {}"
  by (auto simp: bits_of_iff newBitset_eq)

lemma newBitset_covers: "pos < n \<Longrightarrow> pos < 64 * length (newBitset n)"
  by simp

lemma bitset_clone [simp]: "clone b = b"
  by (simp add: clone_def map_nth)

lemma bitset_set_Some:
  assumes "pos < 64 * length b"
  obtains b' where "bitset_set b pos = Some b'" "length b' = length b"
    "bits_of b' = insert pos (bits_of b)"
proof -
  let ?b = "b[pos div 64 := b ! (pos div 64) OR 2 ^ (pos mod 64)]"
  have r: "pos div 64 < length b" using assms by (simp add: bitset_chunk)
  then have "bitset_set b pos = Some ?b"
    by (simp add: bitset_set_def bitsetIndex_def upd_at_def)
  moreover have "x \<in> bits_of ?b \<longleftrightarrow> x \<in> insert pos (bits_of b)" for x
    using r by (cases "x = pos")
      (auto simp: bits_of_iff nth_list_update bit_set_word dest: bitset_pos_eq)
  ultimately show thesis using that[of ?b] by (simp add: set_eq_iff)
qed

lemma bitset_clear_Some:
  assumes "pos < 64 * length b"
  obtains b' where "bitset_clear b pos = Some b'" "length b' = length b"
    "bits_of b' = bits_of b - {pos}"
proof -
  let ?b = "b[pos div 64 := b ! (pos div 64) AND NOT (2 ^ (pos mod 64))]"
  have r: "pos div 64 < length b" using assms by (simp add: bitset_chunk)
  then have "bitset_clear b pos = Some ?b"
    by (simp add: bitset_clear_def bitsetIndex_def upd_at_def)
  moreover have "x \<in> bits_of ?b \<longleftrightarrow> x \<in> bits_of b - {pos}" for x
    using r by (cases "x = pos")
      (auto simp: bits_of_iff nth_list_update bit_clear_word dest: bitset_pos_eq)
  ultimately show thesis using that[of ?b] by (simp add: set_eq_iff)
qed

lemma bitset_get_Some:
  assumes "pos < 64 * length b"
  shows "bitset_get b pos = Some (pos \<in> bits_of b)"
proof -
  have r: "pos div 64 < length b" using assms by (simp add: bitset_chunk)
  have "bitset_get b pos = Some (b ! (pos div 64) AND push_bit (pos mod 64) 1 \<noteq> 0)"
    using r by (simp add: bitset_get_def bitsetIndex_def)
  then show ?thesis unfolding word_and_bit_iff using r by (simp add: bits_of_iff)
qed

lemma bitset_equals_iff: "bitset_equals b c \<longleftrightarrow> b = c"
  by (cases "length b = length c")
    (auto simp: bitset_equals_def list_all_iff intro: nth_equalityI)

lemma bits_of_inject:
  assumes "length b = length c" "bits_of b = bits_of c"
  shows "b = c"
proof (rule nth_equalityI)
  fix i assume i: "i < length b"
  show "b ! i = c ! i"
  proof (rule bit_word_eqI)
    fix n assume n: "n < LENGTH(64)"
    have "64 * i + n \<in> bits_of b \<longleftrightarrow> 64 * i + n \<in> bits_of c" using assms by simp
    with i n assms(1) show "bit (b ! i) n = bit (c ! i) n"
      by (simp add: bits_of_iff)
  qed
qed (use assms in simp)

lemma popcnt_sum: "popcnt b = (\<Sum>v\<leftarrow>b. OnesCount64 v)"
proof -
  have "foldl (\<lambda>total v. total + OnesCount64 v) k b = k + (\<Sum>v\<leftarrow>b. OnesCount64 v)" for k
    by (induction b arbitrary: k) auto
  then show ?thesis by (simp add: popcnt_def)
qed

lemma OnesCount64_card: "OnesCount64 v = card {n. n < 64 \<and> bit v n}"
proof -
  have "length (filter (bit v) [0..<64]) = card (set (filter (bit v) [0..<64]))"
    by (simp only: distinct_card distinct_filter distinct_upt)
  then show ?thesis by (simp add: OnesCount64_def conj_commute del: length_filter_conv_card)
qed

lemma bits_of_append:
  "bits_of (b @ [v]) = bits_of b \<union> (\<lambda>n. 64 * length b + n) ` {n. n < 64 \<and> bit v n}"
proof -
  have "x \<in> bits_of (b @ [v]) \<longleftrightarrow>
      x \<in> bits_of b \<or> x \<in> (\<lambda>n. 64 * length b + n) ` {n. n < 64 \<and> bit v n}" for x
  proof -
    have "\<exists>n<64. bit v n \<and> x = 64 * length b + n" if "x div 64 = length b" "bit v (x mod 64)"
    proof (intro exI conjI)
      show "x mod 64 < 64" by simp
      show "x = 64 * length b + x mod 64" unfolding that(1)[symmetric] by (rule mult_div_mod_eq[symmetric])
    qed (rule that(2))
    then show ?thesis
      by (auto simp: bits_of_iff nth_append image_iff less_Suc_eq)
  qed
  then show ?thesis by blast
qed

lemma finite_bits_of [simp]: "finite (bits_of b)"
  by (simp add: bits_of_def)

lemma popcnt_card: "popcnt b = card (bits_of b)"
proof (induction b rule: rev_induct)
  case Nil
  then show ?case by (simp add: popcnt_sum bits_of_def)
next
  case (snoc v b)
  have "bits_of b \<inter> (\<lambda>n. 64 * length b + n) ` {n. n < 64 \<and> bit v n} = {}"
    by (auto simp: bits_of_def)
  then have "card (bits_of (b @ [v])) = card (bits_of b) + card {n. n < 64 \<and> bit v n}"
    unfolding bits_of_append by (subst card_Un_disjoint) (auto simp: card_image)
  with snoc show ?case by (simp add: popcnt_sum OnesCount64_card)
qed

section \<open>The interface the checker relies on\<close>

text \<open>
  A bounded set of positions with hashing: the operations return whenever the position
  is in range, and the hash is a function of the set, so equal sets land in one bucket.
\<close>

locale finite_set_impl =
  fixes new :: "nat \<Rightarrow> 'b"
    and ins :: "'b \<Rightarrow> nat \<Rightarrow> 'b option"
    and del :: "'b \<Rightarrow> nat \<Rightarrow> 'b option"
    and eq :: "'b \<Rightarrow> 'b \<Rightarrow> bool"
    and hash :: "'b \<Rightarrow> 'h"
    and elems :: "'b \<Rightarrow> nat set"
    and fits :: "nat \<Rightarrow> 'b \<Rightarrow> bool"
  assumes new_elems: "elems (new n) = {}"
    and new_fits: "fits n (new n)"
    and ins_ok: "fits n b \<Longrightarrow> i < n \<Longrightarrow> \<exists>b'. ins b i = Some b' \<and> fits n b' \<and> elems b' = insert i (elems b)"
    and del_ok: "fits n b \<Longrightarrow> i < n \<Longrightarrow> \<exists>b'. del b i = Some b' \<and> fits n b' \<and> elems b' = elems b - {i}"
    and eq_iff: "fits n b \<Longrightarrow> fits n c \<Longrightarrow> eq b c \<longleftrightarrow> elems b = elems c"
    and hash_elems: "fits n b \<Longrightarrow> fits n c \<Longrightarrow> elems b = elems c \<Longrightarrow> hash b = hash c"
begin

lemma ins_del_roundtrip:
  assumes "fits n b" "i < n" "i \<notin> elems b" "ins b i = Some b1" "del b1 i = Some b2"
  shows "eq b b2"
  using assms ins_ok[of n b i] del_ok[of n b1 i] by (auto simp: eq_iff)

end

definition bitset_fits :: "nat \<Rightarrow> bitset \<Rightarrow> bool" where
  "bitset_fits n b = (length b = (n + 63) div 64)"

lemma bitset_fits_range: "bitset_fits n b \<Longrightarrow> i < n \<Longrightarrow> i < 64 * length b"
  by (simp add: bitset_fits_def)

interpretation bset: finite_set_impl newBitset bitset_set bitset_clear bitset_equals
  bitset_hash bits_of bitset_fits
proof
  show "bits_of (newBitset n) = {}" "bitset_fits n (newBitset n)" for n
    by (simp_all add: bitset_fits_def)
  show "\<exists>b'. bitset_set b i = Some b' \<and> bitset_fits n b' \<and> bits_of b' = insert i (bits_of b)"
    if "bitset_fits n b" "i < n" for n b i
    using bitset_set_Some[OF bitset_fits_range[OF that]] that by (metis bitset_fits_def)
  show "\<exists>b'. bitset_clear b i = Some b' \<and> bitset_fits n b' \<and> bits_of b' = bits_of b - {i}"
    if "bitset_fits n b" "i < n" for n b i
    using bitset_clear_Some[OF bitset_fits_range[OF that]] that by (metis bitset_fits_def)
  show "bitset_equals b c \<longleftrightarrow> bits_of b = bits_of c"
    if "bitset_fits n b" "bitset_fits n c" for n b c
    using that bits_of_inject[of b c] by (auto simp: bitset_equals_iff bitset_fits_def)
  show "bitset_hash b = bitset_hash c"
    if "bitset_fits n b" "bitset_fits n c" "bits_of b = bits_of c" for n b c
    using that bits_of_inject[of b c] by (simp add: bitset_fits_def)
qed

section \<open>Properties\<close>

theorem bitset_roundtrip:
  assumes "bitset_fits n b" "i < n" "j < n"
  shows "\<exists>b1 b2. bitset_set b i = Some b1 \<and> bitset_get b1 j = Some (j = i \<or> j \<in> bits_of b) \<and>
    popcnt b1 = card (insert i (bits_of b)) \<and> bitset_clear b1 i = Some b2 \<and>
    bitset_get b2 j = Some (j \<noteq> i \<and> j \<in> bits_of b) \<and> (i \<notin> bits_of b \<longrightarrow> bitset_equals b b2)"
proof -
  obtain b1 where b1: "bitset_set b i = Some b1" "bitset_fits n b1" "bits_of b1 = insert i (bits_of b)"
    using bset.ins_ok[OF assms(1,2)] by blast
  obtain b2 where b2: "bitset_clear b1 i = Some b2" "bitset_fits n b2" "bits_of b2 = bits_of b1 - {i}"
    using bset.del_ok[OF b1(2) assms(2)] by blast
  have "bitset_get b1 j = Some (j \<in> bits_of b1)" "bitset_get b2 j = Some (j \<in> bits_of b2)"
    using bitset_get_Some bitset_fits_range[OF _ assms(3)] b1(2) b2(2) by blast+
  moreover have "i \<notin> bits_of b \<longrightarrow> bitset_equals b b2" using bset.ins_del_roundtrip[OF assms(1,2) _ b1(1) b2(1)] by blast
  ultimately show ?thesis using b1 b2 by (auto simp: popcnt_card)
qed

theorem bitset_roundtrip_witness:
  "\<exists>b1 b2. bitset_set (newBitset 70) 65 = Some b1 \<and> bitset_get b1 65 = Some True \<and> popcnt b1 = 1 \<and>
    bitset_clear b1 65 = Some b2 \<and> bitset_equals (newBitset 70) b2"
  using bitset_roundtrip[of 70 "newBitset 70" 65 65] by (auto simp: bset.new_fits)

theorem bitset_out_of_range:
  "64 * length b \<le> pos \<Longrightarrow> bitset_set b pos = None \<and> bitset_clear b pos = None \<and> bitset_get b pos = None"
proof -
  assume "64 * length b \<le> pos"
  then have "\<not> pos div 64 < length b" using bitset_chunk[of pos b] by simp
  then have "at b (int (pos div 64)) = None" by (simp add: at_def)
  then show ?thesis by (simp add: bitset_set_def bitset_clear_def bitset_get_def bitsetIndex_def)
qed

theorem bitset_out_of_range_witness:
  "bitset_set (newBitset 70) 128 = None \<and> bitset_clear (newBitset 70) 128 = None \<and> bitset_get (newBitset 70) 128 = None"
  using bitset_out_of_range[of "newBitset 70" 128] by simp

end
