(* ===== verification/Checker.thy ===== *)
theory Checker
  imports EventList Bitset
begin

text \<open>
  The search of \<^verbatim>\<open>porcupine/checker.go\<close>: \<^verbatim>\<open>checkSingle\<close> on one partition, and the functions that
  split a history, run the partitions and combine their verdicts.

  The loop of \<^verbatim>\<open>checkSingle\<close> keeps its variables in the record \<open>cst\<close>; one iteration is
  \<open>check_body\<close>, the loop itself a partial function, so that \<open>None\<close> means a panic or an
  endless run.  A pointer to a slice of ids (\<^verbatim>\<open>*[]int\<close>) is an index into \<open>c_seqs\<close>.  The kill
  flag, written by another goroutine, is the function \<open>kill\<close> of the iteration number.
\<close>

section \<open>One partition\<close>

record ('v, 's) cst =
  c_heap :: "'v heap"
  c_entry :: "addr option"
  c_linearized :: bitset
  c_cache :: "64 word \<Rightarrow> (bitset \<times> 's) list"
  c_calls :: "(addr option \<times> 's) list"
  c_state :: 's
  c_seqs :: "int list list"
  c_longest :: "nat option list"

type_synonym lin_info = "int list list \<times> nat option list"

text \<open>The conversion \<^verbatim>\<open>uint(i)\<close> of a 64-bit \<^verbatim>\<open>int\<close>.\<close>

definition to_uint :: "int \<Rightarrow> nat" where
  "to_uint i = nat (i mod 2 ^ 64)"

fun cache_scan :: "('v, 's) model \<Rightarrow> (bitset \<times> 's) list \<Rightarrow> bitset \<times> 's \<Rightarrow> bool option" where
  "cache_scan m [] entry = Some False"
| "cache_scan m (elem # elems) entry =
    (if bitset_equals (fst entry) (fst elem) then do {
       eq \<leftarrow> Equal m;
       if eq (snd entry) (snd elem) then Some True else cache_scan m elems entry }
     else cache_scan m elems entry)"

definition cacheContains :: "('v, 's) model \<Rightarrow> (64 word \<Rightarrow> (bitset \<times> 's) list) \<Rightarrow> bitset \<times> 's \<Rightarrow> bool option" where
  "cacheContains m cache entry = cache_scan m (cache (bitset_hash (fst entry))) entry"

fun call_ids :: "'v heap \<Rightarrow> (addr option \<times> 's) list \<Rightarrow> int list option" where
  "call_ids h [] = Some []"
| "call_ids h (v # calls) = do { en \<leftarrow> deref h (fst v); ids \<leftarrow> call_ids h calls; Some (nid en # ids) }"

text \<open>The update of \<^verbatim>\<open>longest\<close> when the search backtracks; \<^verbatim>\<open>seq\<close> is allocated at its first use.\<close>

fun longest_loop :: "'v heap \<Rightarrow> (addr option \<times> 's) list \<Rightarrow> (addr option \<times> 's) list \<Rightarrow> nat option
    \<Rightarrow> lin_info \<Rightarrow> lin_info option" where
  "longest_loop h calls [] seq info = Some info"
| "longest_loop h calls (v # vs) seq (seqs, longest) = do {
     en \<leftarrow> deref h (fst v);
     cur \<leftarrow> at longest (nid en);
     longer \<leftarrow> (case cur of None \<Rightarrow> Some True
                | Some q \<Rightarrow> do { old \<leftarrow> at seqs (int q); Some (length calls > length old) });
     if longer then do {
       (q, seqs) \<leftarrow> (case seq of Some q \<Rightarrow> Some (q, seqs)
                      | None \<Rightarrow> do { ids \<leftarrow> call_ids h calls; Some (length seqs, seqs @ [ids]) });
       longest \<leftarrow> upd_at longest (nid en) (Some q);
       longest_loop h calls vs (Some q) (seqs, longest) }
     else longest_loop h calls vs seq (seqs, longest) }"

definition check_call :: "('v, 's) model \<Rightarrow> addr \<Rightarrow> ('v, 's) cst \<Rightarrow> 'v node \<Rightarrow> ('v, 's) cst option" where
  "check_call m headEntry st en = do {
     matching \<leftarrow> deref (c_heap st) (nmatch en);
     inp \<leftarrow> nvalue en;
     outp \<leftarrow> nvalue matching;
     (ok, newState) \<leftarrow> Step m (c_state st) inp outp;
     if ok then do {
       newLinearized \<leftarrow> bitset_set (clone (c_linearized st)) (to_uint (nid en));
       let newCacheEntry = (newLinearized, newState);
       found \<leftarrow> cacheContains m (c_cache st) newCacheEntry;
       if \<not> found then do {
         let hash = bitset_hash newLinearized;
         let cache = (c_cache st)(hash := c_cache st hash @ [newCacheEntry]);
         let calls = c_calls st @ [(c_entry st, c_state st)];
         linearized \<leftarrow> bitset_set (c_linearized st) (to_uint (nid en));
         h \<leftarrow> lift (c_heap st) (c_entry st);
         hn \<leftarrow> deref h (Some headEntry);
         Some (st\<lparr>c_heap := h, c_entry := nnext hn, c_linearized := linearized,
                  c_cache := cache, c_calls := calls, c_state := newState\<rparr>) }
       else Some (st\<lparr>c_entry := nnext en\<rparr>) }
     else Some (st\<lparr>c_entry := nnext en\<rparr>) }"

definition check_return :: "bool \<Rightarrow> ('v, 's) cst \<Rightarrow> ((bool \<times> lin_info) + ('v, 's) cst) option" where
  "check_return computePartial st =
    (if c_calls st = [] then Some (Inl (False, c_seqs st, c_longest st))
     else do {
       (seqs, longest) \<leftarrow> (if computePartial
          then longest_loop (c_heap st) (c_calls st) (c_calls st) None (c_seqs st, c_longest st)
          else Some (c_seqs st, c_longest st));
       let callsTop = last (c_calls st);
       en \<leftarrow> deref (c_heap st) (fst callsTop);
       linearized \<leftarrow> bitset_clear (c_linearized st) (to_uint (nid en));
       h \<leftarrow> unlift (c_heap st) (fst callsTop);
       en \<leftarrow> deref h (fst callsTop);
       Some (Inr (st\<lparr>c_heap := h, c_entry := nnext en, c_linearized := linearized,
                     c_calls := butlast (c_calls st), c_state := snd callsTop,
                     c_seqs := seqs, c_longest := longest\<rparr>)) })"

definition check_body :: "('v, 's) model \<Rightarrow> bool \<Rightarrow> addr \<Rightarrow> ('v, 's) cst
    \<Rightarrow> ((bool \<times> lin_info) + ('v, 's) cst) option" where
  "check_body m computePartial headEntry st = do {
     en \<leftarrow> deref (c_heap st) (c_entry st);
     if nmatch en \<noteq> None then map_option Inr (check_call m headEntry st en)
     else check_return computePartial st }"

definition check_finish :: "nat \<Rightarrow> ('v, 's) cst \<Rightarrow> (bool \<times> lin_info) option" where
  "check_finish n st = do {
     seq \<leftarrow> call_ids (c_heap st) (c_calls st);
     Some (True, c_seqs st @ [seq], map (\<lambda>i. Some (length (c_seqs st))) [0..<n]) }"

partial_function (option) check_loop :: "('v, 's) model \<Rightarrow> bool \<Rightarrow> (nat \<Rightarrow> bool) \<Rightarrow> nat \<Rightarrow> addr \<Rightarrow> nat
    \<Rightarrow> ('v, 's) cst \<Rightarrow> (bool \<times> lin_info) option" where
  "check_loop m computePartial kill n headEntry k st =
    (case deref (c_heap st) (Some headEntry) of
       None \<Rightarrow> None
     | Some hn \<Rightarrow>
        if nnext hn \<noteq> None then
          if kill k then Some (False, c_seqs st, c_longest st)
          else (case check_body m computePartial headEntry st of
                  None \<Rightarrow> None
                | Some (Inl r) \<Rightarrow> Some r
                | Some (Inr st') \<Rightarrow> check_loop m computePartial kill n headEntry (k + 1) st')
        else check_finish n st)"

definition checkSingle :: "('v, 's) model \<Rightarrow> 'v entry list \<Rightarrow> bool \<Rightarrow> (nat \<Rightarrow> bool) \<Rightarrow> (bool \<times> lin_info) option" where
  "checkSingle m history computePartial kill = do {
     (h, entry) \<leftarrow> makeLinkedEntries history;
     len \<leftarrow> length_list h entry;
     let n = len div 2;
     let linearized = newBitset n;
     let longest = replicate n None;
     let headEntry = length h;
     let h = h @ [\<lparr>nvalue = None, nmatch = None, nid = -1, nnext = None, nprev = None\<rparr>];
     h \<leftarrow> insertBefore h headEntry entry;
     check_loop m computePartial kill n headEntry 0
       \<lparr>c_heap = h, c_entry = entry, c_linearized = linearized, c_cache = (\<lambda>_. []), c_calls = [],
        c_state = Init m, c_seqs = [], c_longest = longest\<rparr> }"

end
