(* ===== verification/Checker_Search.thy ===== *)
theory Checker_Search
  imports Checker
begin

text \<open>
  Correctness of the search of \<^verbatim>\<open>checkSingle\<close> in \<^verbatim>\<open>porcupine/checker.go\<close>.  The invariant
  \<open>search_inv\<close> relates the loop state to the heap the loop started from: the stack \<open>calls\<close>
  is a path of operations the model accepts, the list holds exactly the nodes of the
  operations off the path, every node before the current one has been tried, the bit set
  holds the path, and every cached configuration is on the path or cannot be completed.
  Each iteration keeps it and decreases \<open>search_measure\<close> (configurations not yet
  cached, length of the path, nodes still to try), so the loop ends with the right answer.
\<close>

section \<open>The operations of a list of entries\<close>

definition hist :: "'v entry list \<Rightarrow> event list" where
  "hist es = map (\<lambda>e. (kind e = returnEntry, nat (eid e))) es"

definition op_value :: "entryKind \<Rightarrow> 'v entry list \<Rightarrow> nat \<Rightarrow> 'v" where
  "op_value k es i = evalue (hd (filter (\<lambda>e. kind e = k \<and> eid e = int i) es))"

definition model_step :: "('v, 's) model \<Rightarrow> 'v entry list \<Rightarrow> 's \<Rightarrow> nat \<Rightarrow> 's option" where
  "model_step m es s i = (case Step m s (op_value callEntry es i) (op_value returnEntry es i) of
     Some (True, t) \<Rightarrow> Some t | _ \<Rightarrow> None)"

definition wf_entries :: "nat \<Rightarrow> 'v entry list \<Rightarrow> bool" where
  "wf_entries n es \<longleftrightarrow> (\<forall>e\<in>set es. 0 \<le> eid e) \<and> wf_hist n (hist es) \<and> n < 2 ^ 64"

text \<open>The heap the search starts from: one node per entry, and the head node at the end.\<close>

definition start_heap :: "nat \<Rightarrow> 'v entry list \<Rightarrow> 'v heap \<Rightarrow> bool" where
  "start_heap n es h0 \<longleftrightarrow> wf_entries n es \<and> length h0 = Suc (length es) \<and>
     dseg h0 None (length es # rev [0..<length es]) None \<and>
     (\<forall>b<length es. links (rev es) (h0 ! b) b)"

definition op_of :: "'v heap \<Rightarrow> addr \<Rightarrow> nat" where
  "op_of h a = nat (nid (h ! a))"

definition event_of :: "'v heap \<Rightarrow> addr \<Rightarrow> event" where
  "event_of h a = (nmatch (h ! a) = None, op_of h a)"

definition live :: "'v heap \<Rightarrow> nat set \<Rightarrow> addr list" where
  "live h L = filter (\<lambda>a. op_of h a \<notin> L) (rev [0..<length h - 1])"

lemma before_nth:
  "distinct xs \<Longrightarrow> before xs x y \<longleftrightarrow> (\<exists>i j. i < j \<and> j < length xs \<and> xs ! i = x \<and> xs ! j = y)"
proof (induction xs)
  case (Cons a xs)
  show ?case
  proof (cases "a = x")
    case True
    show ?thesis
    proof
      assume "before (a # xs) x y"
      then obtain j where "j < length xs" "xs ! j = y" using True by (auto simp: in_set_conv_nth)
      then show "\<exists>i j. i < j \<and> j < length (a # xs) \<and> (a # xs) ! i = x \<and> (a # xs) ! j = y"
        using True by (intro exI[of _ 0] exI[of _ "Suc j"]) simp
    next
      assume "\<exists>i j. i < j \<and> j < length (a # xs) \<and> (a # xs) ! i = x \<and> (a # xs) ! j = y"
      then obtain i j where "i < j" "j < length (a # xs)" "(a # xs) ! j = y" by blast
      then have "y \<in> set xs" by (cases j) auto
      with True show "before (a # xs) x y" by simp
    qed
  next
    case False
    have "(\<exists>i j. i < j \<and> j < length (a # xs) \<and> (a # xs) ! i = x \<and> (a # xs) ! j = y) \<longleftrightarrow>
        (\<exists>i j. i < j \<and> j < length xs \<and> xs ! i = x \<and> xs ! j = y)" (is "?l = ?r")
    proof
      assume ?l
      then obtain i j where ij: "i < j" "j < length (a # xs)" "(a # xs) ! i = x" "(a # xs) ! j = y" by blast
      then obtain i' j' where "i = Suc i'" "j = Suc j'" using False by (cases i; cases j) auto
      with ij show ?r by auto
    next
      assume ?r
      then obtain i j where "i < j" "j < length xs" "xs ! i = x" "xs ! j = y" by blast
      then show ?l by (intro exI[of _ "Suc i"] exI[of _ "Suc j"]) simp
    qed
    with False Cons show ?thesis by simp
  qed
qed simp

lemma wf_unique_returns: assumes "wf_entries n es" shows "unique_returns (rev es)"
proof -
  have d: "distinct (rev (hist es))" and pos: "\<And>e. e \<in> set es \<Longrightarrow> 0 \<le> eid e"
    using assms by (auto simp: wf_entries_def wf_hist_def)
  have nth: "rev (hist es) ! b = (kind (rev es ! b) = returnEntry, nat (eid (rev es ! b)))" if "b < length es" for b
    using that by (simp add: hist_def rev_map)
  show ?thesis
    unfolding unique_returns_def
  proof (intro allI impI)
    fix b c assume b: "b < length (rev es)" "c < length (rev es)" "kind (rev es ! b) = returnEntry"
      "kind (rev es ! c) = returnEntry" "eid (rev es ! b) = eid (rev es ! c)"
    then have "rev (hist es) ! b = rev (hist es) ! c" by (simp add: nth)
    with d b show "b = c" by (simp add: nth_eq_iff_index_eq hist_def)
  qed
qed

lemma start_event:
  assumes "start_heap n es h0" "a < length es"
  shows "event_of h0 a = rev (hist es) ! a" "0 \<le> nid (h0 ! a)" "op_of h0 a < n"
    "kind (rev es ! a) = returnEntry \<longleftrightarrow> nmatch (h0 ! a) = None"
    "nid (h0 ! a) = eid (rev es ! a)" "nvalue (h0 ! a) = Some (evalue (rev es ! a))"
proof -
  have w: "wf_entries n es" and l: "links (rev es) (h0 ! a) a"
    using assms by (auto simp: start_heap_def)
  then show i: "nid (h0 ! a) = eid (rev es ! a)" and "nvalue (h0 ! a) = Some (evalue (rev es ! a))"
    by (simp_all add: links_def)
  have in_es: "rev es ! a \<in> set es" using assms(2) by (metis length_rev nth_mem set_rev)
  with w i show pos: "0 \<le> nid (h0 ! a)" by (simp add: wf_entries_def)
  have nth: "rev (hist es) ! b = (kind (rev es ! b) = returnEntry, nat (eid (rev es ! b)))"
    if "b < length es" for b using that by (simp add: hist_def rev_map)
  have "rev (hist es) ! a \<in> set (rev (hist es))"
    by (rule nth_mem) (simp add: hist_def assms(2))
  then have mem: "rev (hist es) ! a \<in> UNIV \<times> {..<n}"
    using w by (simp add: wf_entries_def wf_hist_def)
  then show "op_of h0 a < n" using nth[OF assms(2)] i by (simp add: op_of_def)
  show k: "kind (rev es ! a) = returnEntry \<longleftrightarrow> nmatch (h0 ! a) = None"
  proof
    assume "kind (rev es ! a) = returnEntry"
    with l show "nmatch (h0 ! a) = None" by (cases "nmatch (h0 ! a)") (simp_all add: links_def)
  next
    assume none: "nmatch (h0 ! a) = None"
    show "kind (rev es ! a) = returnEntry"
    proof (rule ccontr)
      assume nk: "kind (rev es ! a) \<noteq> returnEntry"
      let ?N = "length es" and ?i = "nat (eid (rev es ! a))"
      have H: "hist es ! (?N - Suc a) = (False, ?i)" using nth[OF assms(2)] nk assms(2)
        by (simp add: hist_def rev_nth)
      have d: "distinct (hist es)" and bf: "\<forall>i<n. before (hist es) (False, i) (True, i)"
        using w by (simp_all add: wf_entries_def wf_hist_def)
      have "?i < n" using mem nth[OF assms(2)] by simp
      with bf have "before (hist es) (False, ?i) (True, ?i)" by blast
      then obtain p q where pq: "p < q" "q < length (hist es)" "hist es ! p = (False, ?i)"
          "hist es ! q = (True, ?i)" unfolding before_nth[OF d] by blast
      have "p = ?N - Suc a"
        using d pq H assms(2) nth_eq_iff_index_eq[OF d, of p "?N - Suc a"] by (simp add: hist_def)
      let ?c = "?N - Suc q"
      have q: "q < ?N" using pq(2) by (simp add: hist_def)
      have "?c < a" using pq(1) q \<open>p = ?N - Suc a\<close> by linarith
      moreover have "q = ?N - Suc ?c" using q by linarith
      ultimately have c: "?c < a" "q = ?N - Suc ?c" "q < ?N" using q by blast+
      have "rev es ! ?c = es ! q" using q by (simp add: rev_nth)
      then have "kind (rev es ! ?c) = returnEntry" "nat (eid (rev es ! ?c)) = ?i"
        using pq(4) c by (simp_all add: hist_def)
      moreover have "0 \<le> eid (rev es ! ?c)" "0 \<le> eid (rev es ! a)"
        using w in_es c \<open>rev es ! ?c = es ! q\<close> by (auto simp: wf_entries_def)
      moreover have "kind (rev es ! a) = callEntry" using nk by (cases "kind (rev es ! a)") auto
      ultimately have "nmatch (h0 ! a) = Some ?c" using l c by (simp add: links_def eq_nat_nat_iff)
      with none show False by simp
    qed
  qed
  show "event_of h0 a = rev (hist es) ! a"
    using nth[OF assms(2)] k i by (simp add: event_of_def op_of_def)
qed

lemma start_events:
  assumes "start_heap n es h0"
  shows "map (event_of h0) (rev [0..<length es]) = hist es"
proof -
  have "map (event_of h0) [0..<length es] = rev (hist es)"
    using start_event(1)[OF assms] by (intro nth_equalityI) (auto simp: hist_def)
  then show ?thesis by (metis rev_map rev_rev_ident)
qed

lemma start_live:
  assumes "start_heap n es h0"
  shows "live h0 L = filter (\<lambda>a. op_of h0 a \<notin> L) (rev [0..<length es])"
    "map (event_of h0) (live h0 L) = remaining (hist es) L"
proof -
  show l: "live h0 L = filter (\<lambda>a. op_of h0 a \<notin> L) (rev [0..<length es])"
    using assms by (simp add: live_def start_heap_def)
  have "(\<lambda>(r, i). i \<notin> L) \<circ> event_of h0 = (\<lambda>a. op_of h0 a \<notin> L)"
    by (auto simp: event_of_def)
  then show "map (event_of h0) (live h0 L) = remaining (hist es) L"
    unfolding l remaining_def start_events[OF assms, symmetric] filter_map by simp
qed

lemma live_props: "distinct (live h L)" "set (live h L) \<subseteq> {..<length h - 1}"
  by (auto simp: live_def)

lemma live_insert: "live h (insert i L) = filter (\<lambda>a. op_of h a \<noteq> i) (live h L)"
  unfolding live_def filter_filter by (rule filter_cong) auto

lemma live_bound: "start_heap n es h0 \<Longrightarrow> b \<in> set (live h0 L) \<Longrightarrow> b < length es"
  by (auto simp: start_live(1))

lemma links_match:
  "links r nd b \<Longrightarrow> nmatch nd = Some c \<Longrightarrow> kind (r ! b) = callEntry \<and> c < b \<and>
     kind (r ! c) = returnEntry \<and> eid (r ! c) = eid (r ! b)"
  unfolding links_def by blast

lemma event_inj:
  assumes "start_heap n es h0" "a < length es" "b < length es" "event_of h0 a = event_of h0 b"
  shows "a = b"
proof -
  have d: "distinct (rev (hist es))" using assms(1)
    by (simp add: start_heap_def wf_entries_def wf_hist_def)
  then show ?thesis using assms start_event(1)[OF assms(1)] nth_eq_iff_index_eq[OF d, of a b]
    by (simp add: hist_def)
qed

lemma op_match_unique:
  assumes "start_heap n es h0" "a < length es" "b < length es" "c < length es"
    "nmatch (h0 ! a) = Some c" "op_of h0 b = op_of h0 a"
  shows "b = a \<or> b = c"
proof -
  have l: "links (rev es) (h0 ! a) a" using assms by (simp add: start_heap_def)
  then have "kind (rev es ! c) = returnEntry" "eid (rev es ! c) = eid (rev es ! a)"
    using links_match[OF _ assms(5)] by blast+
  then have "event_of h0 c = (True, op_of h0 a)"
    using start_event(4,5)[OF assms(1)] assms(2,4) by (simp add: event_of_def op_of_def)
  moreover have "event_of h0 a = (False, op_of h0 a)" using assms(5) by (simp add: event_of_def)
  moreover have "event_of h0 b = event_of h0 a \<or> event_of h0 b = event_of h0 c"
    using assms(6) calculation by (auto simp: event_of_def)
  ultimately show ?thesis using event_inj[OF assms(1)] assms(2-4) by metis
qed

text \<open>A call in the live list is followed by its return; without the operation both are gone.\<close>

lemma live_split:
  assumes s: "start_heap n es h0" and sp: "live h0 L = xs @ e # ys" and m: "nmatch (h0 ! e) = Some c"
  obtains ys1 ys2 where "ys = ys1 @ c # ys2" "live h0 (insert (op_of h0 e) L) = xs @ ys1 @ ys2"
proof -
  let ?N = "length es"
  have e: "e < ?N" using live_bound[OF s, of e L] sp by simp
  have l: "links (rev es) (h0 ! e) e" using s e by (simp add: start_heap_def)
  have c: "c < e" "eid (rev es ! c) = eid (rev es ! e)" using links_match[OF l m] by auto
  have opc: "op_of h0 c = op_of h0 e" using c e start_event(5)[OF s] by (simp add: op_of_def)
  have "e \<in> set (live h0 L)" using sp by simp
  then have "op_of h0 e \<notin> L" using start_live(1)[OF s] by simp
  then have c_in: "c \<in> set (live h0 L)" using c e opc start_live(1)[OF s] by simp
  have srt: "sorted_wrt (>) (live h0 L)"
    unfolding start_live(1)[OF s] by (intro sorted_wrt_filter) (simp add: sorted_wrt_rev)
  then have "c \<notin> set xs" using sp c(1) by (auto simp: sorted_wrt_append)
  with c_in sp c(1) have "c \<in> set ys" by auto
  then obtain ys1 ys2 where ys: "ys = ys1 @ c # ys2" by (meson split_list)
  have d: "distinct (xs @ e # ys1 @ c # ys2)" using live_props(1)[of h0 L] sp ys by simp
  have "op_of h0 b \<noteq> op_of h0 e" if "b \<in> set xs \<union> set ys1 \<union> set ys2" for b
  proof
    assume "op_of h0 b = op_of h0 e"
    moreover have "b \<in> set (live h0 L)" using that sp ys by auto
    then have "b < ?N" by (rule live_bound[OF s])
    ultimately have "b = e \<or> b = c" using op_match_unique[OF s e] c(1) e m by auto
    with d that show False by auto
  qed
  then have "filter (\<lambda>a. op_of h0 a \<noteq> op_of h0 e) (xs @ e # ys1 @ c # ys2) = xs @ ys1 @ ys2"
    using opc by (auto simp: filter_id_conv)
  with that ys sp show thesis by (simp add: live_insert)
qed

section \<open>The stack of lifted operations\<close>

definition ops :: "'v heap \<Rightarrow> (addr option \<times> 's) list \<Rightarrow> nat list" where
  "ops h calls = map (\<lambda>(p, s). op_of h (the p)) calls"

text \<open>
  \<open>explored\<close>: the calls \<open>xs\<close> of the live list were tried from the configuration
  \<open>(L, s)\<close> and lead nowhere.
\<close>

definition explored :: "('s \<Rightarrow> nat \<Rightarrow> 's option) \<Rightarrow> event list \<Rightarrow> 'v heap \<Rightarrow> nat set \<Rightarrow> 's \<Rightarrow> addr list \<Rightarrow> bool" where
  "explored f H h L s xs \<longleftrightarrow> (\<forall>x\<in>set xs. nmatch (h ! x) \<noteq> None \<and>
     (\<forall>t. f s (op_of h x) = Some t \<longrightarrow> \<not> completable f H (insert (op_of h x) L) t))"

inductive frames :: "('s \<Rightarrow> nat \<Rightarrow> 's option) \<Rightarrow> event list \<Rightarrow> 'v heap \<Rightarrow> 's \<Rightarrow>
    'v heap \<Rightarrow> (addr option \<times> 's) list \<Rightarrow> 's \<Rightarrow> bool" for f H h0 s0 where
  frames_base: "frames f H h0 s0 h0 [] s0"
| frames_push: "frames f H h0 s0 h calls s \<Longrightarrow> live h0 (set (ops h0 calls)) = xs @ e # ys \<Longrightarrow>
    explored f H h0 (set (ops h0 calls)) s xs \<Longrightarrow> nmatch (h0 ! e) = Some c \<Longrightarrow>
    f s (op_of h0 e) = Some t \<Longrightarrow> lift h (Some e) = Some h' \<Longrightarrow>
    frames f H h0 s0 h' (calls @ [(Some e, s)]) t"

lemma ops_snoc [simp]: "ops h (calls @ [(Some e, s)]) = ops h calls @ [op_of h e]" "ops h [] = []"
  by (simp_all add: ops_def)

definition linked :: "nat \<Rightarrow> 'v heap \<Rightarrow> 'v heap \<Rightarrow> nat set \<Rightarrow> bool" where
  "linked N h0 h L \<longleftrightarrow> same_content h0 h \<and> dseg h None (N # live h0 L) None"

lemma linked_lift:
  assumes s: "start_heap n es h0" and l: "linked (length es) h0 h L"
    and sp: "live h0 L = xs @ e # ys" and m: "nmatch (h0 ! e) = Some c"
  shows "\<exists>h'. lift h (Some e) = Some h' \<and> linked (length es) h0 h' (insert (op_of h0 e) L) \<and>
    unlift h' (Some e) = Some h"
proof -
  let ?N = "length es"
  obtain ys1 ys2 where ys: "ys = ys1 @ c # ys2" and lv: "live h0 (insert (op_of h0 e) L) = xs @ ys1 @ ys2"
    using live_split[OF s sp m] by blast
  obtain zs p where zs: "?N # xs = zs @ [p]" by (metis append_butlast_last_id list.distinct(1))
  have sc: "same_content h0 h" and d: "dseg h None (?N # xs @ e # ys1 @ c # ys2) None"
    using l sp ys by (auto simp: linked_def)
  have "?N \<notin> set (live h0 L)" using live_bound[OF s] by blast
  then have dist: "distinct (?N # xs @ e # ys1 @ c # ys2)"
    using live_props(1)[of h0 L] sp ys by simp
  have eq: "?N # xs @ e # ys1 @ c # ys2 = zs @ p # e # ys1 @ c # ys2"
    "?N # xs @ ys1 @ ys2 = zs @ p # ys1 @ ys2"
    using zs by (metis append.assoc append_Cons append_Nil)+
  have "e < length es" using live_bound[OF s, of e L] sp by simp
  then have "e < length h0" using s by (simp add: start_heap_def)
  then have "nmatch (h ! e) = Some c" using same_contentD(3)[OF sc] m by simp
  with d dist have "lift_spec h e (zs @ p # ys1 @ ys2)"
    unfolding eq by (intro lift_unlift) auto
  then show ?thesis
    unfolding lift_spec_def linked_def lv eq(2)[symmetric] using sc same_content_trans by blast
qed

lemma frames_linked:
  assumes "frames f H h0 s0 h calls s" "start_heap n es h0"
  shows "linked (length es) h0 h (set (ops h0 calls))"
  using assms
proof (induction)
  case frames_base
  then show ?case by (simp add: linked_def start_heap_def live_def)
next
  case (frames_push h calls s xs e ys c t h')
  then have "linked (length es) h0 h (set (ops h0 calls))" by simp
  from linked_lift[OF frames_push.prems this frames_push.hyps(2,4)] frames_push.hyps(6)
  show ?case by simp
qed

lemma frames_unlift:
  assumes "frames f H h0 s0 h' (calls @ [(p, s)]) t" "start_heap n es h0"
  obtains h e xs ys c where "p = Some e" "frames f H h0 s0 h calls s" "unlift h' (Some e) = Some h"
    "live h0 (set (ops h0 calls)) = xs @ e # ys" "explored f H h0 (set (ops h0 calls)) s xs"
    "nmatch (h0 ! e) = Some c" "f s (op_of h0 e) = Some t"
  using assms(1)
proof (cases rule: frames.cases)
  case (frames_push h calls' s' xs e ys c)
  then have eq: "calls' = calls" "p = Some e" "s' = s" by auto
  have fr: "frames f H h0 s0 h calls s" using frames_push(2) unfolding eq .
  have "unlift h' (Some e) = Some h"
    using linked_lift[OF assms(2) frames_linked[OF fr assms(2)] _ frames_push(5)] frames_push(3,7)
    unfolding eq by fastforce
  with frames_push eq show ?thesis using that by blast
qed simp

lemma explored_minimal:
  assumes s: "start_heap n es h0" and sp: "live h0 L = xs @ e # ys" and x: "explored f (hist es) h0 L s xs"
    and m: "nmatch (h0 ! e) \<noteq> None"
  shows "op_of h0 e \<in> minimal (hist es) L"
proof -
  let ?P = "\<lambda>(r, i). \<not> r"
  have "takeWhile ?P (remaining (hist es) L) =
      map (event_of h0) xs @ takeWhile ?P (map (event_of h0) (e # ys))"
    unfolding start_live(2)[OF s, symmetric] sp map_append using x
    by (subst takeWhile_append2) (auto simp: explored_def event_of_def)
  then have "event_of h0 e \<in> set (takeWhile ?P (remaining (hist es) L))"
    using m by (simp add: event_of_def)
  then show ?thesis unfolding minimal_def by (force simp: event_of_def)
qed

lemma explored_stuck:
  assumes s: "start_heap n es h0" and sp: "live h0 L = xs @ e # ys" and x: "explored f (hist es) h0 L s xs"
    and m: "nmatch (h0 ! e) = None"
  shows "\<not> completable f (hist es) L s"
proof -
  let ?P = "\<lambda>(r, i). \<not> r"
  have rem: "remaining (hist es) L = map (event_of h0) xs @ event_of h0 e # map (event_of h0) ys"
    unfolding start_live(2)[OF s, symmetric] sp by simp
  have "takeWhile ?P (remaining (hist es) L) = map (event_of h0) xs"
    unfolding rem using x m by (subst takeWhile_append2) (auto simp: explored_def event_of_def)
  then have "minimal (hist es) L = op_of h0 ` set xs"
    unfolding minimal_def by (force simp: event_of_def)
  then show ?thesis
    using x rem by (subst completable_unfold) (auto simp: explored_def)
qed

lemma frames_path:
  assumes "frames f (hist es) h0 s0 h calls s" "start_heap n es h0"
  shows "distinct (ops h0 calls) \<and> set (ops h0 calls) \<subseteq> {..<n} \<and>
    run f s0 (ops h0 calls) = Some s \<and>
    (completable f (hist es) (set (ops h0 calls)) s \<longrightarrow> completable f (hist es) {} s0)"
  using assms
proof induction
  case frames_base
  then show ?case by simp
next
  case (frames_push h calls s xs e ys c t h')
  let ?L = "set (ops h0 calls)"
  have e: "e \<in> set (live h0 ?L)" using frames_push.hyps(2) by simp
  then have "op_of h0 e \<notin> ?L" using start_live(1)[OF frames_push.prems] by simp
  moreover have "op_of h0 e < n"
    using start_event(3)[OF frames_push.prems live_bound[OF frames_push.prems e]] .
  moreover have "op_of h0 e \<in> minimal (hist es) ?L"
    using explored_minimal[OF frames_push.prems frames_push.hyps(2,3)] frames_push.hyps(4) by simp
  ultimately show ?case
    using frames_push.IH[OF frames_push.prems] frames_push.hyps(5)
    by (auto simp: run_append dest: completable_step)
qed

section \<open>Equality of states, configurations and the cache\<close>

definition sound_equal :: "('v, 's) model \<Rightarrow> bool" where
  "sound_equal m \<longleftrightarrow> (\<exists>eq. Equal m = Some eq \<and> (\<forall>s. eq s s) \<and>
     (\<forall>s t i out. eq s t \<longrightarrow> rel_option (\<lambda>(b, s') (c, t'). b = c \<and> (b \<longrightarrow> eq s' t'))
        (Step m s i out) (Step m t i out)))"

lemma sound_ShallowEqual: "Equal m = Some ShallowEqual \<Longrightarrow> sound_equal m"
  unfolding sound_equal_def by (auto simp: ShallowEqual_def intro!: option.rel_refl)

lemma model_step_equal:
  assumes "\<forall>s t i out. eq s t \<longrightarrow> rel_option (\<lambda>(b, s') (c, t'). b = c \<and> (b \<longrightarrow> eq s' t'))
        (Step m s i out) (Step m t i out)" "eq s t"
  shows "rel_option eq (model_step m es s i) (model_step m es t i)"
proof -
  have "rel_option (\<lambda>(b, s') (c, t'). b = c \<and> (b \<longrightarrow> eq s' t'))
     (Step m s (op_value callEntry es i) (op_value returnEntry es i))
     (Step m t (op_value callEntry es i) (op_value returnEntry es i))" using assms by blast
  then show ?thesis unfolding model_step_def
    by (cases rule: option.rel_cases) (auto split: bool.splits)
qed

lemma completable_equal:
  assumes "\<And>s t i. eq s t \<Longrightarrow> rel_option eq (f s i) (f t i)"
  shows "completable f H L s \<Longrightarrow> eq s t \<Longrightarrow> completable f H L t"
proof (induction arbitrary: t rule: completable.induct)
  case (completable_done L s)
  then show ?case by (intro completable.completable_done)
next
  case (completable_step i L s s')
  then obtain t' where "f t i = Some t'" "eq s' t'"
    using assms[of s t i] by (auto simp: option_rel_Some1)
  then show ?case using completable_step by (metis completable.completable_step)
qed

definition configs :: "('s \<Rightarrow> nat \<Rightarrow> 's option) \<Rightarrow> 's \<Rightarrow> nat \<Rightarrow> (nat set \<times> 's) set" where
  "configs f s0 n = {(set p, t) | p t. distinct p \<and> set p \<subseteq> {..<n} \<and> run f s0 p = Some t}"

lemma finite_configs: "finite (configs f s0 n)"
proof -
  have "configs f s0 n \<subseteq> (\<lambda>p. (set p, the (run f s0 p))) ` {p. set p \<subseteq> {..<n} \<and> distinct p}"
    by (force simp: configs_def)
  then show ?thesis by (rule finite_subset) (simp add: finite_subset_distinct)
qed

definition cached :: "(64 word \<Rightarrow> (bitset \<times> 's) list) \<Rightarrow> (nat set \<times> 's) set" where
  "cached cache = {(bits_of b, t) | b t v. (b, t) \<in> set (cache v)}"

definition on_path :: "('s \<Rightarrow> nat \<Rightarrow> 's option) \<Rightarrow> 's \<Rightarrow> nat list \<Rightarrow> nat set \<times> 's \<Rightarrow> bool" where
  "on_path f s0 p c \<longleftrightarrow> (\<exists>j. 0 < j \<and> j \<le> length p \<and> fst c = set (take j p) \<and> run f s0 (take j p) = Some (snd c))"

definition cache_ok :: "('s \<Rightarrow> nat \<Rightarrow> 's option) \<Rightarrow> event list \<Rightarrow> 's \<Rightarrow> nat \<Rightarrow> nat list \<Rightarrow>
    (64 word \<Rightarrow> (bitset \<times> 's) list) \<Rightarrow> bool" where
  "cache_ok f H s0 n p cache \<longleftrightarrow> (\<forall>v b t. (b, t) \<in> set (cache v) \<longrightarrow>
     bitset_fits n b \<and> bitset_hash b = v \<and> (bits_of b, t) \<in> configs f s0 n \<and>
     (on_path f s0 p (bits_of b, t) \<or> \<not> completable f H (bits_of b) t))"

lemma cache_scan_iff:
  "Equal m = Some eq \<Longrightarrow>
   cache_scan m elems e = Some (\<exists>x\<in>set elems. bitset_equals (fst e) (fst x) \<and> eq (snd e) (snd x))"
  by (induction elems) auto

lemma cached_update:
  "cached (cache(v := cache v @ [(b, t)])) = insert (bits_of b, t) (cached cache)"
  by (auto simp: cached_def split: if_splits) metis+

lemma on_path_snoc: "on_path f s0 p c \<Longrightarrow> on_path f s0 (p @ [i]) c"
  unfolding on_path_def by (metis le_SucI length_append_singleton take_append append_Nil2 diff_is_0_eq' take_0)

lemma on_path_snocD:
  assumes "on_path f s0 (p @ [i]) c"
  shows "on_path f s0 p c \<or> (fst c = set (p @ [i]) \<and> run f s0 (p @ [i]) = Some (snd c))"
proof -
  obtain j where j: "0 < j" "j \<le> length (p @ [i])" "fst c = set (take j (p @ [i]))"
    "run f s0 (take j (p @ [i])) = Some (snd c)" using assms unfolding on_path_def by blast
  show ?thesis
  proof (cases "j \<le> length p")
    case True
    with j show ?thesis by (auto simp: on_path_def)
  next
    case False
    with j(2) have "j = length (p @ [i])" by simp
    then have "take j (p @ [i]) = p @ [i]" by (simp only: take_all_iff order_refl)
    with j(3,4) show ?thesis by metis
  qed
qed

lemma on_path_card: "distinct p \<Longrightarrow> on_path f s0 p c \<Longrightarrow> card (fst c) \<le> length p"
  by (auto simp: on_path_def distinct_card)

section \<open>The invariant of the loop\<close>

definition at_entry :: "('s \<Rightarrow> nat \<Rightarrow> 's option) \<Rightarrow> event list \<Rightarrow> 'v heap \<Rightarrow> nat set \<Rightarrow> 's \<Rightarrow> addr option \<Rightarrow> bool" where
  "at_entry f H h0 L s p \<longleftrightarrow>
     (\<exists>xs rest. live h0 L = xs @ rest \<and> explored f H h0 L s xs \<and> p = fst_or rest None)"

definition search_inv :: "('v, 's) model \<Rightarrow> 'v entry list \<Rightarrow> nat \<Rightarrow> 'v heap \<Rightarrow> ('v, 's) cst \<Rightarrow> bool" where
  "search_inv m es n h0 st \<longleftrightarrow>
    (let f = model_step m es; H = hist es; p = ops h0 (c_calls st) in
      frames f H h0 (Init m) (c_heap st) (c_calls st) (c_state st) \<and>
      bitset_fits n (c_linearized st) \<and> bits_of (c_linearized st) = set p \<and>
      cache_ok f H (Init m) n p (c_cache st) \<and>
      length (c_longest st) = n \<and> (\<forall>q. Some q \<in> set (c_longest st) \<longrightarrow> q < length (c_seqs st)) \<and>
      at_entry f H h0 (set p) (c_state st) (c_entry st))"

definition search_measure :: "('v, 's) model \<Rightarrow> 'v entry list \<Rightarrow> nat \<Rightarrow> 'v heap \<Rightarrow> ('v, 's) cst \<Rightarrow> nat \<times> nat \<times> nat" where
  "search_measure m es n h0 st =
    (card (configs (model_step m es) (Init m) n - cached (c_cache st)), length (c_calls st),
     length (dropWhile (\<lambda>b. Some b \<noteq> c_entry st) (live h0 (set (ops h0 (c_calls st))))))"

definition search_less :: "((nat \<times> nat \<times> nat) \<times> (nat \<times> nat \<times> nat)) set" where
  "search_less = less_than <*lex*> less_than <*lex*> less_than"

definition steps_defined :: "('v, 's) model \<Rightarrow> 'v entry list \<Rightarrow> nat \<Rightarrow> bool" where
  "steps_defined m es n \<longleftrightarrow> (\<forall>s. \<forall>i<n. Step m s (op_value callEntry es i) (op_value returnEntry es i) \<noteq> None)"

lemma search_invD:
  assumes "search_inv m es n h0 st"
  shows "frames (model_step m es) (hist es) h0 (Init m) (c_heap st) (c_calls st) (c_state st)"
    "bitset_fits n (c_linearized st)" "bits_of (c_linearized st) = set (ops h0 (c_calls st))"
    "cache_ok (model_step m es) (hist es) (Init m) n (ops h0 (c_calls st)) (c_cache st)"
    "length (c_longest st) = n" "\<forall>q. Some q \<in> set (c_longest st) \<longrightarrow> q < length (c_seqs st)"
    "at_entry (model_step m es) (hist es) h0 (set (ops h0 (c_calls st))) (c_state st) (c_entry st)"
  using assms by (simp_all add: search_inv_def Let_def)

lemma at_entryI: "live h0 L = xs @ rest \<Longrightarrow> explored f H h0 L s xs \<Longrightarrow> at_entry f H h0 L s (fst_or rest None)"
  unfolding at_entry_def by blast

lemma explored_Nil [simp]: "explored f H h L s []"
  by (simp add: explored_def)

lemma dropWhile_rest:
  "distinct (xs @ rest) \<Longrightarrow> dropWhile (\<lambda>b. Some b \<noteq> fst_or rest None) (xs @ rest) = rest"
proof -
  assume d: "distinct (xs @ rest)"
  have "dropWhile (\<lambda>b. Some b \<noteq> fst_or rest None) (xs @ rest) =
      dropWhile (\<lambda>b. Some b \<noteq> fst_or rest None) rest"
    using d by (intro dropWhile_append2) (cases rest; auto)
  then show ?thesis by (cases rest) auto
qed

lemma op_value_at:
  assumes s: "start_heap n es h0" and a: "a < length es" and k: "kind (rev es ! a) = k"
  shows "nvalue (h0 ! a) = Some (op_value k es (op_of h0 a))"
proof -
  let ?Q = "\<lambda>e. kind e = k \<and> eid e = int (op_of h0 a)"
  have "rev es ! a \<in> set es" using a by (metis length_rev nth_mem set_rev)
  moreover have id: "int (op_of h0 a) = eid (rev es ! a)"
    using start_event(2,5)[OF s a] by (simp add: op_of_def)
  ultimately have "rev es ! a \<in> set (filter ?Q es)" using k by simp
  then have "filter ?Q es \<noteq> []" by (metis empty_iff empty_set)
  then have "hd (filter ?Q es) \<in> set (filter ?Q es)" by (rule hd_in_set)
  then obtain b where b: "b < length es" "rev es ! b = hd (filter ?Q es)"
      "kind (rev es ! b) = k" "eid (rev es ! b) = eid (rev es ! a)"
    using id unfolding set_filter by (metis (mono_tags, lifting) in_set_conv_nth length_rev mem_Collect_eq set_rev)
  then have "event_of h0 b = event_of h0 a"
    using start_event(4,5)[OF s] a k by (simp add: event_of_def op_of_def) metis
  then have "b = a" using event_inj[OF s b(1) a] by simp
  then show ?thesis using b(2) start_event(6)[OF s a] by (simp add: op_value_def)
qed

lemma to_uint_op:
  assumes "start_heap n es h0" "a < length es"
  shows "to_uint (nid (h0 ! a)) = op_of h0 a"
proof -
  have "n < 2 ^ 64" using assms by (simp add: start_heap_def wf_entries_def)
  then have "op_of h0 a < 2 ^ 64" using start_event(3)[OF assms] by simp
  then show ?thesis using start_event(2)[OF assms] by (simp add: to_uint_def op_of_def)
qed

lemma search_inv_advance:
  assumes s: "start_heap n es h0" and i: "search_inv m es n h0 st"
    and sp: "live h0 (set (ops h0 (c_calls st))) = xs @ a # ys" and e: "c_entry st = Some a"
    and x: "explored (model_step m es) (hist es) h0 (set (ops h0 (c_calls st))) (c_state st) (xs @ [a])"
  shows "search_inv m es n h0 (st\<lparr>c_entry := fst_or ys None\<rparr>)"
    "(search_measure m es n h0 (st\<lparr>c_entry := fst_or ys None\<rparr>), search_measure m es n h0 st) \<in> search_less"
proof -
  have "live h0 (set (ops h0 (c_calls st))) = (xs @ [a]) @ ys" using sp by simp
  from at_entryI[OF this x] search_invD[OF i]
  show "search_inv m es n h0 (st\<lparr>c_entry := fst_or ys None\<rparr>)"
    by (simp add: search_inv_def Let_def)
  have d: "distinct (xs @ a # ys)" using live_props(1)[of h0] sp by metis
  have "dropWhile (\<lambda>b. Some b \<noteq> Some a) (xs @ a # ys) = a # ys"
    using dropWhile_rest[of xs "a # ys"] d by simp
  moreover have "dropWhile (\<lambda>b. Some b \<noteq> fst_or ys None) (xs @ a # ys) = ys"
    using dropWhile_rest[of "xs @ [a]" ys] d by simp
  ultimately show "(search_measure m es n h0 (st\<lparr>c_entry := fst_or ys None\<rparr>), search_measure m es n h0 st) \<in> search_less"
    using sp e by (simp add: search_measure_def search_less_def)
qed

lemma search_inv_read:
  assumes s: "start_heap n es h0" and i: "search_inv m es n h0 st"
    and sp: "live h0 (set (ops h0 (c_calls st))) = xs @ a # ys"
  shows "a < length es" "a < length (c_heap st)" "same_content h0 (c_heap st)"
    "nnext (c_heap st ! a) = fst_or ys None" "nid (c_heap st ! a) = nid (h0 ! a)"
    "nmatch (c_heap st ! a) = nmatch (h0 ! a)" "nvalue (c_heap st ! a) = nvalue (h0 ! a)"
proof -
  show a: "a < length es" using live_bound[OF s, of a "set (ops h0 (c_calls st))"] sp by simp
  then have h: "a < length h0" using s by (simp add: start_heap_def)
  have l: "linked (length es) h0 (c_heap st) (set (ops h0 (c_calls st)))"
    by (rule frames_linked[OF search_invD(1)[OF i] s])
  then show sc: "same_content h0 (c_heap st)" by (simp add: linked_def)
  from h show "a < length (c_heap st)" "nid (c_heap st ! a) = nid (h0 ! a)"
    "nmatch (c_heap st ! a) = nmatch (h0 ! a)" "nvalue (c_heap st ! a) = nvalue (h0 ! a)"
    by (simp_all add: same_contentD[OF sc])
  have "dseg (c_heap st) None ((length es # xs) @ a # ys) None" using l sp by (simp add: linked_def)
  then show "nnext (c_heap st ! a) = fst_or ys None" unfolding dseg_append by simp
qed

text \<open>A configuration found in the cache leads nowhere: it cannot lie on the current path.\<close>

lemma cache_hit_dead:
  assumes eq: "Equal m = Some eq" "\<forall>s t i out. eq s t \<longrightarrow> rel_option (\<lambda>(b, s') (c, t'). b = c \<and> (b \<longrightarrow> eq s' t'))
        (Step m s i out) (Step m t i out)"
    and ok: "cache_ok (model_step m es) H s0 n p cache" "distinct p"
    and b: "bitset_fits n b" "bits_of b = insert i (set p)" "i \<notin> set p"
    and hit: "cacheContains m cache (b, t) = Some True"
  shows "\<not> completable (model_step m es) H (insert i (set p)) t"
proof -
  obtain c u where c: "(c, u) \<in> set (cache (bitset_hash b))" "bitset_equals b c" "eq t u"
    using hit by (auto simp: cacheContains_def cache_scan_iff[OF eq(1)])
  then have [simp]: "c = b" by (simp add: bitset_equals_iff)
  have "\<not> on_path (model_step m es) s0 p (bits_of b, u)"
  proof
    assume "on_path (model_step m es) s0 p (bits_of b, u)"
    then have "card (bits_of b) \<le> length p" using on_path_card[OF ok(2)] by fastforce
    then show False using b ok(2) by (simp add: distinct_card)
  qed
  then have "\<not> completable (model_step m es) H (bits_of b) u"
    using c(1) ok(1) unfolding cache_ok_def by auto
  then show ?thesis
    using completable_equal[of eq "model_step m es" H _ t u] model_step_equal[OF eq(2)] c(3) b(2) by metis
qed

lemma cache_miss_new:
  assumes "Equal m = Some eq" "\<forall>s. eq s s" "cache_ok f H s0 n p cache" "bitset_fits n b"
    and miss: "cacheContains m cache (b, t) = Some False"
  shows "(bits_of b, t) \<notin> cached cache"
proof
  assume "(bits_of b, t) \<in> cached cache"
  then obtain c v where c: "(c, t) \<in> set (cache v)" "bits_of c = bits_of b"
    unfolding cached_def by auto
  with assms(3) have "bitset_fits n c" "bitset_hash c = v" by (auto simp: cache_ok_def)
  then have "bitset_equals b c" "v = bitset_hash b"
    using bset.eq_iff[OF assms(4)] bset.hash_elems[OF assms(4)] c(2) by metis+
  with c(1) assms(2) miss show False
    by (auto simp: cacheContains_def cache_scan_iff[OF assms(1)])
qed

lemma cache_ok_push:
  assumes ok: "cache_ok f H s0 n p cache" and b: "bitset_fits n b" "bits_of b = set (p @ [i])"
    and p: "distinct (p @ [i])" "set (p @ [i]) \<subseteq> {..<n}" "run f s0 (p @ [i]) = Some t"
  shows "cache_ok f H s0 n (p @ [i]) (cache(bitset_hash b := cache (bitset_hash b) @ [(b, t)]))"
proof -
  have "on_path f s0 (p @ [i]) (bits_of b, t)"
    unfolding on_path_def by (rule exI[of _ "length (p @ [i])"]) (simp add: b(2) p(3) del: take_append)
  moreover have "(bits_of b, t) \<in> configs f s0 n"
    unfolding configs_def b(2) using p by blast
  ultimately show ?thesis
    using ok b(1) unfolding cache_ok_def by (auto intro: on_path_snoc)
qed

lemma search_inv_push:
  assumes s: "start_heap n es h0" and i: "search_inv m es n h0 st"
    and sp: "live h0 (set (ops h0 (c_calls st))) = xs @ a # ys" and e: "c_entry st = Some a"
    and x: "explored (model_step m es) (hist es) h0 (set (ops h0 (c_calls st))) (c_state st) xs"
    and m: "nmatch (h0 ! a) = Some c" and t: "model_step m es (c_state st) (op_of h0 a) = Some t"
    and b: "bitset_set (c_linearized st) (op_of h0 a) = Some b"
    and new: "(bits_of b, t) \<notin> cached (c_cache st)"
  defines "st' \<equiv> \<lambda>h. st\<lparr>c_heap := h, c_entry := nnext (h ! length es), c_linearized := b,
      c_cache := (c_cache st)(bitset_hash b := c_cache st (bitset_hash b) @ [(b, t)]),
      c_calls := c_calls st @ [(Some a, c_state st)], c_state := t\<rparr>"
  shows "\<exists>h. lift (c_heap st) (Some a) = Some h \<and> length es < length h \<and>
    search_inv m es n h0 (st' h) \<and> (search_measure m es n h0 (st' h), search_measure m es n h0 st) \<in> search_less"
proof -
  let ?f = "model_step m es" and ?p = "ops h0 (c_calls st)" and ?i = "op_of h0 a"
  let ?L = "insert ?i (set ?p)"
  have fr: "frames ?f (hist es) h0 (Init m) (c_heap st) (c_calls st) (c_state st)"
    and fits: "bitset_fits n (c_linearized st)" "bits_of (c_linearized st) = set ?p"
    and ck: "cache_ok ?f (hist es) (Init m) n ?p (c_cache st)"
    using search_invD[OF i] by blast+
  obtain h where h: "lift (c_heap st) (Some a) = Some h" "linked (length es) h0 h ?L"
    using linked_lift[OF s frames_linked[OF fr s] sp m] by blast
  have fr': "frames ?f (hist es) h0 (Init m) h (c_calls st @ [(Some a, c_state st)]) t"
    using frames_push[OF fr sp x m t h(1)] .
  note path = frames_path[OF fr' s]
  have ai: "?i < n" using start_event(3)[OF s search_inv_read(1)[OF s i sp]] .
  have bb: "bitset_fits n b" "bits_of b = set (?p @ [?i])"
    using bset.ins_ok[OF fits(1) ai] b fits(2) by auto
  have hd: "length es < length h" "nnext (h ! length es) = fst_or (live h0 ?L) None"
    using h(2) by (auto simp: linked_def)
  have ck': "cache_ok ?f (hist es) (Init m) n (?p @ [?i]) (c_cache (st' h))"
    using cache_ok_push[OF ck bb] path unfolding st'_def by simp
  have ops': "ops h0 (c_calls (st' h)) = ?p @ [?i]" by (simp add: st'_def)
  have inv: "search_inv m es n h0 (st' h)"
    using search_invD(5,6)[OF i] fr' bb hd(2) ck' at_entryI[of h0 ?L "[]" "live h0 ?L" ?f "hist es" t]
    unfolding search_inv_def Let_def ops' by (simp add: st'_def)
  have "(bits_of b, t) \<in> configs ?f (Init m) n"
    unfolding configs_def bb(2) using path unfolding ops_snoc by blast
  then have "card (configs ?f (Init m) n - cached (c_cache (st' h))) < card (configs ?f (Init m) n - cached (c_cache st))"
    using new finite_configs[of ?f "Init m" n]
    by (intro psubset_card_mono) (auto simp: st'_def cached_update)
  then have "(search_measure m es n h0 (st' h), search_measure m es n h0 st) \<in> search_less"
    by (simp add: search_measure_def search_less_def)
  with h(1) hd(1) inv show ?thesis by blast
qed

lemma cache_ok_pop:
  assumes ok: "cache_ok f H s0 n (p @ [i]) cache" and r: "run f s0 (p @ [i]) = Some t"
    and dead: "\<not> completable f H (set (p @ [i])) t"
  shows "cache_ok f H s0 n p cache"
  unfolding cache_ok_def
proof (intro allI impI)
  fix v b u assume "(b, u) \<in> set (cache v)"
  with ok have *: "bitset_fits n b" "bitset_hash b = v" "(bits_of b, u) \<in> configs f s0 n"
    "on_path f s0 (p @ [i]) (bits_of b, u) \<or> \<not> completable f H (bits_of b) u"
    unfolding cache_ok_def by blast+
  have "on_path f s0 p (bits_of b, u) \<or> \<not> completable f H (bits_of b) u"
    using *(4) on_path_snocD[of f s0 p i "(bits_of b, u)"] r dead by auto
  with * show "bitset_fits n b \<and> bitset_hash b = v \<and> (bits_of b, u) \<in> configs f s0 n \<and>
      (on_path f s0 p (bits_of b, u) \<or> \<not> completable f H (bits_of b) u)" by blast
qed

lemma call_ids_snoc:
  "call_ids h (xs @ [v]) = do { ids \<leftarrow> call_ids h xs; en \<leftarrow> deref h (fst v); Some (ids @ [nid en]) }"
  by (induction xs) (auto split: bind_splits)

lemma call_ids_deref:
  "call_ids h calls = Some ids \<Longrightarrow> v \<in> set calls \<Longrightarrow> \<exists>en. deref h (fst v) = Some en \<and> nid en \<in> set ids"
  by (induction calls arbitrary: ids) (auto simp: bind_Some_iff)

lemma call_ids_ok:
  assumes "frames f H h0 s0 h calls s" "start_heap n es h0" "same_content h0 hp"
  shows "\<exists>ids. call_ids hp calls = Some ids \<and> map nat ids = ops h0 calls \<and> (\<forall>i\<in>set ids. 0 \<le> i \<and> i < int n)"
  using assms
proof (induction)
  case frames_base
  then show ?case by simp
next
  case (frames_push h calls s xs e ys c t h')
  have e: "e < length es" using live_bound[OF frames_push.prems(1), of e "set (ops h0 calls)"] frames_push.hyps(2) by simp
  then have "e < length h0" using frames_push.prems(1) by (simp add: start_heap_def)
  then have "deref hp (Some e) = Some (hp ! e)" "nid (hp ! e) = nid (h0 ! e)"
    using same_contentD[OF frames_push.prems(2)] by (simp_all add: deref_def)
  moreover have "0 \<le> nid (h0 ! e) \<and> nid (h0 ! e) < int n"
    using start_event(2,3)[OF frames_push.prems(1) e] by (simp add: op_of_def)
  ultimately show ?case using frames_push.IH[OF frames_push.prems] by (auto simp: call_ids_snoc op_of_def)
qed

definition pointers_ok :: "nat \<Rightarrow> lin_info \<Rightarrow> bool" where
  "pointers_ok n info \<longleftrightarrow> length (snd info) = n \<and> (\<forall>q. Some q \<in> set (snd info) \<longrightarrow> q < length (fst info))"

lemma pointers_ok_at:
  assumes "pointers_ok n (seqs, longest)" "0 \<le> i" "i < int n"
  shows "\<exists>cur. at longest i = Some cur \<and> (\<forall>q. cur = Some q \<longrightarrow> q < length seqs)"
proof -
  have "longest ! nat i \<in> set longest" using assms by (intro nth_mem) (simp add: pointers_ok_def)
  then have "\<forall>q. longest ! nat i = Some q \<longrightarrow> q < length seqs"
    using assms(1) unfolding pointers_ok_def by (metis fst_conv snd_conv)
  moreover have "i < int (length longest)" using assms by (simp add: pointers_ok_def)
  ultimately show ?thesis using assms(2) by (simp add: at_def)
qed

lemma pointers_ok_alloc: "pointers_ok n (seqs, longest) \<Longrightarrow> pointers_ok n (seqs @ [ids], longest)"
  by (auto simp: pointers_ok_def less_Suc_eq)

lemma pointers_ok_upd:
  assumes "pointers_ok n (seqs, longest)" "0 \<le> i" "i < int n" "q < length seqs"
  shows "\<exists>l. upd_at longest i (Some q) = Some l \<and> pointers_ok n (seqs, l)"
  using assms by (auto simp: upd_at_def pointers_ok_def dest!: set_update_subset_insert[THEN subsetD])

lemma longest_loop_ok:
  assumes ids: "call_ids h calls = Some ids" "\<forall>i\<in>set ids. 0 \<le> i \<and> i < int n"
  shows "set vs \<subseteq> set calls \<Longrightarrow> pointers_ok n info \<Longrightarrow> (\<forall>q. seq = Some q \<longrightarrow> q < length (fst info)) \<Longrightarrow>
    \<exists>info'. longest_loop h calls vs seq info = Some info' \<and> pointers_ok n info'"
proof (induction vs arbitrary: seq info)
  case Nil
  then show ?case by simp
next
  case (Cons v vs)
  obtain seqs longest where info: "info = (seqs, longest)" by (cases info)
  obtain en where en: "deref h (fst v) = Some en" "0 \<le> nid en" "nid en < int n"
    using call_ids_deref[OF ids(1), of v] ids(2) Cons.prems(1) by auto
  obtain cur where cur: "at longest (nid en) = Some cur" "\<forall>q. cur = Some q \<longrightarrow> q < length seqs"
    using pointers_ok_at[of n seqs longest] Cons.prems(2) en info by blast
  have keep: "\<exists>info'. longest_loop h calls vs seq (seqs, longest) = Some info' \<and> pointers_ok n info'"
    using Cons.prems info by (intro Cons.IH) auto
  define alloc where "alloc = (case seq of Some q \<Rightarrow> (q, seqs) | None \<Rightarrow> (length seqs, seqs @ [ids]))"
  have a: "pointers_ok n (snd alloc, longest)" "fst alloc < length (snd alloc)"
    using Cons.prems info by (auto simp: alloc_def pointers_ok_alloc split: option.splits)
  obtain l where l: "upd_at longest (nid en) (Some (fst alloc)) = Some l" "pointers_ok n (snd alloc, l)"
    using pointers_ok_upd[OF a(1) en(2,3) a(2)] by blast
  have take: "\<exists>info'. longest_loop h calls vs (Some (fst alloc)) (snd alloc, l) = Some info' \<and> pointers_ok n info'"
    using Cons.prems(1) l(2) a(2) by (intro Cons.IH) auto
  show ?case
    using keep take en cur l(1) ids(1) unfolding info
    by (cases cur; cases seq) (auto simp: alloc_def at_def)
qed

lemma search_inv_pop:
  assumes s: "start_heap n es h0" and i: "search_inv m es n h0 st" and ne: "c_calls st \<noteq> []"
    and dead: "\<not> completable (model_step m es) (hist es) (set (ops h0 (c_calls st))) (c_state st)"
  shows "\<exists>st'. check_return cp st = Some (Inr st') \<and> search_inv m es n h0 st' \<and>
    (search_measure m es n h0 st', search_measure m es n h0 st) \<in> search_less"
proof -
  let ?f = "model_step m es" and ?H = "hist es"
  obtain calls p s1 where calls: "c_calls st = calls @ [(p, s1)]"
    using ne by (metis append_butlast_last_id surj_pair)
  note fr = search_invD(1)[OF i]
  obtain h e xs ys c where h: "p = Some e" "frames ?f ?H h0 (Init m) h calls s1"
      "unlift (c_heap st) (Some e) = Some h" "live h0 (set (ops h0 calls)) = xs @ e # ys"
      "explored ?f ?H h0 (set (ops h0 calls)) s1 xs" "nmatch (h0 ! e) = Some c"
      "?f s1 (op_of h0 e) = Some (c_state st)"
    using frames_unlift[OF _ s] fr calls by metis
  let ?p = "ops h0 calls" and ?i = "op_of h0 e"
  have ops: "ops h0 (c_calls st) = ?p @ [?i]" using calls h(1) by simp
  have path: "distinct (?p @ [?i])" "set (?p @ [?i]) \<subseteq> {..<n}" "run ?f (Init m) (?p @ [?i]) = Some (c_state st)"
    using frames_path[OF fr s] unfolding ops by blast+
  have sc: "same_content h0 (c_heap st)" "same_content h0 h" "dseg h None (length es # live h0 (set ?p)) None"
    using frames_linked[OF fr s] frames_linked[OF h(2) s] by (simp_all add: linked_def)
  have e: "e < length es" using live_bound[OF s, of e "set ?p"] h(4) by simp
  then have e': "e < length h0" using s by (simp add: start_heap_def)
  have nx: "nnext (h ! e) = fst_or ys None"
    using sc(3) unfolding h(4) append_Cons[symmetric] dseg_append by simp
  obtain ids where ids: "call_ids (c_heap st) (c_calls st) = Some ids" "\<forall>i\<in>set ids. 0 \<le> i \<and> i < int n"
    using call_ids_ok[OF fr s sc(1)] by blast
  have "pointers_ok n (c_seqs st, c_longest st)" using search_invD(5,6)[OF i] by (simp add: pointers_ok_def)
  then obtain seqs longest where lg: "(if cp then longest_loop (c_heap st) (c_calls st) (c_calls st) None
      (c_seqs st, c_longest st) else Some (c_seqs st, c_longest st)) = Some (seqs, longest)"
      "pointers_ok n (seqs, longest)"
    using longest_loop_ok[OF ids, of "c_calls st" _ None] by (cases cp) fastforce+
  have in_n: "?i < n" using path(2) by simp
  obtain b where b: "bitset_clear (c_linearized st) ?i = Some b" "bitset_fits n b"
      "bits_of b = bits_of (c_linearized st) - {?i}"
    using bset.del_ok[OF search_invD(2)[OF i] in_n] by blast
  have bb: "bits_of b = set ?p" using b(3) search_invD(3)[OF i] path(1) unfolding ops by auto
  define st' where "st' = st\<lparr>c_heap := h, c_entry := nnext (h ! e), c_linearized := b,
      c_calls := calls, c_state := s1, c_seqs := seqs, c_longest := longest\<rparr>"
  have ret: "check_return cp st = Some (Inr st')"
    using lg(1) calls h(1,3) b(1) e' sc(1,2) to_uint_op[OF s e]
    by (simp add: check_return_def st'_def deref_def same_contentD)
  have "\<not> completable ?f ?H (insert ?i (set ?p)) (c_state st)" using dead unfolding ops by simp
  then have x: "explored ?f ?H h0 (set ?p) s1 (xs @ [e])"
    using h(5,6,7) by (auto simp: explored_def)
  have "cache_ok ?f ?H (Init m) n ?p (c_cache st)"
    using cache_ok_pop[of ?f ?H "Init m" n ?p ?i] search_invD(4)[OF i] path(3) dead unfolding ops by blast
  moreover have "at_entry ?f ?H h0 (set ?p) s1 (nnext (h ! e))"
    unfolding nx by (rule at_entryI[OF _ x]) (simp add: h(4))
  ultimately have inv: "search_inv m es n h0 st'"
    using h(2) b(2) bb lg(2) by (simp add: search_inv_def Let_def st'_def pointers_ok_def)
  have "(search_measure m es n h0 st', search_measure m es n h0 st) \<in> search_less"
    by (simp add: search_measure_def search_less_def st'_def calls)
  with ret inv show ?thesis by blast
qed

lemma check_call_ok:
  assumes s: "start_heap n es h0" and i: "search_inv m es n h0 st" and se: "sound_equal m" and sd: "steps_defined m es n"
    and sp: "live h0 (set (ops h0 (c_calls st))) = xs @ a # ys" and e: "c_entry st = Some a"
    and x: "explored (model_step m es) (hist es) h0 (set (ops h0 (c_calls st))) (c_state st) xs"
    and m: "nmatch (h0 ! a) = Some c"
  shows "\<exists>st'. check_call m (length es) st (c_heap st ! a) = Some st' \<and> search_inv m es n h0 st' \<and>
    (search_measure m es n h0 st', search_measure m es n h0 st) \<in> search_less"
proof -
  let ?f = "model_step m es" and ?i = "op_of h0 a" and ?p = "ops h0 (c_calls st)"
  note rd = search_inv_read[OF s i sp]
  obtain eq where eq: "Equal m = Some eq" "\<forall>s. eq s s" "\<forall>s t i out. eq s t \<longrightarrow>
      rel_option (\<lambda>(b, s') (c, t'). b = c \<and> (b \<longrightarrow> eq s' t')) (Step m s i out) (Step m t i out)"
    using se unfolding sound_equal_def by blast
  have lk: "kind (rev es ! a) = callEntry" "c < a" "kind (rev es ! c) = returnEntry" "eid (rev es ! c) = eid (rev es ! a)"
    using links_match[of "rev es" "h0 ! a" a c] s rd(1) m by (auto simp: start_heap_def)
  have c: "c < length es" using lk(2) rd(1) by simp
  have opc: "op_of h0 c = ?i" using lk(4) start_event(5)[OF s] c rd(1) by (simp add: op_of_def)
  have cd: "deref (c_heap st) (Some c) = Some (c_heap st ! c)" "nvalue (c_heap st ! c) = nvalue (h0 ! c)"
    using same_contentD[OF rd(3)] c s by (simp_all add: deref_def start_heap_def)
  have v: "nvalue (c_heap st ! a) = Some (op_value callEntry es ?i)"
      "nvalue (c_heap st ! c) = Some (op_value returnEntry es ?i)"
    using op_value_at[OF s rd(1) lk(1)] op_value_at[OF s c lk(3)] rd(7) cd(2) opc by simp_all
  have ai: "?i < n" using start_event(3)[OF s rd(1)] .
  obtain ok t where step: "Step m (c_state st) (op_value callEntry es ?i) (op_value returnEntry es ?i) = Some (ok, t)"
    using sd ai unfolding steps_defined_def by (metis not_None_eq surj_pair)
  have adv: "\<exists>st'. st\<lparr>c_entry := nnext (c_heap st ! a)\<rparr> = st' \<and> search_inv m es n h0 st' \<and>
      (search_measure m es n h0 st', search_measure m es n h0 st) \<in> search_less"
    if "\<And>t. ?f (c_state st) ?i = Some t \<Longrightarrow> \<not> completable ?f (hist es) (insert ?i (set ?p)) t"
    using search_inv_advance[OF s i sp e] x m that rd(4) by (auto simp: explored_def)
  show ?thesis
  proof (cases ok)
    case False
    with step have "?f (c_state st) ?i = None" by (simp add: model_step_def)
    with adv step False cd(1) v rd(6) m show ?thesis by (simp add: check_call_def)
  next
    case True
    with step have f: "?f (c_state st) ?i = Some t" by (simp add: model_step_def)
    have u: "to_uint (nid (c_heap st ! a)) = ?i" using to_uint_op[OF s rd(1)] rd(5) by simp
    obtain b where b: "bitset_set (c_linearized st) ?i = Some b" "bitset_fits n b" "bits_of b = insert ?i (set ?p)"
      using bset.ins_ok[OF search_invD(2)[OF i] ai] search_invD(3)[OF i] by auto
    have "a \<in> set (live h0 (set ?p))" using sp by simp
    then have path: "distinct ?p" "?i \<notin> set ?p"
      using frames_path[OF search_invD(1)[OF i] s] unfolding start_live(1)[OF s] by simp_all
    obtain found where found: "cacheContains m (c_cache st) (b, t) = Some found"
      by (simp add: cacheContains_def cache_scan_iff[OF eq(1)])
    show ?thesis
    proof (cases found)
      case True
      have "\<not> completable ?f (hist es) (insert ?i (set ?p)) t"
        using cache_hit_dead[OF eq(1,3) search_invD(4)[OF i] path(1) b(2,3) path(2)] found True by simp
      with adv f step \<open>ok\<close> cd(1) v rd(6) m u b(1) found True show ?thesis by (simp add: check_call_def)
    next
      case False
      have "(bits_of b, t) \<notin> cached (c_cache st)"
        using cache_miss_new[OF eq(1,2) search_invD(4)[OF i] b(2)] found False by simp
      from search_inv_push[OF s i sp e x m f b(1) this]
      show ?thesis using step \<open>ok\<close> cd(1) v rd(6) m u b(1) found False e
        by (auto simp: check_call_def deref_def Let_def)
    qed
  qed
qed

section \<open>The loop and the whole search\<close>

lemma at_entry_live:
  assumes s: "start_heap n es h0" and e: "at_entry f H h0 L st p" and ne: "live h0 L \<noteq> []"
  obtains xs a ys where "live h0 L = xs @ a # ys" "explored f H h0 L st xs" "p = Some a"
proof -
  obtain xs rest where xs: "live h0 L = xs @ rest" "explored f H h0 L st xs" "p = fst_or rest None"
    using e unfolding at_entry_def by blast
  have "rest \<noteq> []"
  proof
    assume "rest = []"
    with xs ne obtain zs a where z: "live h0 L = zs @ [a]" "a \<in> set xs"
      by (metis append_Nil2 append_butlast_last_id last_in_set)
    then obtain c where "nmatch (h0 ! a) = Some c" using xs(2) unfolding explored_def by blast
    from live_split[OF s _ this, of L zs "[]"] z(1) show False by auto
  qed
  with xs that show thesis by (cases rest) auto
qed

lemma check_body_ok:
  assumes s: "start_heap n es h0" and i: "search_inv m es n h0 st" and se: "sound_equal m" and sd: "steps_defined m es n"
    and ne: "live h0 (set (ops h0 (c_calls st))) \<noteq> []"
  shows "(\<exists>info. check_body m cp (length es) st = Some (Inl (False, info)) \<and>
      \<not> completable (model_step m es) (hist es) {} (Init m)) \<or>
    (\<exists>st'. check_body m cp (length es) st = Some (Inr st') \<and> search_inv m es n h0 st' \<and>
      (search_measure m es n h0 st', search_measure m es n h0 st) \<in> search_less)"
proof -
  obtain xs a ys where sp: "live h0 (set (ops h0 (c_calls st))) = xs @ a # ys"
      "explored (model_step m es) (hist es) h0 (set (ops h0 (c_calls st))) (c_state st) xs" "c_entry st = Some a"
    using at_entry_live[OF s search_invD(7)[OF i] ne] by blast
  note rd = search_inv_read[OF s i sp(1)]
  have d: "deref (c_heap st) (c_entry st) = Some (c_heap st ! a)" using rd(2) sp(3) by (simp add: deref_def)
  show ?thesis
  proof (cases "nmatch (h0 ! a)")
    case (Some c)
    then show ?thesis using check_call_ok[OF s i se sd sp(1,3,2)] d rd(6) by (auto simp: check_body_def)
  next
    case None
    then have dead: "\<not> completable (model_step m es) (hist es) (set (ops h0 (c_calls st))) (c_state st)"
      using explored_stuck[OF s sp(1,2)] by blast
    have body: "check_body m cp (length es) st = check_return cp st"
      using None d rd(6) by (simp add: check_body_def)
    show ?thesis
    proof (cases "c_calls st = []")
      case True
      then have "c_state st = Init m" using search_invD(1)[OF i] by (auto elim: frames.cases)
      with dead True body show ?thesis by (simp add: check_return_def)
    next
      case False
      then show ?thesis using search_inv_pop[OF s i False dead] body by auto
    qed
  qed
qed

lemma wf_search_less: "wf search_less"
  by (auto simp: search_less_def)

lemma check_loop_ok:
  assumes s: "start_heap n es h0" and i: "search_inv m es n h0 st" and se: "sound_equal m" and sd: "steps_defined m es n"
  shows "\<exists>b info. check_loop m cp kill n (length es) k st = Some (b, info) \<and>
    (b \<longrightarrow> completable (model_step m es) (hist es) {} (Init m)) \<and>
    ((\<forall>j. \<not> kill j) \<longrightarrow> b = completable (model_step m es) (hist es) {} (Init m))"
  using i
proof (induction "search_measure m es n h0 st" arbitrary: st k rule: wf_induct_rule[OF wf_search_less])
  case (1 st)
  let ?L = "set (ops h0 (c_calls st))"
  have l: "linked (length es) h0 (c_heap st) ?L" using frames_linked[OF search_invD(1)[OF 1(2)] s] .
  then have hd: "deref (c_heap st) (Some (length es)) = Some (c_heap st ! length es)"
      "nnext (c_heap st ! length es) = fst_or (live h0 ?L) None"
    by (auto simp: linked_def deref_def)
  show ?case
  proof (cases "live h0 ?L = []")
    case True
    obtain ids where ids: "call_ids (c_heap st) (c_calls st) = Some ids"
      using call_ids_ok[OF search_invD(1)[OF 1(2)] s] l unfolding linked_def by blast
    have "remaining (hist es) ?L = []" using start_live(2)[OF s, of ?L] True by simp
    then have "completable (model_step m es) (hist es) ?L (c_state st)" by (rule completable_done)
    then have "completable (model_step m es) (hist es) {} (Init m)"
      using frames_path[OF search_invD(1)[OF 1(2)] s] by simp
    with True hd ids show ?thesis by (subst check_loop.simps) (auto simp: check_finish_def)
  next
    case False
    then have nx: "nnext (c_heap st ! length es) \<noteq> None" using hd(2) by (cases "live h0 ?L") auto
    show ?thesis
    proof (cases "kill k")
      case True
      then show ?thesis using hd(1) nx by (subst check_loop.simps) auto
    next
      case nk: False
      from check_body_ok[OF s 1(2) se sd False, of cp] show ?thesis
      proof (elim disjE exE conjE)
        fix info assume "check_body m cp (length es) st = Some (Inl (False, info))"
          "\<not> completable (model_step m es) (hist es) {} (Init m)"
        with hd(1) nx nk show ?thesis by (subst check_loop.simps) auto
      next
        fix st' assume st': "check_body m cp (length es) st = Some (Inr st')" "search_inv m es n h0 st'"
          "(search_measure m es n h0 st', search_measure m es n h0 st) \<in> search_less"
        from 1(1)[OF st'(3) st'(2), of "k + 1"] st'(1) hd(1) nx nk show ?thesis
          by (subst check_loop.simps) auto
      qed
    qed
  qed
qed

lemma wf_hist_length: assumes "wf_hist n H" shows "length H = 2 * n"
proof -
  have d: "distinct H" and st: "set H = UNIV \<times> {..<n}" using assms by (auto simp: wf_hist_def)
  have "length H = card (set H)" using distinct_card[OF d] by simp
  also have "\<dots> = 2 * n" unfolding st card_cartesian_product by simp
  finally show ?thesis .
qed

lemma checkSingle_start:
  assumes w: "wf_entries n es"
  shows "\<exists>h0 st. start_heap n es h0 \<and> search_inv m es n h0 st \<and> c_seqs st = [] \<and> c_longest st = replicate n None \<and>
    (\<forall>cp kill. checkSingle m es cp kill = check_loop m cp kill n (length es) 0 st)"
proof -
  let ?N = "length es" and ?r = "fst_or (rev [0..<length es]) None"
  obtain h where h: "makeLinkedEntries es = Some (h, ?r)" "length h = ?N" "dseg h None (rev [0..<?N]) None"
      "\<forall>b<?N. links (rev es) (h ! b) b"
    using makeLinkedEntries_ok[OF wf_unique_returns[OF w]] by blast
  define nd :: "'a node" where "nd = \<lparr>nvalue = None, nmatch = None, nid = -1, nnext = None, nprev = None\<rparr>"
  obtain h0 where h0: "insertBefore (h @ [nd]) ?N ?r = Some h0" "same_content (h @ [nd]) h0"
      "dseg h0 None (rev [0..<length h0]) None"
    using insertBefore_fresh[of h nd] h(2,3) by (auto simp: nd_def fresh_node_def)
  have len: "length h0 = Suc ?N" using same_contentD(1)[OF h0(2)] h(2) by simp
  have "links (rev es) (h0 ! b) b" if "b < ?N" for b
    using same_content_links[OF h0(2), of b] h(2,4) that by (simp add: nth_append)
  then have s: "start_heap n es h0"
    using w len h0(3) by (simp add: start_heap_def)
  have "2 * n = ?N" using w wf_hist_length[of n "hist es"] by (simp add: wf_entries_def hist_def)
  then have n: "?N div 2 = n" by simp
  let ?st = "\<lparr>c_heap = h0, c_entry = ?r, c_linearized = newBitset n, c_cache = (\<lambda>_. []), c_calls = [],
        c_state = Init m, c_seqs = [], c_longest = replicate n None\<rparr>"
  have "live h0 {} = rev [0..<?N]" using len by (simp add: live_def)
  then have "at_entry (model_step m es) (hist es) h0 {} (Init m) ?r" by (intro at_entryI[of _ _ "[]"]) simp_all
  then have "search_inv m es n h0 ?st"
    by (simp add: search_inv_def Let_def frames_base cache_ok_def bset.new_fits)
  moreover have "checkSingle m es cp kill = check_loop m cp kill n ?N 0 ?st" for cp kill
    using h(1,2) length_list_dseg[OF h(3)] h0(1) n by (simp add: checkSingle_def nd_def Let_def)
  ultimately show ?thesis using s by (intro exI[of _ h0] exI[of _ ?st]) simp
qed

lemma checkSingle_completable:
  assumes w: "wf_entries n es" and se: "sound_equal m" and sd: "steps_defined m es n"
  shows "\<exists>b info. checkSingle m es cp kill = Some (b, info) \<and>
    (b \<longrightarrow> completable (model_step m es) (hist es) {} (Init m)) \<and>
    ((\<forall>j. \<not> kill j) \<longrightarrow> b = completable (model_step m es) (hist es) {} (Init m))"
proof -
  obtain h0 st where st: "start_heap n es h0" "search_inv m es n h0 st"
      "\<forall>cp kill. checkSingle m es cp kill = check_loop m cp kill n (length es) 0 st"
    using checkSingle_start[OF w, of m] by blast
  show ?thesis using check_loop_ok[OF st(1,2) se sd, of cp kill 0] st(3) by simp
qed

lemma checkSingle_linearizable:
  assumes "wf_entries n es" "sound_equal m" "steps_defined m es n"
  shows "\<exists>b info. checkSingle m es cp kill = Some (b, info) \<and>
    (b \<longrightarrow> linearizable (model_step m es) (Init m) n (hist es)) \<and>
    ((\<forall>j. \<not> kill j) \<longrightarrow> b = linearizable (model_step m es) (Init m) n (hist es))"
proof -
  have "wf_hist n (hist es)" using assms(1) by (simp add: wf_entries_def)
  note eq = completable_iff_linearizable[OF this, of "model_step m es" "Init m"]
  show ?thesis using checkSingle_completable[OF assms, of cp kill] unfolding eq .
qed

text \<open>
  \<^bold>\<open>C10\<close>. checkSingle terminates on every well-formed list of entries and returns true exactly when a
  linearization of the history exists: the search with its cache, its linked list with lift and
  unlift, and its bitset is a decision procedure.
\<close>

theorem checkSingle_decides:
  assumes "wf_entries n es" "sound_equal m" "steps_defined m es n"
  shows "\<exists>info. checkSingle m es cp (\<lambda>_. False) =
    Some (linearizable (model_step m es) (Init m) n (hist es), info)"
  using checkSingle_linearizable[OF assms, of cp "\<lambda>_. False"] by auto

definition reg_model :: "(int, int) model" where
  "reg_model = \<lparr>Partition = None, PartitionEvent = None, Init = 0,
    Step = (\<lambda>s i out. if i = 0 then Some (out = s, s) else Some (True, i)),
    Equal = Some ShallowEqual, DescribeOperation = None, DescribeState = None\<rparr>"

definition reg_entries :: "int entry list" where
  "reg_entries =
   [\<lparr>kind = callEntry, evalue = 7, eid = 0, etime = 0, eclientId = 0\<rparr>,
    \<lparr>kind = callEntry, evalue = 0, eid = 1, etime = 1, eclientId = 1\<rparr>,
    \<lparr>kind = returnEntry, evalue = 7, eid = 1, etime = 2, eclientId = 1\<rparr>,
    \<lparr>kind = returnEntry, evalue = 0, eid = 0, etime = 3, eclientId = 0\<rparr>]"

theorem checkSingle_decides_witness:
  "wf_entries 2 reg_entries \<and> sound_equal reg_model \<and> steps_defined reg_model reg_entries 2 \<and>
   (\<exists>info. checkSingle reg_model reg_entries True (\<lambda>_. False) =
    Some (linearizable (model_step reg_model reg_entries) 0 2 (hist reg_entries), info))"
proof -
  have H: "hist reg_entries = [(False, 0), (False, 1), (True, 1), (True, 0)]"
    by (simp add: hist_def reg_entries_def)
  have "{..<2::nat} = {0, 1}" by auto
  then have "wf_hist 2 (hist reg_entries)"
    unfolding H by (auto simp: wf_hist_def UNIV_bool less_Suc_eq numeral_2_eq_2)
  then have 1: "wf_entries 2 reg_entries"
    by (simp add: wf_entries_def) (simp add: reg_entries_def)
  have 2: "sound_equal reg_model" by (rule sound_ShallowEqual) (simp add: reg_model_def)
  have 3: "steps_defined reg_model reg_entries 2" by (auto simp: steps_defined_def reg_model_def)
  from checkSingle_decides[OF 1 2 3, of True] 1 2 3 show ?thesis by (simp add: reg_model_def)
qed

end
