(* ===== verification/Checker_Parallel.thy ===== *)
theory Checker_Parallel
  imports Checker_Search
begin

text \<open>
  The functions of \<^verbatim>\<open>porcupine/checker.go\<close> and \<^verbatim>\<open>porcupine/porcupine.go\<close> around the search:
  \<^verbatim>\<open>checkParallel\<close> runs \<^verbatim>\<open>checkSingle\<close> on every partition in a goroutine of its own and
  collects the verdicts; \<^verbatim>\<open>checkOperations\<close> and \<^verbatim>\<open>checkEvents\<close> split a history first.

  The interleaving is explicit.  A schedule is the sequence of communications the
  \<^verbatim>\<open>select\<close> of the collecting loop performs: the result of partition \<open>i\<close>, or the timer.
  The loop blocks forever (\<open>None\<close>) when the schedule ends before it breaks.  The kill flag is
  stored only after the loop, so a result received by the loop comes from a run that
  never saw the flag; a result drained after the loop comes from a run that may have
  seen it, at the iterations \<open>kills i\<close>.
\<close>

section \<open>The collecting goroutine\<close>

datatype select = Result nat | Timer

record par_state =
  p_ok :: bool
  p_timedOut :: bool
  p_count :: nat
  p_longest :: "lin_info list"

fun par_loop :: "('v, 's) model \<Rightarrow> 'v entry list list \<Rightarrow> bool \<Rightarrow> int \<Rightarrow> select list \<Rightarrow> par_state
    \<Rightarrow> (par_state \<times> select list) option" where
  "par_loop m history computeInfo timeout [] st = None"
| "par_loop m history computeInfo timeout (Result i # sched) st = do {
     subhistory \<leftarrow> at history (int i);
     (result, l) \<leftarrow> checkSingle m subhistory computeInfo (\<lambda>_. False);
     let st = st\<lparr>p_longest := (p_longest st)[i := l], p_count := p_count st + 1, p_ok := p_ok st \<and> result\<rparr>;
     if \<not> p_ok st \<and> \<not> computeInfo then Some (st, sched)
     else if p_count st \<ge> length history then Some (st, sched)
     else par_loop m history computeInfo timeout sched st }"
| "par_loop m history computeInfo timeout (Timer # sched) st =
    (if timeout > 0 then Some (st\<lparr>p_timedOut := True\<rparr>, sched) else None)"

text \<open>With \<^verbatim>\<open>computeInfo\<close> the results still missing are received after the loop and dropped.\<close>

fun par_drain :: "('v, 's) model \<Rightarrow> 'v entry list list \<Rightarrow> (nat \<Rightarrow> nat \<Rightarrow> bool) \<Rightarrow> select list \<Rightarrow> par_state
    \<Rightarrow> par_state option" where
  "par_drain m history kills sched st =
    (if p_count st < length history then
       (case sched of
          Result i # sched \<Rightarrow> do {
            subhistory \<leftarrow> at history (int i);
            (_, l) \<leftarrow> checkSingle m subhistory True (kills i);
            par_drain m history kills sched
              (st\<lparr>p_longest := (p_longest st)[i := l], p_count := p_count st + 1\<rparr>) }
        | _ \<Rightarrow> None)
     else Some st)"

text \<open>
  The distinct sequences \<^verbatim>\<open>longest\<close> points to; \<open>order\<close> is the order in which Go iterates
  over the map \<^verbatim>\<open>set\<close>.
\<close>

definition partials :: "(nat list \<Rightarrow> nat list) \<Rightarrow> lin_info \<Rightarrow> int list list" where
  "partials order l = map (\<lambda>k. fst l ! k) (order (remdups (map the (filter (\<lambda>v. v \<noteq> None) (snd l)))))"

type_synonym 'v linearizationInfo = "'v entry list list \<times> int list list list"

definition verdict :: "par_state \<Rightarrow> CheckResult" where
  "verdict st = (if \<not> p_ok st then Illegal else if p_timedOut st then Unknown else Ok)"

definition checkParallel :: "(nat \<Rightarrow> nat \<Rightarrow> bool) \<Rightarrow> (nat list \<Rightarrow> nat list) \<Rightarrow> select list
    \<Rightarrow> ('v, 's) model \<Rightarrow> 'v entry list list \<Rightarrow> bool \<Rightarrow> int \<Rightarrow> (CheckResult \<times> 'v linearizationInfo) option" where
  "checkParallel kills order sched m history computeInfo timeout = do {
     (st, sched) \<leftarrow> par_loop m history computeInfo timeout sched
        \<lparr>p_ok = True, p_timedOut = False, p_count = 0, p_longest = replicate (length history) ([], [])\<rparr>;
     if computeInfo then do {
       st \<leftarrow> par_drain m history kills sched st;
       Some (verdict st, history, map (partials order) (p_longest st)) }
     else Some (verdict st, [], []) }"

record 'v env =
  env_sort :: "'v entry list \<Rightarrow> 'v entry list" \<comment> \<open>\<^verbatim>\<open>sort.Sort\<close>\<close>
  env_kills :: "nat \<Rightarrow> nat \<Rightarrow> bool"
  env_order :: "nat list \<Rightarrow> nat list"
  env_sched :: "select list"
  env_show :: "'v \<Rightarrow> string"

definition checkEvents :: "'v env \<Rightarrow> ('s \<Rightarrow> string) \<Rightarrow> ('v, 's) model \<Rightarrow> 'v porc_event list \<Rightarrow> bool \<Rightarrow> int
    \<Rightarrow> (CheckResult \<times> 'v linearizationInfo) option" where
  "checkEvents e showst m history verbose timeout = do {
     let m = fillDefault (env_show e) showst m;
     part \<leftarrow> PartitionEvent m;
     parts \<leftarrow> part history;
     let l = map (\<lambda>subhistory. convertEntries (renumber subhistory)) parts;
     checkParallel (env_kills e) (env_order e) (env_sched e) m l verbose timeout }"

definition checkOperations :: "'v env \<Rightarrow> ('s \<Rightarrow> string) \<Rightarrow> ('v, 's) model \<Rightarrow> 'v operation list \<Rightarrow> bool \<Rightarrow> int
    \<Rightarrow> (CheckResult \<times> 'v linearizationInfo) option" where
  "checkOperations e showst m history verbose timeout = do {
     let m = fillDefault (env_show e) showst m;
     part \<leftarrow> Partition m;
     parts \<leftarrow> part history;
     let l = map (makeEntries (env_sort e)) parts;
     checkParallel (env_kills e) (env_order e) (env_sched e) m l verbose timeout }"

section \<open>\<^verbatim>\<open>porcupine.go\<close>\<close>

definition CheckOperations :: "'v env \<Rightarrow> ('s \<Rightarrow> string) \<Rightarrow> ('v, 's) model \<Rightarrow> 'v operation list \<Rightarrow> bool option" where
  "CheckOperations e showst m history = do {
     (res, _) \<leftarrow> checkOperations e showst m history False 0; Some (res = Ok) }"

definition CheckOperationsTimeout :: "'v env \<Rightarrow> ('s \<Rightarrow> string) \<Rightarrow> ('v, 's) model \<Rightarrow> 'v operation list \<Rightarrow> int
    \<Rightarrow> CheckResult option" where
  "CheckOperationsTimeout e showst m history timeout = do {
     (res, _) \<leftarrow> checkOperations e showst m history False timeout; Some res }"

definition CheckOperationsVerbose :: "'v env \<Rightarrow> ('s \<Rightarrow> string) \<Rightarrow> ('v, 's) model \<Rightarrow> 'v operation list \<Rightarrow> int
    \<Rightarrow> (CheckResult \<times> 'v linearizationInfo) option" where
  "CheckOperationsVerbose e showst m history timeout = checkOperations e showst m history True timeout"

definition CheckEvents :: "'v env \<Rightarrow> ('s \<Rightarrow> string) \<Rightarrow> ('v, 's) model \<Rightarrow> 'v porc_event list \<Rightarrow> bool option" where
  "CheckEvents e showst m history = do {
     (res, _) \<leftarrow> checkEvents e showst m history False 0; Some (res = Ok) }"

definition CheckEventsTimeout :: "'v env \<Rightarrow> ('s \<Rightarrow> string) \<Rightarrow> ('v, 's) model \<Rightarrow> 'v porc_event list \<Rightarrow> int
    \<Rightarrow> CheckResult option" where
  "CheckEventsTimeout e showst m history timeout = do {
     (res, _) \<leftarrow> checkEvents e showst m history False timeout; Some res }"

definition CheckEventsVerbose :: "'v env \<Rightarrow> ('s \<Rightarrow> string) \<Rightarrow> ('v, 's) model \<Rightarrow> 'v porc_event list \<Rightarrow> int
    \<Rightarrow> (CheckResult \<times> 'v linearizationInfo) option" where
  "CheckEventsVerbose e showst m history timeout = checkEvents e showst m history True timeout"

declare par_drain.simps [simp del]

section \<open>Verdicts\<close>

definition good_entries :: "('v, 's) model \<Rightarrow> 'v entry list \<Rightarrow> bool" where
  "good_entries m es \<longleftrightarrow> wf_entries (length es div 2) es \<and> steps_defined m es (length es div 2)"

definition lin_entries :: "('v, 's) model \<Rightarrow> 'v entry list \<Rightarrow> bool" where
  "lin_entries m es \<longleftrightarrow> linearizable (model_step m es) (Init m) (length es div 2) (hist es)"

fun arrivals :: "select list \<Rightarrow> nat list" where
  "arrivals [] = []"
| "arrivals (Result i # sched) = i # arrivals sched"
| "arrivals (Timer # sched) = arrivals sched"

text \<open>
  A schedule of \<open>n\<close> partitions: every goroutine delivers its result exactly once, and the
  timer fires at most once, and only when a timeout was given.
\<close>

definition schedule :: "nat \<Rightarrow> int \<Rightarrow> select list \<Rightarrow> bool" where
  "schedule n timeout sched \<longleftrightarrow> distinct (arrivals sched) \<and> set (arrivals sched) = {..<n} \<and>
     count_list sched Timer \<le> 1 \<and> (Timer \<in> set sched \<longrightarrow> timeout > 0)"

lemma checkSingle_good:
  assumes "good_entries m es" "sound_equal m"
  shows "\<exists>b info. checkSingle m es cp kill = Some (b, info) \<and> ((\<forall>j. \<not> kill j) \<longrightarrow> b = lin_entries m es)"
proof -
  have "wf_entries (length es div 2) es" "steps_defined m es (length es div 2)"
    using assms(1) by (simp_all add: good_entries_def)
  from checkSingle_linearizable[OF this(1) assms(2) this(2), of cp kill]
  obtain b info where "checkSingle m es cp kill = Some (b, info)" "(\<forall>j. \<not> kill j) \<longrightarrow> b = lin_entries m es"
    unfolding lin_entries_def[symmetric] by (elim exE conjE) (rule that)
  then show ?thesis by (intro exI[of _ b] exI[of _ info] conjI)
qed

definition received :: "('v, 's) model \<Rightarrow> 'v entry list list \<Rightarrow> par_state \<Rightarrow> nat set \<Rightarrow> bool" where
  "received m history st R \<longleftrightarrow> R \<subseteq> {..<length history} \<and> p_count st = card R \<and>
     p_ok st = (\<forall>i\<in>R. lin_entries m (history ! i))"

lemma receivedD:
  assumes "received m history st R"
  shows "R \<subseteq> {..<length history}" "finite R" "p_count st = card R"
    "p_ok st = (\<forall>i\<in>R. lin_entries m (history ! i))" "length history \<le> p_count st \<Longrightarrow> R = {..<length history}"
proof -
  show R: "R \<subseteq> {..<length history}" "p_count st = card R"
      "p_ok st = (\<forall>i\<in>R. lin_entries m (history ! i))"
    using assms by (auto simp: received_def)
  then show "finite R" using finite_subset by blast
  show "R = {..<length history}" if "length history \<le> p_count st"
    using card_seteq[of "{..<length history}" R] R that by simp
qed

lemma received_insert:
  assumes "received m history st R" "i < length history" "i \<notin> R"
  shows "received m history
    (st\<lparr>p_longest := l, p_count := p_count st + 1, p_ok := p_ok st \<and> lin_entries m (history ! i)\<rparr>) (insert i R)"
  using assms(2,3) receivedD(1-4)[OF assms(1)] by (auto simp: received_def)

definition pending :: "'v entry list list \<Rightarrow> select list \<Rightarrow> nat set \<Rightarrow> bool" where
  "pending history sched R \<longleftrightarrow> distinct (arrivals sched) \<and> set (arrivals sched) = {..<length history} - R \<and>
     count_list sched Timer \<le> 1"

lemma pending_Result:
  assumes "pending history (Result i # sched) R"
  shows "i < length history" "i \<notin> R" "pending history sched (insert i R)"
  using assms by (auto simp: pending_def)

text \<open>
  \<open>Q i l\<close> is a property of the partial linearizations \<open>l\<close> with which the search accepts partition \<open>i\<close>;
  as long as no partition was rejected, it holds of what the loop has stored for the partitions received.
\<close>

definition noted :: "(nat \<Rightarrow> lin_info \<Rightarrow> bool) \<Rightarrow> 'v entry list list \<Rightarrow> par_state \<Rightarrow> nat set \<Rightarrow> bool" where
  "noted Q history st R \<longleftrightarrow> length (p_longest st) = length history \<and> (p_ok st \<longrightarrow> (\<forall>i\<in>R. Q i (p_longest st ! i)))"

lemma noted_insert:
  assumes "noted Q history st R" "i < length history" "b \<Longrightarrow> Q i l"
  shows "noted Q history (st\<lparr>p_longest := (p_longest st)[i := l], p_count := c, p_ok := p_ok st \<and> b\<rparr>) (insert i R)"
  using assms by (auto simp: noted_def nth_list_update)

text \<open>
  The loop timed out: the timer fired when only the results before it had arrived, and after the
  first of them the loop only goes on as long as some result is missing.
\<close>

definition cut_off :: "nat \<Rightarrow> select list \<Rightarrow> select list \<Rightarrow> nat set \<Rightarrow> nat set \<Rightarrow> bool" where
  "cut_off n sched rest R R' \<longleftrightarrow> (\<exists>pre. sched = pre @ Timer # rest \<and> R' = R \<union> set (arrivals pre) \<and> (arrivals pre = [] \<or> card R' < n))"

lemma cut_off_Result:
  assumes "cut_off n sched rest (insert i R) R'" "card (insert i R) < n"
  shows "cut_off n (Result i # sched) rest R R'"
proof -
  from assms(1) obtain pre where "sched = pre @ Timer # rest" "R' = insert i R \<union> set (arrivals pre)" "arrivals pre = [] \<or> card R' < n"
    by (auto simp: cut_off_def)
  with assms(2) show ?thesis unfolding cut_off_def by (intro exI[of _ "Result i # pre"]) auto
qed

lemma par_loop_ok:
  assumes g: "\<forall>es\<in>set history. good_entries m es" and se: "sound_equal m"
    and q: "\<And>i l. i < length history \<Longrightarrow> checkSingle m (history ! i) ci (\<lambda>_. False) = Some (True, l) \<Longrightarrow> Q i l"
    and r: "received m history st R" "pending history sched R" "noted Q history st R"
    and tm: "Timer \<in> set sched \<longrightarrow> timeout > 0" "\<not> p_timedOut st"
    and ne: "length history \<le> card R \<longrightarrow> Timer \<in> set sched"
  shows "\<exists>st' rest R'. par_loop m history ci timeout sched st = Some (st', rest) \<and>
    received m history st' R' \<and> pending history rest R' \<and> noted Q history st' R' \<and>
    (p_timedOut st' \<longrightarrow> cut_off (length history) sched rest R R' \<and> Timer \<notin> set rest) \<and>
    (\<not> p_timedOut st' \<longrightarrow> R' = {..<length history} \<or> (\<not> p_ok st' \<and> \<not> ci))"
  using r tm ne
proof (induction sched arbitrary: st R)
  case Nil
  then have "R = {..<length history}" by (auto simp: pending_def received_def)
  with Nil.prems(6) show ?case by simp
next
  case (Cons x sched)
  show ?case
  proof (cases x)
    case (Result i)
    note p = pending_Result[OF Cons.prems(2)[unfolded Result]]
    have i: "history ! i \<in> set history" "at history (int i) = Some (history ! i)"
      using p(1) by (simp_all add: at_def)
    then obtain l where c: "checkSingle m (history ! i) ci (\<lambda>_. False) = Some (lin_entries m (history ! i), l)"
      using checkSingle_good[of m "history ! i" ci "\<lambda>_. False"] g se by auto
    define st1 where "st1 = st\<lparr>p_longest := (p_longest st)[i := l], p_count := p_count st + 1,
        p_ok := p_ok st \<and> lin_entries m (history ! i)\<rparr>"
    have r1: "received m history st1 (insert i R)" unfolding st1_def by (rule received_insert[OF Cons.prems(1) p(1,2)])
    have n1: "noted Q history st1 (insert i R)" unfolding st1_def
      using q[OF p(1), of l] c by (intro noted_insert[OF Cons.prems(3) p(1)]) simp
    have nt: "\<not> p_timedOut st1" using Cons.prems(5) by (simp add: st1_def)
    have step: "par_loop m history ci timeout (x # sched) st =
       (if \<not> p_ok st1 \<and> \<not> ci then Some (st1, sched) else if p_count st1 \<ge> length history then Some (st1, sched)
        else par_loop m history ci timeout sched st1)"
      using Result i c by (simp add: st1_def)
    show ?thesis
    proof (cases "(\<not> p_ok st1 \<and> \<not> ci) \<or> p_count st1 \<ge> length history")
      case True
      then have "insert i R = {..<length history} \<or> (\<not> p_ok st1 \<and> \<not> ci)" using receivedD(5)[OF r1] by blast
      with True step r1 n1 p(3) nt show ?thesis
        by (intro exI[of _ st1] exI[of _ sched] exI[of _ "insert i R"]) auto
    next
      case False
      then have lt: "card (insert i R) < length history" using receivedD(3)[OF r1] by simp
      then obtain st' rest R' where l: "par_loop m history ci timeout sched st1 = Some (st', rest)"
        "received m history st' R' \<and> pending history rest R' \<and> noted Q history st' R'"
        "p_timedOut st' \<longrightarrow> cut_off (length history) sched rest (insert i R) R' \<and> Timer \<notin> set rest"
        "\<not> p_timedOut st' \<longrightarrow> R' = {..<length history} \<or> (\<not> p_ok st' \<and> \<not> ci)"
        using Cons.IH[OF r1 p(3) n1 _ nt] Cons.prems(4) by auto
      then have "p_timedOut st' \<longrightarrow> cut_off (length history) (x # sched) rest R R' \<and> Timer \<notin> set rest"
        using cut_off_Result[OF _ lt] Result by blast
      moreover have "par_loop m history ci timeout (x # sched) st = Some (st', rest)" using l(1) False step by auto
      ultimately show ?thesis using l(2,4) by (intro exI[of _ st'] exI[of _ rest] exI[of _ R']) simp
    qed
  next
    case Timer
    then have "par_loop m history ci timeout (x # sched) st = Some (st\<lparr>p_timedOut := True\<rparr>, sched)"
      using Cons.prems(4) by simp
    moreover have "pending history sched R" "Timer \<notin> set sched"
      using Cons.prems(2) Timer by (auto simp: pending_def count_list_0_iff)
    moreover have "cut_off (length history) (x # sched) sched R R"
      unfolding cut_off_def Timer by (intro exI[of _ "[]"]) simp
    ultimately show ?thesis using Cons.prems(1,3)
      by (intro exI[of _ "st\<lparr>p_timedOut := True\<rparr>"] exI[of _ sched] exI[of _ R]) (simp add: received_def noted_def)
  qed
qed

lemma verdict_update [simp]: "verdict (st\<lparr>p_longest := l, p_count := c\<rparr>) = verdict st"
  by (simp add: verdict_def)

lemma par_drain_ok:
  assumes g: "\<forall>es\<in>set history. good_entries m es" and se: "sound_equal m"
    and "pending history sched R" "finite R" "R \<subseteq> {..<length history}" "p_count st = card R"
    and "Timer \<notin> set sched \<or> R = {..<length history}"
  shows "\<exists>st'. par_drain m history kills sched st = Some st' \<and> verdict st' = verdict st"
  using assms(3-)
proof (induction sched arbitrary: st R)
  case Nil
  then have "R = {..<length history}" by (auto simp: pending_def)
  with Nil show ?case by (simp add: par_drain.simps)
next
  case (Cons x sched)
  show ?case
  proof (cases "R = {..<length history}")
    case True
    with Cons.prems(4) show ?thesis by (simp add: par_drain.simps)
  next
    case False
    then obtain i where x: "x = Result i" using Cons.prems(5) by (cases x) auto
    note p = pending_Result[OF Cons.prems(1)[unfolded x]]
    have "card R < length history" using False Cons.prems(3) psubset_card_mono[of "{..<length history}" R] by auto
    moreover have i: "history ! i \<in> set history" "at history (int i) = Some (history ! i)"
      using p(1) by (simp_all add: at_def)
    moreover obtain b l where "checkSingle m (history ! i) True (kills i) = Some (b, l)"
      using checkSingle_good[of m "history ! i" True "kills i"] g se i(1) by auto
    moreover have "\<exists>st'. par_drain m history kills sched
          (st\<lparr>p_longest := (p_longest st)[i := l], p_count := p_count st + 1\<rparr>) = Some st' \<and>
        verdict st' = verdict st"
      using Cons.IH[OF p(3), of "st\<lparr>p_longest := (p_longest st)[i := l], p_count := p_count st + 1\<rparr>"] Cons.prems p(1,2) x False
      by simp
    ultimately show ?thesis using x Cons.prems(4) by (subst par_drain.simps) simp
  qed
qed

text \<open>
  What each verdict means, and where \<^verbatim>\<open>Unknown\<close> comes from; with \<^verbatim>\<open>computeInfo\<close>, what is stored for
  every partition when the verdict is \<^verbatim>\<open>Ok\<close>.
\<close>

definition timed_out :: "('v, 's) model \<Rightarrow> 'v entry list list \<Rightarrow> select list \<Rightarrow> bool" where
  "timed_out m history sched \<longleftrightarrow> (\<exists>pre post. sched = pre @ Timer # post \<and> (history = [] \<or> length (arrivals pre) < length history) \<and>
     (\<forall>i\<in>set (arrivals pre). lin_entries m (history ! i)))"

lemma timed_out_Timer: "timed_out m history sched \<Longrightarrow> Timer \<in> set sched"
  by (auto simp: timed_out_def)

lemma cut_off_timed_out:
  assumes "cut_off (length history) sched rest {} R" "schedule (length history) timeout sched" "received m history st R" "p_ok st"
  shows "timed_out m history sched"
proof -
  obtain pre where pre: "sched = pre @ Timer # rest" "R = set (arrivals pre)" "arrivals pre = [] \<or> card R < length history"
    using assms(1) by (auto simp: cut_off_def)
  have "arrivals (pre @ Timer # rest) = arrivals pre @ arrivals rest" by (induction pre rule: arrivals.induct) auto
  then have "card R = length (arrivals pre)" using assms(2) pre(1,2) by (simp add: schedule_def distinct_card)
  with pre assms(3,4) show ?thesis unfolding timed_out_def received_def
    by (intro exI[of _ pre] exI[of _ rest]) auto
qed

lemma par_drain_done: "length history \<le> p_count st \<Longrightarrow> par_drain m history kills sched st = Some st"
  by (simp add: par_drain.simps)

lemma checkParallel_noted:
  assumes g: "\<forall>es\<in>set history. good_entries m es" and se: "sound_equal m"
    and s: "schedule (length history) timeout sched" and ne: "history \<noteq> [] \<or> Timer \<in> set sched"
    and q: "\<And>i l. i < length history \<Longrightarrow> checkSingle m (history ! i) ci (\<lambda>_. False) = Some (True, l) \<Longrightarrow> Q i l"
  shows "\<exists>res info. checkParallel kills order sched m history ci timeout = Some (res, info) \<and>
    (res = Ok \<longrightarrow> (\<forall>es\<in>set history. lin_entries m es)) \<and>
    (res = Illegal \<longrightarrow> (\<exists>es\<in>set history. \<not> lin_entries m es)) \<and>
    (res = Unknown \<longrightarrow> timed_out m history sched) \<and>
    (res = Ok \<and> ci \<longrightarrow> (\<exists>ls. length ls = length history \<and> info = (history, map (partials order) ls) \<and> (\<forall>i<length history. Q i (ls ! i))))"
proof -
  let ?st = "\<lparr>p_ok = True, p_timedOut = False, p_count = 0, p_longest = replicate (length history) ([], [])\<rparr>"
  have "received m history ?st {}" "noted Q history ?st {}" by (simp_all add: received_def noted_def)
  moreover have "pending history sched {}" using s by (simp add: pending_def schedule_def)
  ultimately obtain st rest R where st: "par_loop m history ci timeout sched ?st = Some (st, rest)"
      "received m history st R" "pending history rest R" "noted Q history st R"
      "p_timedOut st \<longrightarrow> cut_off (length history) sched rest {} R \<and> Timer \<notin> set rest"
      "\<not> p_timedOut st \<longrightarrow> R = {..<length history} \<or> (\<not> p_ok st \<and> \<not> ci)"
    using par_loop_ok[where Q = Q and st = ?st and R = "{}" and sched = sched and timeout = timeout and ci = ci, OF g se q] s ne by (auto simp: schedule_def)
  note R = receivedD[OF st(2)]
  have ok: "R = {..<length history}" "p_ok st" if "verdict st = Ok"
    using that st(6) by (auto simp: verdict_def split: if_splits)
  have v: "verdict st = Ok \<longrightarrow> (\<forall>es\<in>set history. lin_entries m es)"
      "verdict st = Illegal \<longrightarrow> (\<exists>es\<in>set history. \<not> lin_entries m es)"
      "verdict st = Unknown \<longrightarrow> timed_out m history sched"
  proof (safe)
    fix es assume "verdict st = Ok" "es \<in> set history"
    with R(4) ok show "lin_entries m es" by (auto simp: in_set_conv_nth)
  next
    assume "verdict st = Illegal"
    then have "\<not> p_ok st" by (simp add: verdict_def split: if_splits)
    with R(1,4) obtain i where "i < length history" "\<not> lin_entries m (history ! i)" by blast
    then show "\<exists>es\<in>set history. \<not> lin_entries m es" using nth_mem by blast
  next
    assume "verdict st = Unknown"
    then have "p_ok st" "p_timedOut st" by (auto simp: verdict_def split: if_splits)
    with st(5) show "timed_out m history sched" using cut_off_timed_out[OF _ s st(2)] by blast
  qed
  show ?thesis
  proof (cases ci)
    case True
    then have "Timer \<notin> set rest \<or> R = {..<length history}" using st(5,6) by blast
    then obtain st' where st': "par_drain m history kills rest st = Some st'" "verdict st' = verdict st"
      using par_drain_ok[OF g se st(3) R(2,1,3)] by blast
    have "st' = st" if "verdict st = Ok" using ok[OF that] R(3) st'(1) par_drain_done[of history st m kills rest] by simp
    then have "verdict st = Ok \<longrightarrow> length (p_longest st') = length history \<and> (\<forall>i<length history. Q i (p_longest st' ! i))"
      using ok st(4) by (auto simp: noted_def)
    with True st(1) st' v show ?thesis by (auto simp: checkParallel_def)
  next
    case False
    with st(1) v show ?thesis by (simp add: checkParallel_def)
  qed
qed

lemma checkParallel_result:
  assumes "\<forall>es\<in>set history. good_entries m es" "sound_equal m"
    and "schedule (length history) timeout sched" "history \<noteq> [] \<or> Timer \<in> set sched"
  shows "\<exists>res info. checkParallel kills order sched m history ci timeout = Some (res, info) \<and>
    (res = Ok \<longrightarrow> (\<forall>es\<in>set history. lin_entries m es)) \<and>
    (res = Illegal \<longrightarrow> (\<exists>es\<in>set history. \<not> lin_entries m es)) \<and>
    (res = Unknown \<longrightarrow> Timer \<in> set sched)"
  using checkParallel_noted[OF assms, of ci "\<lambda>_ _. True" kills order] timed_out_Timer[of m history sched] by blast

text \<open>
  \<^bold>\<open>C11\<close>. On well-formed partitions, of which there is at least one unless the timer fires, checkParallel
  returns under every schedule of its goroutines and timer. Ok means that every partition is
  linearizable, Illegal that some partition is not, and Unknown that the timer fired when a result
  was still missing (or there was none to wait for) and the partitions received before it are all
  linearizable.
\<close>

theorem checkParallel_verdict:
  assumes g: "\<forall>es\<in>set history. good_entries m es" and se: "sound_equal m"
    and s: "schedule (length history) timeout sched" and ne: "history \<noteq> [] \<or> Timer \<in> set sched"
  shows "\<exists>res info. checkParallel kills order sched m history ci timeout = Some (res, info) \<and>
    (res = Ok \<longrightarrow> (\<forall>es\<in>set history. lin_entries m es)) \<and>
    (res = Illegal \<longrightarrow> (\<exists>es\<in>set history. \<not> lin_entries m es)) \<and>
    (res = Unknown \<longrightarrow> (\<exists>pre post. sched = pre @ Timer # post \<and> (history = [] \<or> length (arrivals pre) < length history) \<and>
       (\<forall>i\<in>set (arrivals pre). lin_entries m (history ! i))))"
  using checkParallel_noted[OF assms, of ci "\<lambda>_ _. True" kills order] unfolding timed_out_def by blast

text \<open>
  \<^bold>\<open>C35\<close>. checkParallel on a history without partitions and without a timeout never returns: its loop waits
  for a result that no goroutine sends.
\<close>

theorem checkParallel_empty_blocks:
  "timeout \<le> 0 \<Longrightarrow> checkParallel kills order sched m [] ci timeout = None"
proof -
  assume "timeout \<le> 0"
  then have "par_loop m [] ci timeout sched st = None" for st
    by (cases "(m, []::'a entry list list, ci, timeout, sched, st)" rule: par_loop.cases) (auto simp: at_def)
  then show ?thesis by (simp add: checkParallel_def)
qed

definition two_parts :: "int entry list list" where
  "two_parts = [reg_entries, reg_entries]"

lemma reg_entries_good: "good_entries reg_model reg_entries" "sound_equal reg_model"
proof -
  have H: "hist reg_entries = [(False, 0), (False, 1), (True, 1), (True, 0)]"
    by (simp add: hist_def reg_entries_def)
  have "{..<2::nat} = {0, 1}" by auto
  then have "wf_hist 2 (hist reg_entries)"
    unfolding H by (auto simp: wf_hist_def UNIV_bool less_Suc_eq numeral_2_eq_2)
  moreover have "\<forall>e\<in>set reg_entries. 0 \<le> eid e" "length reg_entries div 2 = 2" by (simp_all add: reg_entries_def)
  moreover have "steps_defined reg_model reg_entries 2" by (auto simp: steps_defined_def reg_model_def)
  ultimately show "good_entries reg_model reg_entries" by (simp add: good_entries_def wf_entries_def)
  show "sound_equal reg_model" by (rule sound_ShallowEqual) (simp add: reg_model_def)
qed

theorem checkParallel_verdict_witness:
  "\<exists>res info. checkParallel (\<lambda>_ _. False) id [Result 1, Timer, Result 0] reg_model two_parts True 5 = Some (res, info) \<and>
    (res = Ok \<longrightarrow> (\<forall>es\<in>set two_parts. lin_entries reg_model es))"
proof -
  have s: "schedule (length two_parts) 5 [Result 1, Timer, Result 0]"
    by (auto simp: schedule_def two_parts_def lessThan_Suc numeral_2_eq_2)
  have g: "\<forall>es\<in>set two_parts. good_entries reg_model es" "two_parts \<noteq> [] \<or> Timer \<in> set [Result 1, Timer, Result 0]"
    using reg_entries_good by (simp_all add: two_parts_def)
  from checkParallel_verdict[OF g(1) reg_entries_good(2) s g(2), of "\<lambda>_ _. False" id True] show ?thesis by blast
qed

theorem checkParallel_empty_blocks_witness:
  "checkParallel (\<lambda>_ _. False) id [Result 0] reg_model [] False 0 = None"
  by (rule checkParallel_empty_blocks) simp

end
