(* ===== verification/Operations.thy ===== *)
theory Operations
  imports Checker_Parallel
begin

text \<open>
  Histories given as operations with call and return times, as \<^verbatim>\<open>CheckOperations\<close> takes them:
  \<^verbatim>\<open>makeEntries\<close> turns them into well-formed entry lists, and the verdict on the entries
  is linearizability of the operations.
\<close>

definition op_step :: "('v, 's) model \<Rightarrow> 'v operation list \<Rightarrow> 's \<Rightarrow> nat \<Rightarrow> 's option" where
  "op_step m hs s i = (case Step m s (Input (hs ! i)) (Output (hs ! i)) of
     Some (True, t) \<Rightarrow> Some t | _ \<Rightarrow> None)"

definition op_linearizable :: "('s \<Rightarrow> nat \<Rightarrow> 's option) \<Rightarrow> 's \<Rightarrow> 'v operation list \<Rightarrow> bool" where
  "op_linearizable f s hs \<longleftrightarrow> (\<exists>p. distinct p \<and> set p = {..<length hs} \<and>
     (\<forall>i<length hs. \<forall>j<length hs. Return (hs ! i) < Call (hs ! j) \<longrightarrow> before p i j) \<and>
     run f s p \<noteq> None)"

text \<open>
  No operation returns before it is called, and no return has the time of a call:
  \<^verbatim>\<open>sort.Sort\<close> is free to put either of two entries with the same time first.
\<close>

definition well_timed :: "'v operation list \<Rightarrow> bool" where
  "well_timed hs \<longleftrightarrow> (\<forall>x\<in>set hs. Call x \<le> Return x) \<and> (\<forall>x\<in>set hs. \<forall>y\<in>set hs. Return x \<noteq> Call y)"

definition entry_of :: "'v operation list \<Rightarrow> bool \<Rightarrow> nat \<Rightarrow> 'v entry" where
  "entry_of hs r i = (let e = hs ! i in
     \<lparr>kind = (if r then returnEntry else callEntry), evalue = (if r then Output e else Input e), eid = int i,
      etime = (if r then Return e else Call e), eclientId = ClientId e\<rparr>)"

abbreviation event_key :: "'v entry \<Rightarrow> event" where
  "event_key e \<equiv> (kind e = returnEntry, nat (eid e))"

lemma event_key_entry_of [simp]: "event_key (entry_of hs r i) = (r, i)"
  by (simp add: entry_of_def Let_def)

lemma raw_entries_conv:
  "raw_entries (int k) (drop k hs) = concat (map (\<lambda>i. [entry_of hs False i, entry_of hs True i]) [k..<length hs])"
proof (induction "length hs - k" arbitrary: k)
  case (Suc d)
  then have "k < length hs" by simp
  then have "drop k hs = hs ! k # drop (Suc k) hs" by (simp add: Cons_nth_drop_Suc)
  moreover have "raw_entries (int k + 1) (drop (Suc k) hs) =
      concat (map (\<lambda>i. [entry_of hs False i, entry_of hs True i]) [Suc k..<length hs])"
    using Suc.hyps(1)[of "Suc k"] Suc.hyps(2) by (simp add: add.commute)
  ultimately show ?case using \<open>k < length hs\<close> by (simp add: upt_conv_Cons entry_of_def Let_def)
qed simp

lemma raw_entries_conv0:
  "raw_entries 0 hs = concat (map (\<lambda>i. [entry_of hs False i, entry_of hs True i]) [0..<length hs])"
  using raw_entries_conv[of 0 hs] by simp

lemma distinct_pairs: "distinct xs \<Longrightarrow> distinct (concat (map (\<lambda>i. [(False, i), (True, i)]) xs))"
  by (induction xs) auto

lemma makeEntries_facts:
  assumes "sorts_by_time sort_fn"
  shows "set (makeEntries sort_fn hs) = (\<lambda>(r, i). entry_of hs r i) ` (UNIV \<times> {..<length hs})"
    "distinct (hist (makeEntries sort_fn hs))" "sorted (map etime (makeEntries sort_fn hs))"
    "length (makeEntries sort_fn hs) = 2 * length hs"
proof -
  let ?es = "makeEntries sort_fn hs"
  have m: "mset ?es = mset (raw_entries 0 hs)" and s: "sorted (map etime ?es)"
    using assms by (auto simp: makeEntries_def sorts_by_time_def)
  show "sorted (map etime ?es)" by (fact s)
  have "set (raw_entries 0 hs) = (\<Union>i<length hs. {entry_of hs False i, entry_of hs True i})"
    by (simp add: raw_entries_conv0 lessThan_atLeast0)
  also have "\<dots> = (\<lambda>(r, i). entry_of hs r i) ` (UNIV \<times> {..<length hs})"
    by (auto simp: UNIV_bool image_iff)
  finally show "set ?es = (\<lambda>(r, i). entry_of hs r i) ` (UNIV \<times> {..<length hs})"
    using m by (metis set_mset_mset)
  have "hist (raw_entries 0 hs) = concat (map (\<lambda>i. [(False, i), (True, i)]) [0..<length hs])"
    by (simp add: hist_def raw_entries_conv0 map_concat comp_def)
  then have "distinct (hist (raw_entries 0 hs))" using distinct_pairs[of "[0..<length hs]"] by simp
  moreover have "mset (hist ?es) = mset (hist (raw_entries 0 hs))" using m by (simp add: hist_def)
  ultimately show "distinct (hist ?es)" by (metis mset_eq_imp_distinct_iff)
  have "length ?es = length (raw_entries 0 hs)" using m mset_eq_length by blast
  also have "\<dots> = 2 * length hs" by (simp add: raw_entries_conv0 length_concat comp_def sum_list_triv)
  finally show "length ?es = 2 * length hs" .
qed

lemma hist_before_iff:
  assumes "sorted (map etime es)" "distinct (hist es)" "e1 \<in> set es" "e2 \<in> set es" "etime e1 \<noteq> etime e2"
  shows "before (hist es) (event_key e1) (event_key e2) \<longleftrightarrow> etime e1 < etime e2"
proof -
  obtain i j where ij: "i < length es" "es ! i = e1" "j < length es" "es ! j = e2"
    using assms(3,4) by (auto simp: in_set_conv_nth)
  have h: "hist es ! i = event_key e1" "hist es ! j = event_key e2" using ij by (simp_all add: hist_def)
  have len: "length (hist es) = length es" by (simp add: hist_def)
  have "before (hist es) (event_key e1) (event_key e2) \<longleftrightarrow> i < j"
  proof
    assume "before (hist es) (event_key e1) (event_key e2)"
    then obtain a b where ab: "a < b" "b < length es" "hist es ! a = event_key e1" "hist es ! b = event_key e2"
      using before_nth[OF assms(2)] len by auto
    then have "a = i" using nth_eq_iff_index_eq[OF assms(2), of a i] h(1) ij(1) len by simp
    moreover have "b = j" using nth_eq_iff_index_eq[OF assms(2), of b j] ab h(2) ij(3) len by simp
    ultimately show "i < j" using ab(1) by simp
  next
    assume "i < j"
    then show "before (hist es) (event_key e1) (event_key e2)"
      unfolding before_nth[OF assms(2)] len using ij h by (intro exI[of _ i] exI[of _ j] conjI) simp_all
  qed
  moreover have "i \<noteq> j" using ij assms(5) by auto
  moreover have "etime e1 \<le> etime e2" if "i < j"
    using sorted_nth_mono[OF assms(1), of i j] that ij by simp
  moreover have "etime e2 \<le> etime e1" if "j < i"
    using sorted_nth_mono[OF assms(1), of j i] that ij by simp
  ultimately show ?thesis using assms(5) by (cases "i < j") auto
qed

lemma makeEntries_before:
  assumes "sorts_by_time sort_fn" "well_timed hs" "i < length hs" "j < length hs"
  shows "before (hist (makeEntries sort_fn hs)) (True, i) (False, j) \<longleftrightarrow> Return (hs ! i) < Call (hs ! j)"
    "before (hist (makeEntries sort_fn hs)) (False, j) (True, i) \<longleftrightarrow> Call (hs ! j) < Return (hs ! i)"
proof -
  note f = makeEntries_facts[OF assms(1), of hs]
  have e: "entry_of hs True i \<in> set (makeEntries sort_fn hs)" "entry_of hs False j \<in> set (makeEntries sort_fn hs)"
    using assms(3,4) unfolding f(1) by (auto simp: image_iff)
  have t: "etime (entry_of hs True i) = Return (hs ! i)" "etime (entry_of hs False j) = Call (hs ! j)"
      "Return (hs ! i) \<noteq> Call (hs ! j)"
    using assms by (auto simp: entry_of_def Let_def well_timed_def)
  show "before (hist (makeEntries sort_fn hs)) (True, i) (False, j) \<longleftrightarrow> Return (hs ! i) < Call (hs ! j)"
    using hist_before_iff[OF f(3,2) e] t by simp
  show "before (hist (makeEntries sort_fn hs)) (False, j) (True, i) \<longleftrightarrow> Call (hs ! j) < Return (hs ! i)"
    using hist_before_iff[OF f(3,2) e(2,1)] t by simp
qed

lemma makeEntries_wf:
  assumes "sorts_by_time sort_fn" "well_timed hs" "length hs < 2 ^ 64"
  shows "wf_entries (length hs) (makeEntries sort_fn hs)"
proof -
  note f = makeEntries_facts[OF assms(1), of hs]
  have "set (hist (makeEntries sort_fn hs)) = event_key ` set (makeEntries sort_fn hs)" by (simp add: hist_def)
  also have "\<dots> = UNIV \<times> {..<length hs}" unfolding f(1) image_image by (simp add: case_prod_beta)
  finally have st: "set (hist (makeEntries sort_fn hs)) = UNIV \<times> {..<length hs}" .
  have "before (hist (makeEntries sort_fn hs)) (False, i) (True, i)" if "i < length hs" for i
    using makeEntries_before(2)[OF assms(1,2) that that] assms(2) that
    by (metis nth_mem order_le_less well_timed_def)
  moreover have "\<forall>e\<in>set (makeEntries sort_fn hs). 0 \<le> eid e" unfolding f(1) by (auto simp: entry_of_def Let_def)
  ultimately show ?thesis using st f(2) assms(3) unfolding wf_entries_def wf_hist_def by blast
qed

lemma hd_singleton_set: assumes "set xs = {x}" shows "hd xs = x"
  using assms by (cases xs) auto

lemma makeEntries_value:
  assumes "sorts_by_time sort_fn" "i < length hs"
  shows "op_value callEntry (makeEntries sort_fn hs) i = Input (hs ! i)"
    "op_value returnEntry (makeEntries sort_fn hs) i = Output (hs ! i)"
proof -
  note f = makeEntries_facts[OF assms(1), of hs]
  have "set (filter (\<lambda>e. kind e = k \<and> eid e = int i) (makeEntries sort_fn hs)) = {entry_of hs (k = returnEntry) i}" for k
    unfolding set_filter f(1) using assms(2) by (cases k) (auto simp: entry_of_def Let_def image_iff)
  then have "hd (filter (\<lambda>e. kind e = k \<and> eid e = int i) (makeEntries sort_fn hs)) = entry_of hs (k = returnEntry) i" for k
    by (rule hd_singleton_set)
  then show "op_value callEntry (makeEntries sort_fn hs) i = Input (hs ! i)"
    "op_value returnEntry (makeEntries sort_fn hs) i = Output (hs ! i)"
    by (simp_all add: op_value_def entry_of_def Let_def)
qed

lemma run_cong: "(\<And>s i. i \<in> set p \<Longrightarrow> f s i = g s i) \<Longrightarrow> run f s p = run g s p"
proof (induction p arbitrary: s)
  case (Cons i p)
  then have "f s i = g s i" "\<And>t. run f t p = run g t p" by simp_all
  then show ?case by simp
qed simp

lemma makeEntries_linearizable:
  assumes "sorts_by_time sort_fn" "well_timed hs"
  shows "lin_entries m (makeEntries sort_fn hs) \<longleftrightarrow> op_linearizable (op_step m hs) (Init m) hs"
proof -
  note f = makeEntries_facts[OF assms(1), of hs]
  have "(rt_order (hist (makeEntries sort_fn hs)) p \<and> run (model_step m (makeEntries sort_fn hs)) (Init m) p \<noteq> None) \<longleftrightarrow>
     ((\<forall>i<length hs. \<forall>j<length hs. Return (hs ! i) < Call (hs ! j) \<longrightarrow> before p i j) \<and>
      run (op_step m hs) (Init m) p \<noteq> None)" if p: "set p = {..<length hs}" for p
  proof -
    have "run (model_step m (makeEntries sort_fn hs)) (Init m) p = run (op_step m hs) (Init m) p"
      using p by (intro run_cong) (simp add: model_step_def op_step_def makeEntries_value[OF assms(1)])
    moreover have "rt_order (hist (makeEntries sort_fn hs)) p \<longleftrightarrow>
       (\<forall>i<length hs. \<forall>j<length hs. Return (hs ! i) < Call (hs ! j) \<longrightarrow> before p i j)"
      unfolding rt_order_def p using makeEntries_before(1)[OF assms] by auto
    ultimately show ?thesis by simp
  qed
  then have "(distinct p \<and> set p = {..<length hs} \<and> rt_order (hist (makeEntries sort_fn hs)) p \<and>
      run (model_step m (makeEntries sort_fn hs)) (Init m) p \<noteq> None) \<longleftrightarrow>
     (distinct p \<and> set p = {..<length hs} \<and>
      (\<forall>i<length hs. \<forall>j<length hs. Return (hs ! i) < Call (hs ! j) \<longrightarrow> before p i j) \<and>
      run (op_step m hs) (Init m) p \<noteq> None)" for p by blast
  then show ?thesis unfolding lin_entries_def linearizable_def op_linearizable_def f(4) by simp
qed

section \<open>The contract of a model\<close>

definition parts_of :: "('v, 's) model \<Rightarrow> 'v operation list \<Rightarrow> 'v operation list list option" where
  "parts_of m hs = (case Partition m of None \<Rightarrow> Some (NoPartition hs) | Some p \<Rightarrow> p hs)"

definition checkable :: "('v, 's) model \<Rightarrow> 'v operation list \<Rightarrow> bool" where
  "checkable m p \<longleftrightarrow> well_timed p \<and> length p < 2 ^ 64 \<and> (\<forall>s. \<forall>x\<in>set p. Step m s (Input x) (Output x) \<noteq> None)"

lemma lin_entries_cong: "Init m = Init m' \<Longrightarrow> Step m = Step m' \<Longrightarrow> lin_entries m es = lin_entries m' es"
  by (simp add: lin_entries_def model_step_def[abs_def])

lemma makeEntries_good:
  assumes "sorts_by_time sort_fn" "checkable m p"
  shows "good_entries m (makeEntries sort_fn p)"
proof -
  have "Step m s (Input (p ! i)) (Output (p ! i)) \<noteq> None" if "i < length p" for s i
    using assms(2) that nth_mem unfolding checkable_def by blast
  then have "steps_defined m (makeEntries sort_fn p) (length p)"
    by (simp add: steps_defined_def makeEntries_value[OF assms(1)])
  then show ?thesis using makeEntries_wf[OF assms(1)] makeEntries_facts(4)[OF assms(1), of p] assms(2)
    by (simp add: good_entries_def checkable_def)
qed

text \<open>
  What the comments of \<^verbatim>\<open>model.go\<close> ask of a model: equality of states is sound, and \<^verbatim>\<open>Partition\<close>
  splits a history so that it satisfies its specification iff every part is linearizable.
\<close>

locale partition_contract =
  fixes m :: "('v, 's) model" and valid spec :: "'v operation list \<Rightarrow> bool"
  assumes equal_sound: "sound_equal (fillDefault f g m)"
    and parts_defined: "valid hs \<Longrightarrow> \<exists>parts. parts_of m hs = Some parts \<and> (\<forall>p\<in>set parts. checkable m p)"
    and parts_spec: "valid hs \<Longrightarrow> parts_of m hs = Some parts \<Longrightarrow>
      spec hs \<longleftrightarrow> (\<forall>p\<in>set parts. op_linearizable (op_step m p) (Init m) p)"
begin

lemma checkOperations_spec:
  assumes v: "valid hs" "parts_of m hs = Some parts" and so: "sorts_by_time (env_sort e)"
    and sc: "schedule (length parts) timeout (env_sched e)" and ne: "parts \<noteq> [] \<or> Timer \<in> set (env_sched e)"
  shows "\<exists>res info. checkOperations e showst m hs verbose timeout = Some (res, info) \<and>
    (res = Ok \<longrightarrow> spec hs) \<and> (res = Illegal \<longrightarrow> \<not> spec hs) \<and> (res = Unknown \<longrightarrow> Timer \<in> set (env_sched e))"
proof -
  let ?m = "fillDefault (env_show e) showst m" and ?l = "map (makeEntries (env_sort e)) parts"
  have c: "checkable m p" if "p \<in> set parts" for p using parts_defined[OF v(1)] v(2) that by auto
  have "checkable ?m p" if "p \<in> set parts" for p using c[OF that] by (simp add: checkable_def)
  then have g: "\<forall>es\<in>set ?l. good_entries ?m es" by (auto intro: makeEntries_good[OF so])
  have "lin_entries ?m (makeEntries (env_sort e) p) \<longleftrightarrow> op_linearizable (op_step m p) (Init m) p" if "p \<in> set parts" for p
    using makeEntries_linearizable[OF so, of p m] c[OF that] lin_entries_cong[of ?m m] by (simp add: checkable_def)
  then have sp: "spec hs \<longleftrightarrow> (\<forall>es\<in>set ?l. lin_entries ?m es)" using parts_spec[OF v] by simp
  have "checkOperations e showst m hs verbose timeout =
      checkParallel (env_kills e) (env_order e) (env_sched e) ?m ?l verbose timeout"
    using v(2) by (auto simp: checkOperations_def parts_of_def Let_def split: option.splits)
  then show ?thesis
    using checkParallel_result[OF g equal_sound, of timeout "env_sched e" "env_kills e" "env_order e" verbose] sc ne sp
    by auto
qed

lemma CheckOperations_spec:
  assumes "valid hs" "parts_of m hs = Some parts" "sorts_by_time (env_sort e)"
    and "schedule (length parts) 0 (env_sched e)" "parts \<noteq> []"
  shows "CheckOperations e showst m hs = Some (spec hs)"
proof -
  obtain res info where r: "checkOperations e showst m hs False 0 = Some (res, info)"
      "(res = Ok \<longrightarrow> spec hs)" "(res = Illegal \<longrightarrow> \<not> spec hs)" "(res = Unknown \<longrightarrow> Timer \<in> set (env_sched e))"
    using checkOperations_spec[OF assms(1-4), of showst False] assms(5) by blast
  moreover have "Timer \<notin> set (env_sched e)" using assms(4) by (simp add: schedule_def)
  ultimately show ?thesis by (cases res) (simp_all add: CheckOperations_def)
qed

end

text \<open>A model without a \<^verbatim>\<open>Partition\<close> function satisfies the contract: its history is one part.\<close>

definition unpartitioned :: "'s \<Rightarrow> ('s \<Rightarrow> 'v \<Rightarrow> 'v \<Rightarrow> (bool \<times> 's) option) \<Rightarrow> ('v, 's) model" where
  "unpartitioned init step = \<lparr>Partition = None, PartitionEvent = None, Init = init, Step = step,
     Equal = None, DescribeOperation = None, DescribeState = None\<rparr>"

interpretation nopart: partition_contract "unpartitioned init step" "checkable (unpartitioned init step)"
    "\<lambda>hs. op_linearizable (op_step (unpartitioned init step) hs) init hs" for init step
  by unfold_locales (auto simp: parts_of_def NoPartition_def unpartitioned_def intro: sound_ShallowEqual)

text \<open>
  A model without partition functions and with the default equality: \<^verbatim>\<open>CheckOperations\<close>
  returns, and returns true exactly when the operations are linearizable.
\<close>

lemma CheckOperations_unpartitioned:
  assumes "checkable (unpartitioned init step) hs" "sorts_by_time (env_sort e)" "env_sched e = [Result 0]"
  shows "CheckOperations e showst (unpartitioned init step) hs =
    Some (op_linearizable (op_step (unpartitioned init step) hs) init hs)"
  using nopart.CheckOperations_spec[OF assms(1), of "[hs]" e showst] assms
  by (simp add: parts_of_def NoPartition_def unpartitioned_def schedule_def lessThan_Suc)

end
