(* ===== verification/Partials.thy ===== *)
theory Partials
  imports Operations
begin

text \<open>
  The partial linearizations that the search records.  With \<^verbatim>\<open>computePartial\<close> the loop of
  \<^verbatim>\<open>checkSingle\<close> notes, each time it backtracks, the sequence of calls it has linearized, under every
  call of the sequence for which it is the longest so far.  This theory shows that every sequence
  that \<^verbatim>\<open>checkParallel\<close> hands on in its \<^verbatim>\<open>linearizationInfo\<close> is a partial linearization: the model accepts it, and it
  respects the real-time order of the history, also when a timeout stopped the search.
\<close>

section \<open>Partial linearizations\<close>

definition partial_lin :: "('v, 's) model \<Rightarrow> 'v entry list \<Rightarrow> nat \<Rightarrow> nat list \<Rightarrow> bool" where
  "partial_lin m es n p \<longleftrightarrow> distinct p \<and> set p \<subseteq> {..<n} \<and> run (model_step m es) (Init m) p \<noteq> None \<and>
     (\<forall>i\<in>set p. \<forall>j. before (hist es) (True, j) (False, i) \<longrightarrow> before p j i)"

definition good_seq :: "('v, 's) model \<Rightarrow> 'v entry list \<Rightarrow> nat \<Rightarrow> int list \<Rightarrow> bool" where
  "good_seq m es n ids \<longleftrightarrow> (\<forall>i\<in>set ids. 0 \<le> i) \<and> partial_lin m es n (map nat ids)"

definition good_info :: "('v, 's) model \<Rightarrow> 'v entry list \<Rightarrow> nat \<Rightarrow> lin_info \<Rightarrow> bool" where
  "good_info m es n info \<longleftrightarrow> length (snd info) = n \<and> (\<forall>ids\<in>set (fst info). good_seq m es n ids) \<and>
     (\<forall>i<n. \<forall>q. snd info ! i = Some q \<longrightarrow> q < length (fst info) \<and> int i \<in> set (fst info ! q))"

text \<open>A partial linearization of all operations is a linearization.\<close>

lemma partial_lin_full: "partial_lin m es n p \<Longrightarrow> set p = {..<n} \<Longrightarrow> linearizable (model_step m es) (Init m) n (hist es)"
  unfolding partial_lin_def linearizable_def rt_order_def by blast

lemma before_snoc: "before xs x y \<Longrightarrow> before (xs @ zs) x y"
  by (induction xs) (auto dest: before_in_set)

lemma frames_order:
  assumes "frames f (hist es) h0 s0 h calls s" "start_heap n es h0"
  shows "i \<in> set (ops h0 calls) \<Longrightarrow> before (hist es) (True, j) (False, i) \<Longrightarrow> before (ops h0 calls) j i"
  using assms
proof (induction arbitrary: i)
  case (frames_push h calls s xs e ys c t h')
  let ?p = "ops h0 calls"
  have w: "wf_hist n (hist es)" using frames_push.prems(3) by (simp add: start_heap_def wf_entries_def)
  show ?case
  proof (cases "i \<in> set ?p")
    case True
    with frames_push.IH[OF True frames_push.prems(2,3)] show ?thesis by (simp add: before_snoc)
  next
    case False
    then have i: "i = op_of h0 e" using frames_push.prems(1) by simp
    have "i \<in> minimal (hist es) (set ?p)"
      unfolding i using frames_push.hyps by (intro explored_minimal[OF frames_push.prems(3)]) auto
    moreover have "j < n" using before_in_set[OF frames_push.prems(2)] w by (auto simp: wf_hist_def)
    ultimately have "j \<in> set ?p" using frames_push.prems(2) unfolding minimal_iff[OF w] by blast
    then show ?thesis using i by (simp add: before_append_right)
  qed
qed simp

lemma frames_partial_lin:
  assumes "frames (model_step m es) (hist es) h0 (Init m) h calls s" "start_heap n es h0"
  shows "partial_lin m es n (ops h0 calls)"
  using frames_path[OF assms] frames_order[OF assms] unfolding partial_lin_def by auto

section \<open>The search records partial linearizations\<close>

lemma good_info_alloc: "good_info m es n (seqs, longest) \<Longrightarrow> good_seq m es n ids \<Longrightarrow> good_info m es n (seqs @ [ids], longest)"
  by (fastforce simp: good_info_def nth_append)

lemma good_info_upd:
  assumes "good_info m es n (seqs, longest)" "0 \<le> i" "i < int n" "q < length seqs" "i \<in> set (seqs ! q)"
  shows "\<exists>l. upd_at longest i (Some q) = Some l \<and> good_info m es n (seqs, l)"
  using assms by (auto simp: upd_at_def good_info_def nth_list_update)

lemma longest_loop_good:
  assumes ids: "call_ids h calls = Some ids" "\<forall>i\<in>set ids. 0 \<le> i \<and> i < int n" "good_seq m es n ids"
  shows "set vs \<subseteq> set calls \<Longrightarrow> good_info m es n info \<Longrightarrow>
    (\<forall>q. seq = Some q \<longrightarrow> q < length (fst info) \<and> fst info ! q = ids) \<Longrightarrow>
    longest_loop h calls vs seq info = Some info' \<Longrightarrow> good_info m es n info'"
proof (induction vs arbitrary: seq info)
  case (Cons v vs)
  obtain seqs longest where info: "info = (seqs, longest)" by (cases info)
  obtain en where en: "deref h (fst v) = Some en" "nid en \<in> set ids"
    using call_ids_deref[OF ids(1), of v] Cons.prems(1) by auto
  define alloc where "alloc = (case seq of Some q \<Rightarrow> (q, seqs) | None \<Rightarrow> (length seqs, seqs @ [ids]))"
  have a: "good_info m es n (snd alloc, longest)" "fst alloc < length (snd alloc)" "snd alloc ! fst alloc = ids"
    using Cons.prems(2,3) info ids(3) by (auto simp: alloc_def good_info_alloc split: option.splits)
  obtain l where l: "upd_at longest (nid en) (Some (fst alloc)) = Some l" "good_info m es n (snd alloc, l)"
    using good_info_upd[OF a(1) _ _ a(2), of "nid en"] en(2) ids(2) a(3) by auto
  have "longest_loop h calls vs seq (seqs, longest) = Some info' \<or>
      longest_loop h calls vs (Some (fst alloc)) (snd alloc, l) = Some info'"
    using Cons.prems(4) en(1) l(1) ids(1) unfolding info alloc_def
    by (auto simp: bind_Some_iff split: if_splits option.splits)
  then show ?case
  proof
    assume "longest_loop h calls vs seq (seqs, longest) = Some info'"
    from Cons.IH[OF _ _ _ this] Cons.prems(1-3) info show ?thesis by simp
  next
    assume "longest_loop h calls vs (Some (fst alloc)) (snd alloc, l) = Some info'"
    from Cons.IH[OF _ _ _ this] Cons.prems(1) l(2) a(2,3) show ?thesis by simp
  qed
qed simp

abbreviation info_of :: "('v, 's) cst \<Rightarrow> lin_info" where
  "info_of st \<equiv> (c_seqs st, c_longest st)"

lemma stack_ids:
  assumes s: "start_heap n es h0" and i: "search_inv m es n h0 st"
  obtains ids where "call_ids (c_heap st) (c_calls st) = Some ids" "\<forall>i\<in>set ids. 0 \<le> i \<and> i < int n"
    "map nat ids = ops h0 (c_calls st)" "good_seq m es n ids"
proof -
  note fr = search_invD(1)[OF i]
  have sc: "same_content h0 (c_heap st)" using frames_linked[OF fr s] by (simp add: linked_def)
  obtain ids where ids: "call_ids (c_heap st) (c_calls st) = Some ids" "map nat ids = ops h0 (c_calls st)"
      "\<forall>i\<in>set ids. 0 \<le> i \<and> i < int n"
    using call_ids_ok[OF fr s sc] by blast
  moreover have "good_seq m es n ids"
    using frames_partial_lin[OF fr s] ids by (simp add: good_seq_def)
  ultimately show ?thesis using that by blast
qed

lemma check_body_info:
  assumes s: "start_heap n es h0" and i: "search_inv m es n h0 st" and g: "good_info m es n (info_of st)"
    and b: "check_body m cp (length es) st = Some r"
  shows "case r of Inl (_, info) \<Rightarrow> good_info m es n info | Inr st' \<Rightarrow> good_info m es n (info_of st')"
proof -
  obtain en where en: "deref (c_heap st) (c_entry st) = Some en" using b by (auto simp: check_body_def bind_Some_iff)
  show ?thesis
  proof (cases "nmatch en = None")
    case False
    then obtain st' where "check_call m (length es) st en = Some st'" "r = Inr st'"
      using b en by (auto simp: check_body_def)
    moreover from this have "info_of st' = info_of st"
      by (auto simp: check_call_def Let_def bind_Some_iff split: if_splits)
    ultimately show ?thesis using g by simp
  next
    case True
    then have b: "check_return cp st = Some r" using b en by (simp add: check_body_def)
    obtain ids where ids: "call_ids (c_heap st) (c_calls st) = Some ids" "\<forall>i\<in>set ids. 0 \<le> i \<and> i < int n"
        "map nat ids = ops h0 (c_calls st)" "good_seq m es n ids"
      by (rule stack_ids[OF s i])
    show ?thesis
    proof (cases "c_calls st = []")
      case True
      then show ?thesis using b g by (simp add: check_return_def) auto
    next
      case False
      then have "\<exists>info'. (if cp then longest_loop (c_heap st) (c_calls st) (c_calls st) None (info_of st)
          else Some (info_of st)) = Some info' \<and> (\<exists>st'. r = Inr st' \<and> info_of st' = info')"
        using b by (auto simp: check_return_def Let_def bind_Some_iff)
      then obtain info' st' where info': "(if cp then longest_loop (c_heap st) (c_calls st) (c_calls st) None (info_of st)
          else Some (info_of st)) = Some info'" "r = Inr st'" "info_of st' = info'" by blast
      have "good_info m es n info'"
      proof (cases cp)
        case True
        with info'(1) show ?thesis by (intro longest_loop_good[OF ids(1,2,4) _ g]) auto
      qed (use info'(1) g in simp)
      with info' show ?thesis by simp
    qed
  qed
qed

lemma check_finish_info:
  assumes s: "start_heap n es h0" and i: "search_inv m es n h0 st" and g: "good_info m es n (info_of st)"
    and d: "live h0 (set (ops h0 (c_calls st))) = []" and r: "check_finish n st = Some (b, info)"
  shows "good_info m es n info \<and> (\<exists>q. snd info = replicate n (Some q))"
proof -
  obtain ids where ids: "call_ids (c_heap st) (c_calls st) = Some ids" "\<forall>i\<in>set ids. 0 \<le> i \<and> i < int n"
      "map nat ids = ops h0 (c_calls st)" "good_seq m es n ids"
    by (rule stack_ids[OF s i])
  have w: "wf_hist n (hist es)" using s by (simp add: start_heap_def wf_entries_def)
  have "remaining (hist es) (set (ops h0 (c_calls st))) = []" using start_live(2)[OF s, of "set (ops h0 (c_calls st))"] d by simp
  then have "{..<n} \<subseteq> set (map nat ids)" unfolding ids(3) remaining_empty_iff[OF w] .
  then have all: "\<forall>i<n. int i \<in> set ids" using ids(2)
    by (metis (no_types, opaque_lifting) imageE lessThan_iff list.set_map nat_0_le subsetD)
  have info: "info = (c_seqs st @ [ids], replicate n (Some (length (c_seqs st))))"
    using r ids(1) by (simp add: check_finish_def map_replicate_trivial map_replicate_const)
  from g ids(4) all show ?thesis unfolding info by (auto simp: good_info_def)
qed

lemma check_loop_info:
  assumes s: "start_heap n es h0" and i: "search_inv m es n h0 st" and se: "sound_equal m" and sd: "steps_defined m es n"
    and g: "good_info m es n (info_of st)" and r: "check_loop m cp kill n (length es) k st = Some (b, info)"
  shows "good_info m es n info \<and> (b \<longrightarrow> (\<exists>q. snd info = replicate n (Some q)))"
  using i g r
proof (induction "search_measure m es n h0 st" arbitrary: st k rule: wf_induct_rule[OF wf_search_less])
  case (1 st)
  let ?L = "set (ops h0 (c_calls st))"
  have l: "linked (length es) h0 (c_heap st) ?L" using frames_linked[OF search_invD(1)[OF 1(2)] s] .
  then have hd: "deref (c_heap st) (Some (length es)) = Some (c_heap st ! length es)"
      "nnext (c_heap st ! length es) = fst_or (live h0 ?L) None"
    by (auto simp: linked_def deref_def)
  show ?case
  proof (cases "live h0 ?L = []")
    case True
    then have "check_finish n st = Some (b, info)" using 1(4) hd by (subst (asm) check_loop.simps) simp
    from check_finish_info[OF s 1(2,3) True this] show ?thesis by blast
  next
    case False
    then have nx: "nnext (c_heap st ! length es) \<noteq> None" using hd(2) by (cases "live h0 ?L") auto
    show ?thesis
    proof (cases "kill k")
      case True
      then show ?thesis using hd(1) nx 1(3,4) by (subst (asm) check_loop.simps) auto
    next
      case nk: False
      obtain r where r: "check_body m cp (length es) st = Some r"
        using 1(4) hd(1) nx nk by (subst (asm) check_loop.simps) (auto split: option.splits)
      note gi = check_body_info[OF s 1(2,3) r]
      from check_body_ok[OF s 1(2) se sd False, of cp] show ?thesis
      proof (elim disjE exE conjE)
        fix info' assume "check_body m cp (length es) st = Some (Inl (False, info'))"
        with hd(1) nx nk gi r 1(4) show ?thesis by (subst (asm) check_loop.simps) auto
      next
        fix st' assume st': "check_body m cp (length es) st = Some (Inr st')" "search_inv m es n h0 st'"
          "(search_measure m es n h0 st', search_measure m es n h0 st) \<in> search_less"
        have "check_loop m cp kill n (length es) (k + 1) st' = Some (b, info)"
          using 1(4) st'(1) hd(1) nx nk by (subst (asm) check_loop.simps) auto
        from 1(1)[OF st'(3) st'(2) _ this] gi st'(1) r show ?thesis by simp
      qed
    qed
  qed
qed


lemma checkSingle_info:
  assumes w: "wf_entries n es" and se: "sound_equal m" and sd: "steps_defined m es n"
    and r: "checkSingle m es cp kill = Some (b, info)"
  shows "good_info m es n info \<and> (b \<longrightarrow> (\<exists>q. snd info = replicate n (Some q)))"
proof -
  obtain h0 st where st: "start_heap n es h0" "search_inv m es n h0 st" "c_seqs st = []" "c_longest st = replicate n None"
      "\<forall>cp kill. checkSingle m es cp kill = check_loop m cp kill n (length es) 0 st"
    using checkSingle_start[OF w, of m] by blast
  show ?thesis using check_loop_info[OF st(1,2) se sd _ r[unfolded st(5)[rule_format]]] st(3,4) by (simp add: good_info_def)
qed

section \<open>All partitions\<close>

definition longest_ok :: "('v, 's) model \<Rightarrow> 'v entry list list \<Rightarrow> par_state \<Rightarrow> bool" where
  "longest_ok m history st \<longleftrightarrow> length (p_longest st) = length history \<and>
     (\<forall>i<length history. p_longest st ! i = ([], []) \<or> good_info m (history ! i) (length (history ! i) div 2) (p_longest st ! i))"

lemma longest_ok_upd:
  assumes "longest_ok m history st" "at history (int i) = Some es" "good_entries m es" "sound_equal m"
    "checkSingle m es cp kill = Some (b, l)" "p_longest st' = (p_longest st)[i := l]"
  shows "longest_ok m history st'"
proof -
  have "good_info m es (length es div 2) l"
    using checkSingle_info[of "length es div 2"] assms(3-5) unfolding good_entries_def by blast
  then show ?thesis using assms(1,2,6) by (auto simp: longest_ok_def at_def nth_list_update split: if_splits)
qed

lemma par_loop_info:
  assumes g: "\<forall>es\<in>set history. good_entries m es" and se: "sound_equal m"
  shows "longest_ok m history st \<Longrightarrow> par_loop m history ci timeout sched st = Some (st', rest) \<Longrightarrow> longest_ok m history st'"
proof (induction sched arbitrary: st)
  case (Cons x sched)
  show ?case
  proof (cases x)
    case (Result i)
    then obtain es b l where c: "at history (int i) = Some es" "checkSingle m es ci (\<lambda>_. False) = Some (b, l)"
      using Cons.prems(2) by (auto simp: bind_Some_iff)
    define st1 where "st1 = st\<lparr>p_longest := (p_longest st)[i := l], p_count := p_count st + 1, p_ok := p_ok st \<and> b\<rparr>"
    have "es \<in> set history" using c(1) by (auto simp: at_def split: if_splits)
    then have "longest_ok m history st1" using longest_ok_upd[OF Cons.prems(1) c(1) _ se c(2)] g by (simp add: st1_def)
    moreover have "par_loop m history ci timeout (x # sched) st =
       (if \<not> p_ok st1 \<and> \<not> ci then Some (st1, sched) else if p_count st1 \<ge> length history then Some (st1, sched)
        else par_loop m history ci timeout sched st1)"
      using Result c by (simp add: st1_def)
    ultimately show ?thesis using Cons.IH[of st1] Cons.prems(2) by (auto split: if_splits)
  next
    case Timer
    then show ?thesis using Cons.prems by (auto simp: longest_ok_def split: if_splits)
  qed
qed simp

lemma par_drain_info:
  assumes g: "\<forall>es\<in>set history. good_entries m es" and se: "sound_equal m"
  shows "longest_ok m history st \<Longrightarrow> par_drain m history kills sched st = Some st' \<Longrightarrow> longest_ok m history st'"
proof (induction sched arbitrary: st)
  case Nil
  have "st' = st" using Nil.prems(2) by (subst (asm) par_drain.simps) (auto split: if_splits)
  with Nil.prems(1) show ?case by simp
next
  case (Cons x sched)
  show ?case
  proof (cases "p_count st < length history")
    case True
    then obtain i es b l where c: "x = Result i" "at history (int i) = Some es" "checkSingle m es True (kills i) = Some (b, l)"
        "par_drain m history kills sched (st\<lparr>p_longest := (p_longest st)[i := l], p_count := p_count st + 1\<rparr>) = Some st'"
      using Cons.prems(2) by (subst (asm) par_drain.simps) (auto simp: bind_Some_iff split: select.splits)
    have "es \<in> set history" using c(2) by (auto simp: at_def split: if_splits)
    then show ?thesis by (intro Cons.IH[OF _ c(4)] longest_ok_upd[OF Cons.prems(1) c(2) _ se c(3)]) (use g in auto)
  next
    case False
    then have "st' = st" using Cons.prems(2) by (subst (asm) par_drain.simps) simp
    with Cons.prems(1) show ?thesis by simp
  qed
qed

lemma partials_good:
  assumes "good_info m es n l" "\<And>xs. set (order xs) = set xs" "ids \<in> set (partials order l)"
  shows "good_seq m es n ids"
proof -
  obtain q where q: "ids = fst l ! q" "Some q \<in> set (snd l)"
    using assms(2,3) by (auto simp: partials_def)
  then obtain i where "i < n" "snd l ! i = Some q" using assms(1) by (auto simp: good_info_def in_set_conv_nth)
  then show ?thesis using assms(1) q(1) by (auto simp: good_info_def)
qed

definition info_good :: "('v, 's) model \<Rightarrow> 'v linearizationInfo \<Rightarrow> bool" where
  "info_good m info \<longleftrightarrow> length (snd info) = length (fst info) \<and>
     (\<forall>i<length (fst info). \<forall>ids\<in>set (snd info ! i). good_seq m (fst info ! i) (length (fst info ! i) div 2) ids)"

lemma checkParallel_info:
  assumes g: "\<forall>es\<in>set history. good_entries m es" and se: "sound_equal m" and o: "\<And>xs. set (order xs) = set xs"
    and r: "checkParallel kills order sched m history True timeout = Some (res, info)"
  shows "fst info = history \<and> info_good m info"
proof -
  let ?st = "\<lparr>p_ok = True, p_timedOut = False, p_count = 0, p_longest = replicate (length history) ([], [])\<rparr>"
  obtain st rest st' where st: "par_loop m history True timeout sched ?st = Some (st, rest)"
      "par_drain m history kills rest st = Some st'" "info = (history, map (partials order) (p_longest st'))"
    using r by (auto simp: checkParallel_def bind_Some_iff)
  have "longest_ok m history ?st" by (simp add: longest_ok_def)
  then have "longest_ok m history st'" using par_drain_info[OF g se _ st(2)] par_loop_info[OF g se _ st(1)] by blast
  moreover have "partials order ([], []) = []" using o[of "[]"] by (simp add: partials_def)
  ultimately show ?thesis using partials_good[OF _ o] unfolding st(3) info_good_def longest_ok_def
    by (fastforce simp: nth_map)
qed

text \<open>When the verdict is \<^verbatim>\<open>Ok\<close>, the sequences of each partition include one of all its operations.\<close>

definition full_seq :: "nat \<Rightarrow> int list \<Rightarrow> bool" where
  "full_seq n ids \<longleftrightarrow> length ids = n \<and> (\<forall>i<n. int i \<in> set ids)"

lemma good_seq_full:
  assumes "good_seq m es n ids" "\<forall>i<n. int i \<in> set ids"
  shows "full_seq n ids"
proof -
  have "distinct (map nat ids)" "set (map nat ids) \<subseteq> {..<n}" using assms(1) by (auto simp: good_seq_def partial_lin_def)
  moreover have "{..<n} \<subseteq> set (map nat ids)" using assms(2) by (force simp: image_iff)
  ultimately have "card {..<n} = length ids" using distinct_card[of "map nat ids"] by (metis length_map subset_antisym)
  with assms(2) show ?thesis by (simp add: full_seq_def)
qed

lemma partials_full:
  assumes "good_info m es n l" "snd l = replicate n (Some q)" "\<And>xs. set (order xs) = set xs" "0 < n"
  shows "\<exists>ids\<in>set (partials order l). full_seq n ids"
proof (rule bexI)
  have "\<forall>i<n. int i \<in> set (fst l ! q)" "q < length (fst l)" using assms(1,2,4) by (auto simp: good_info_def)
  then show "full_seq n (fst l ! q)" using assms(1) by (auto simp: good_info_def intro: good_seq_full)
  show "fst l ! q \<in> set (partials order l)" using assms(2-4) by (auto simp: partials_def)
qed

lemma checkParallel_full:
  assumes g: "\<forall>es\<in>set history. good_entries m es" and se: "sound_equal m" and o: "\<And>xs. set (order xs) = set xs"
    and s: "schedule (length history) timeout sched" and ne: "history \<noteq> [] \<or> Timer \<in> set sched"
    and r: "checkParallel kills order sched m history True timeout = Some (Ok, info)"
    and i: "i < length history" "0 < length (history ! i) div 2"
  shows "\<exists>ids\<in>set (snd info ! i). full_seq (length (history ! i) div 2) ids"
proof -
  let ?n = "\<lambda>i. length (history ! i) div 2"
  let ?Q = "\<lambda>i l. good_info m (history ! i) (?n i) l \<and> (\<exists>q. snd l = replicate (?n i) (Some q))"
  have "?Q i l" if "i < length history" "checkSingle m (history ! i) True (\<lambda>_. False) = Some (True, l)" for i l
    using checkSingle_info[OF _ se _ that(2), of "?n i"] g that(1) by (auto simp: good_entries_def)
  from checkParallel_noted[where Q = ?Q and kills = kills and order = order and ci = True, OF g se s ne this] r
  obtain ls where ls: "length ls = length history" "snd info = map (partials order) ls" "?Q i (ls ! i)" using i(1) by auto
  then obtain q where "snd (ls ! i) = replicate (?n i) (Some q)" by blast
  from partials_full[OF conjunct1[OF ls(3)] this o i(2)] ls(1,2) i(1) show ?thesis by simp
qed

end
