(* ===== verification/Locality.thy ===== *)
theory Locality
  imports Operations
begin

text \<open>
  Linearizability is local.  Operations carry a call and a return time and a key, and the
  state of each key evolves on its own; the operations of all keys together are
  linearizable iff those of every key are.  The proof gives every operation a
  linearization point within its interval, the latest call among the operations that its
  key's order puts no later, and merges the orders by that point.
\<close>

section \<open>Orders of a set of timed operations\<close>

definition lin_on :: "(nat \<Rightarrow> int) \<Rightarrow> (nat \<Rightarrow> int) \<Rightarrow> ('s \<Rightarrow> nat \<Rightarrow> 's option) \<Rightarrow> 's \<Rightarrow> nat set \<Rightarrow> nat list \<Rightarrow> bool" where
  "lin_on call ret f s I p \<longleftrightarrow> distinct p \<and> set p = I \<and>
     (\<forall>i\<in>I. \<forall>j\<in>I. ret i < call j \<longrightarrow> before p i j) \<and> run f s p \<noteq> None"

lemma before_map:
  "inj_on g (set p \<union> {i, j}) \<Longrightarrow> before (map g p) (g i) (g j) \<longleftrightarrow> before p i j"
proof (induction p)
  case (Cons a p)
  then have "inj_on g (set p \<union> {i, j})" by (auto simp: inj_on_def)
  moreover have "g a = g i \<longleftrightarrow> a = i" using Cons.prems by (auto simp: inj_on_def)
  moreover have "g j \<in> g ` set p \<longleftrightarrow> j \<in> set p" using Cons.prems by (auto simp: inj_on_def)
  ultimately show ?case using Cons.IH by simp
qed simp

lemma run_map: "run f s (map g p) = run (\<lambda>s i. f s (g i)) s p"
  by (induction p arbitrary: s) simp_all

lemma lin_on_map:
  assumes "distinct xs" "set p = {..<length xs}"
  shows "lin_on call ret f s (set xs) (map ((!) xs) p) \<longleftrightarrow>
    lin_on (\<lambda>i. call (xs ! i)) (\<lambda>i. ret (xs ! i)) (\<lambda>s i. f s (xs ! i)) s {..<length xs} p"
proof -
  have inj: "inj_on ((!) xs) {..<length xs}" using assms(1) inj_on_nth by blast
  have "before (map ((!) xs) p) (xs ! i) (xs ! j) \<longleftrightarrow> before p i j" if "i < length xs" "j < length xs" for i j
    by (rule before_map) (use inj assms(2) that in \<open>simp add: insert_absorb\<close>)
  moreover have "set xs = (!) xs ` {..<length xs}" by (auto simp: in_set_conv_nth)
  moreover have "distinct (map ((!) xs) p) \<longleftrightarrow> distinct p" using inj assms(2) by (simp add: distinct_map)
  ultimately show ?thesis using assms(2) by (simp add: lin_on_def run_map)
qed

lemma list_in_image: "set q \<subseteq> g ` A \<Longrightarrow> \<exists>p. set p \<subseteq> A \<and> q = map g p"
proof (induction q)
  case (Cons a q)
  then obtain p x where "set p \<subseteq> A" "q = map g p" "x \<in> A" "a = g x" by auto
  then show ?case by (intro exI[of _ "x # p"]) simp
qed simp

lemma lin_on_reindex:
  assumes "distinct xs"
  shows "(\<exists>q. lin_on call ret f s (set xs) q) \<longleftrightarrow>
    (\<exists>p. lin_on (\<lambda>i. call (xs ! i)) (\<lambda>i. ret (xs ! i)) (\<lambda>s i. f s (xs ! i)) s {..<length xs} p)"
proof
  assume "\<exists>q. lin_on call ret f s (set xs) q"
  then obtain q where q: "lin_on call ret f s (set xs) q" by blast
  then have "set q = (!) xs ` {..<length xs}" by (auto simp: lin_on_def in_set_conv_nth)
  then obtain p where p: "set p \<subseteq> {..<length xs}" "q = map ((!) xs) p" using list_in_image[of q "(!) xs"] by blast
  have inj: "inj_on ((!) xs) {..<length xs}" using assms inj_on_nth by blast
  have "(!) xs ` set p = (!) xs ` {..<length xs}" using p \<open>set q = _\<close> by simp
  then have "set p = {..<length xs}" using inj_on_image_eq_iff[OF inj p(1)] by simp
  then show "\<exists>p. lin_on (\<lambda>i. call (xs ! i)) (\<lambda>i. ret (xs ! i)) (\<lambda>s i. f s (xs ! i)) s {..<length xs} p"
    using lin_on_map[OF assms, of p call ret f s] q unfolding p(2) by (intro exI[of _ p]) simp
next
  assume "\<exists>p. lin_on (\<lambda>i. call (xs ! i)) (\<lambda>i. ret (xs ! i)) (\<lambda>s i. f s (xs ! i)) s {..<length xs} p"
  then obtain p where p: "lin_on (\<lambda>i. call (xs ! i)) (\<lambda>i. ret (xs ! i)) (\<lambda>s i. f s (xs ! i)) s {..<length xs} p" ..
  then have "set p = {..<length xs}" by (simp add: lin_on_def)
  from lin_on_map[OF assms this, of call ret f s] p show "\<exists>q. lin_on call ret f s (set xs) q" by (intro exI[of _ "map ((!) xs) p"]) simp
qed

section \<open>Linearization points\<close>

lemma before_irrefl: "distinct xs \<Longrightarrow> before xs x y \<Longrightarrow> x \<noteq> y \<and> \<not> before xs y x"
  by (induction xs) (auto dest: before_in_set split: if_splits)

lemma before_trans: "distinct xs \<Longrightarrow> before xs x y \<Longrightarrow> before xs y z \<Longrightarrow> before xs x z"
  by (induction xs) (auto dest: before_in_set split: if_splits)

definition point :: "(nat \<Rightarrow> int) \<Rightarrow> nat list \<Rightarrow> nat \<Rightarrow> int" where
  "point call p i = Max (call ` (insert i {j. before p j i}))"

lemma finite_before [simp]: "finite {j. before p j i}"
  by (rule finite_subset[of _ "set p"]) (auto dest: before_in_set)

lemma point_ge: "call i \<le> point call p i"
  by (simp add: point_def)

lemma point_le:
  assumes "lin_on call ret f s I p" "i \<in> I" "\<forall>i\<in>I. call i \<le> ret i"
  shows "point call p i \<le> ret i"
proof -
  have "call j \<le> ret i" if "before p j i" for j
  proof (rule ccontr)
    assume "\<not> call j \<le> ret i"
    moreover have "j \<in> I" using that assms(1) by (auto simp: lin_on_def dest: before_in_set)
    ultimately have "before p i j" using assms(1,2) by (auto simp: lin_on_def)
    then show False using before_irrefl[of p i j] that assms(1) by (auto simp: lin_on_def)
  qed
  then show ?thesis using assms(2,3) by (simp add: point_def)
qed

lemma point_mono:
  assumes "distinct p" "before p i j"
  shows "point call p i \<le> point call p j"
  unfolding point_def
  using assms before_trans[OF assms(1) _ assms(2)] by (intro Max_mono image_mono) auto

lemma sorted_points: "distinct p \<Longrightarrow> sorted (map (point call p) p)"
  by (auto simp: sorted_iff_nth_mono_less before_nth intro!: point_mono) blast

lemma before_sort_key:
  assumes "distinct p" "i \<in> set p" "j \<in> set p" "g i < g j"
  shows "before (sort_key g p) i j"
proof -
  let ?q = "sort_key g p"
  obtain a b where ab: "a < length ?q" "?q ! a = i" "b < length ?q" "?q ! b = j"
    using assms(2,3) by (metis in_set_conv_nth set_sort)
  have "\<not> b \<le> a" using sorted_nth_mono[of "map g ?q" b a] ab assms(4) by fastforce
  then show ?thesis using ab assms(1) unfolding before_nth[OF distinct_sort[THEN iffD2, OF assms(1)]]
    by (intro exI[of _ a] exI[of _ b]) simp
qed

section \<open>Merging the orders of all keys\<close>

definition keyed :: "(nat \<Rightarrow> 'k) \<Rightarrow> ('s \<Rightarrow> nat \<Rightarrow> 's option) \<Rightarrow> ('k \<Rightarrow> 's) \<Rightarrow> nat \<Rightarrow> ('k \<Rightarrow> 's) option" where
  "keyed key f st i = map_option (\<lambda>t. st(key i := t)) (f (st (key i)) i)"

lemma run_keyed:
  "run (keyed key f) st p = Some st' \<longleftrightarrow> (\<forall>k. run f (st k) (filter (\<lambda>i. key i = k) p) = Some (st' k))"
proof (induction p arbitrary: st)
  case Nil
  show ?case by auto
next
  case (Cons i p)
  show ?case
  proof (cases "f (st (key i)) i")
    case None
    then have "run f (st (key i)) (filter (\<lambda>j. key j = key i) (i # p)) = None" by simp
    then have "\<not> (\<forall>k. run f (st k) (filter (\<lambda>i. key i = k) (i # p)) = Some (st' k))"
      by (intro notI) (drule spec[of _ "key i"], simp)
    with None show ?thesis by (simp add: keyed_def)
  next
    case (Some t)
    then have "run f ((st(key i := t)) k) (filter (\<lambda>i. key i = k) p) = run f (st k) (filter (\<lambda>i. key i = k) (i # p))" for k
      by (cases "key i = k") auto
    with Some show ?thesis using Cons.IH by (simp add: keyed_def)
  qed
qed

lemma run_keyed_defined:
  "run (keyed key f) st p \<noteq> None \<longleftrightarrow> (\<forall>k. run f (st k) (filter (\<lambda>i. key i = k) p) \<noteq> None)"
proof
  assume "\<forall>k. run f (st k) (filter (\<lambda>i. key i = k) p) \<noteq> None"
  then have "\<forall>k. \<exists>t. run f (st k) (filter (\<lambda>i. key i = k) p) = Some t" by auto
  then obtain st' where "\<forall>k. run f (st k) (filter (\<lambda>i. key i = k) p) = Some (st' k)" by metis
  then show "run (keyed key f) st p \<noteq> None" using run_keyed by fastforce
qed (auto simp: run_keyed)

lemma filter_concat_key:
  assumes "distinct ks" "\<forall>k. \<forall>i\<in>set (q k). key i = k"
  shows "filter (\<lambda>i. key i = k) (concat (map q ks)) = (if k \<in> set ks then q k else [])"
  using assms(1)
proof (induction ks)
  case (Cons k' ks)
  have "filter (\<lambda>i. key i = k) (q k') = (if k' = k then q k else [])"
    using assms(2) by (auto simp: filter_empty_conv filter_id_conv)
  with Cons show ?case by auto
qed simp

lemma distinct_filter_keys: "(\<And>k. distinct (filter (\<lambda>i. key i = k) p)) \<Longrightarrow> distinct p"
proof (induction p)
  case (Cons a p)
  have "distinct (filter (\<lambda>i. key i = k) p)" for k using Cons.prems[of k] by (simp split: if_splits)
  moreover have "a \<notin> set p" using Cons.prems[of "key a"] by simp
  ultimately show ?case using Cons.IH by simp
qed simp

theorem linearizable_local:
  assumes I: "finite I" and timed: "\<forall>i\<in>I. call i \<le> ret i"
  shows "(\<exists>p. lin_on call ret (keyed key f) st I p) \<longleftrightarrow>
    (\<forall>k. \<exists>q. lin_on call ret f (st k) {i\<in>I. key i = k} q)"
proof
  assume "\<exists>p. lin_on call ret (keyed key f) st I p"
  then obtain p where p: "lin_on call ret (keyed key f) st I p" by blast
  then have "run f (st k) (filter (\<lambda>i. key i = k) p) \<noteq> None" for k
    using run_keyed_defined[of key f st p] by (simp add: lin_on_def)
  with p have "lin_on call ret f (st k) {i\<in>I. key i = k} (filter (\<lambda>i. key i = k) p)" for k
    by (auto simp: lin_on_def before_filter)
  then show "\<forall>k. \<exists>q. lin_on call ret f (st k) {i\<in>I. key i = k} q" by blast
next
  assume "\<forall>k. \<exists>q. lin_on call ret f (st k) {i\<in>I. key i = k} q"
  then obtain q where q: "\<And>k. lin_on call ret f (st k) {i\<in>I. key i = k} (q k)" by metis
  then have qs: "distinct (q k)" "set (q k) = {i\<in>I. key i = k}" "run f (st k) (q k) \<noteq> None" for k
    by (auto simp: lin_on_def)
  obtain ks where ks: "distinct ks" "set ks = key ` I" using finite_distinct_list[of "key ` I"] I by blast
  define g where "g i = point call (q (key i)) i" for i
  define p where "p = concat (map q ks)"
  have fp: "filter (\<lambda>i. key i = k) p = q k" for k
  proof (cases "k \<in> set ks")
    case True
    then show ?thesis using filter_concat_key[OF ks(1), of q key k] qs(2) unfolding p_def by auto
  next
    case False
    then have "set (q k) = {}" unfolding qs(2)[of k] ks(2) by blast
    then have "q k = []" by simp
    then show ?thesis using False filter_concat_key[OF ks(1), of q key k] qs(2) unfolding p_def by auto
  qed
  have sp: "set p = I" unfolding p_def using ks(2) qs(2) by auto
  have dp: "distinct p"
    by (rule distinct_filter_keys[of key]) (simp add: fp qs(1))
  have "call i \<le> g i" for i unfolding g_def by (rule point_ge)
  moreover have "g i \<le> ret i" if "i \<in> I" for i
    unfolding g_def using point_le[OF q, of i "key i"] timed that by simp
  ultimately have rt: "\<forall>i\<in>I. \<forall>j\<in>I. ret i < call j \<longrightarrow> g i < g j"
    by (meson le_less_trans less_le_trans)
  have "filter (\<lambda>i. key i = k) (sort_key g p) = q k" for k
  proof -
    have "map g (q k) = map (point call (q k)) (q k)" using qs(2)[of k] by (simp add: g_def)
    then have "sorted (map g (q k))" using sorted_points[OF qs(1)[of k], of call] by argo
    then have "sort_key g (q k) = q k" by (rule sort_key_id_if_sorted)
    then show ?thesis by (simp add: filter_sort fp)
  qed
  then have "run (keyed key f) st (sort_key g p) \<noteq> None" unfolding run_keyed_defined using qs(3) by simp
  moreover have "\<forall>i\<in>I. \<forall>j\<in>I. ret i < call j \<longrightarrow> before (sort_key g p) i j"
    using rt before_sort_key[OF dp] sp by blast
  ultimately have "lin_on call ret (keyed key f) st I (sort_key g p)" using dp sp by (simp add: lin_on_def)
  then show "\<exists>p. lin_on call ret (keyed key f) st I p" by blast
qed

end
