(* ===== verification/KvModel.thy ===== *)
theory KvModel
  imports Locality "HOL-Library.Char_ord" "HOL-Library.List_Lexorder"
begin

text \<open>
  The key-value model of \<^verbatim>\<open>models/kv.go\<close>.  The Go values held in \<^verbatim>\<open>interface{}\<close> are the
  type \<open>kv_dyn\<close>, so a failed type assertion is \<open>None\<close>.  The model's state is the value of one
  key; it is sound for the whole store because linearizability is local: a history is
  linearizable for the store iff its restriction to every key is linearizable for the
  single-key model.
\<close>

section \<open>\<^verbatim>\<open>models/kv.go\<close>\<close>

record KvInput =
  Op :: "8 word" \<comment> \<open>0 get, 1 put, 2 append\<close>
  Key :: string
  Value :: string

record KvOutput =
  OutValue :: string

datatype kv_dyn = DInput KvInput | DOutput KvOutput | DOther

fun as_input :: "kv_dyn \<Rightarrow> KvInput option" where
  "as_input (DInput i) = Some i"
| "as_input _ = None"

fun as_output :: "kv_dyn \<Rightarrow> KvOutput option" where
  "as_output (DOutput out) = Some out"
| "as_output _ = None"

text \<open>
  The grouping loop of \<^verbatim>\<open>Partition\<close>: the map and the list of its keys.  Go's iteration order
  over the map is unspecified, but the keys are distinct and sorted afterwards.
\<close>

fun kv_group :: "kv_dyn operation list \<Rightarrow> (string \<rightharpoonup> kv_dyn operation list) \<Rightarrow> string list
    \<Rightarrow> ((string \<rightharpoonup> kv_dyn operation list) \<times> string list) option" where
  "kv_group [] m keys = Some (m, keys)"
| "kv_group (v # history) m keys = do {
     inp \<leftarrow> as_input (Input v);
     (case m (Key inp) of
        None \<Rightarrow> kv_group history (m(Key inp \<mapsto> [v])) (keys @ [Key inp])
      | Some vs \<Rightarrow> kv_group history (m(Key inp \<mapsto> vs @ [v])) keys) }"

definition kv_Partition :: "kv_dyn operation list \<Rightarrow> kv_dyn operation list list option" where
  "kv_Partition history = do {
     (m, keys) \<leftarrow> kv_group history Map.empty [];
     Some (map (\<lambda>k. case m k of None \<Rightarrow> [] | Some vs \<Rightarrow> vs) (sort keys)) }"

definition kv_Init :: string where
  "kv_Init = ''''"

definition kv_Step :: "string \<Rightarrow> kv_dyn \<Rightarrow> kv_dyn \<Rightarrow> (bool \<times> string) option" where
  "kv_Step state inp outp = do {
     inp \<leftarrow> as_input inp;
     outp \<leftarrow> as_output outp;
     if Op inp = 0 then Some (OutValue outp = state, state)
     else if Op inp = 1 then Some (True, Value inp)
     else Some (True, state @ Value inp) }"

definition kv_DescribeOperation :: "kv_dyn \<Rightarrow> kv_dyn \<Rightarrow> string option" where
  "kv_DescribeOperation inp outp = do {
     inp \<leftarrow> as_input inp;
     outp \<leftarrow> as_output outp;
     Some (if Op inp = 0 then ''get('' @ [CHR 0x27] @ Key inp @ [CHR 0x27] @ '') -> '' @ [CHR 0x27] @ OutValue outp @ [CHR 0x27]
           else if Op inp = 1 then ''put('' @ [CHR 0x27] @ Key inp @ [CHR 0x27] @ '', '' @ [CHR 0x27] @ Value inp @ [CHR 0x27] @ '')''
           else if Op inp = 2 then ''append('' @ [CHR 0x27] @ Key inp @ [CHR 0x27] @ '', '' @ [CHR 0x27] @ Value inp @ [CHR 0x27] @ '')''
           else ''<invalid>'') }"

definition KvModel :: "(kv_dyn, string) model" where
  "KvModel = \<lparr>Partition = Some kv_Partition, PartitionEvent = None, Init = kv_Init, Step = kv_Step,
     Equal = None, DescribeOperation = Some kv_DescribeOperation, DescribeState = None\<rparr>"

section \<open>Partition by key\<close>

definition kv_key :: "kv_dyn operation \<Rightarrow> string" where
  "kv_key v = (case as_input (Input v) of Some i \<Rightarrow> Key i | None \<Rightarrow> '''')"

definition kv_typed :: "kv_dyn operation \<Rightarrow> bool" where
  "kv_typed v \<longleftrightarrow> as_input (Input v) \<noteq> None \<and> as_output (Output v) \<noteq> None"

lemma kv_group_ok:
  assumes "\<forall>v\<in>set history. as_input (Input v) \<noteq> None"
    and "\<forall>k. m k = (if k \<in> set keys then Some (filter (\<lambda>v. kv_key v = k) past) else None)"
    and "set keys = kv_key ` set past" "distinct keys"
  shows "\<exists>m' keys'. kv_group history m keys = Some (m', keys') \<and> distinct keys' \<and>
    set keys' = kv_key ` set (past @ history) \<and>
    (\<forall>k\<in>set keys'. m' k = Some (filter (\<lambda>v. kv_key v = k) (past @ history)))"
  using assms
proof (induction history arbitrary: m keys past)
  case Nil
  then show ?case by auto
next
  case (Cons v history)
  then obtain inp where inp: "as_input (Input v) = Some inp" by auto
  then have key: "kv_key v = Key inp" by (simp add: kv_key_def)
  show ?case
  proof (cases "Key inp \<in> set keys")
    case True
    define mi where "mi = m(Key inp \<mapsto> filter (\<lambda>v. kv_key v = Key inp) past @ [v])"
    have st: "kv_group (v # history) m keys = kv_group history mi keys" using True inp Cons.prems(2) by (simp add: mi_def)
    have 1: "\<forall>k. mi k = (if k \<in> set keys then Some (filter (\<lambda>v. kv_key v = k) (past @ [v])) else None)"
      using Cons.prems(2) True key by (auto simp: mi_def)
    have 2: "set keys = kv_key ` set (past @ [v])" using Cons.prems(3) True key by auto
    show ?thesis unfolding st using Cons.IH[OF _ 1 2] Cons.prems(1,4) by simp
  next
    case False
    define mi where "mi = m(Key inp \<mapsto> [v])"
    have st: "kv_group (v # history) m keys = kv_group history mi (keys @ [Key inp])" using False inp Cons.prems(2) by (simp add: mi_def)
    have "filter (\<lambda>v. kv_key v = Key inp) past = []"
      using False unfolding Cons.prems(3) filter_empty_conv by (metis imageI)
    then have 1: "\<forall>k. mi k = (if k \<in> set (keys @ [Key inp]) then Some (filter (\<lambda>v. kv_key v = k) (past @ [v])) else None)"
      using Cons.prems(2) key by (auto simp: mi_def)
    have 2: "set (keys @ [Key inp]) = kv_key ` set (past @ [v])" using Cons.prems(3) key by auto
    show ?thesis unfolding st using Cons.IH[OF _ 1 2] Cons.prems(1,4) False by simp
  qed
qed

lemma kv_Partition_filter:
  assumes "\<forall>v\<in>set history. as_input (Input v) \<noteq> None"
  shows "kv_Partition history =
    Some (map (\<lambda>k. filter (\<lambda>v. kv_key v = k) history) (sorted_list_of_set (kv_key ` set history)))"
proof -
  obtain m keys where g: "kv_group history Map.empty [] = Some (m, keys)" "distinct keys"
      "set keys = kv_key ` set history" "\<forall>k\<in>set keys. m k = Some (filter (\<lambda>v. kv_key v = k) history)"
    using kv_group_ok[of history Map.empty "[]" "[]"] assms by auto
  then have "sorted_list_of_set (kv_key ` set history) = sort keys"
    by (metis distinct_remdups_id sorted_list_of_set_sort_remdups)
  then show ?thesis using g by (simp add: kv_Partition_def)
qed

section \<open>The store and its keys\<close>

text \<open>The specification: one operation on a store of all keys, every key holding the empty string at first.\<close>

definition kv_apply :: "(string \<Rightarrow> string) \<Rightarrow> kv_dyn operation \<Rightarrow> (string \<Rightarrow> string) option" where
  "kv_apply store v = do {
     inp \<leftarrow> as_input (Input v);
     outp \<leftarrow> as_output (Output v);
     if Op inp = 0 then (if OutValue outp = store (Key inp) then Some store else None)
     else if Op inp = 1 then Some (store(Key inp := Value inp))
     else Some (store(Key inp := store (Key inp) @ Value inp)) }"

definition kv_linearizable :: "kv_dyn operation list \<Rightarrow> bool" where
  "kv_linearizable hs = op_linearizable (\<lambda>store i. kv_apply store (hs ! i)) (\<lambda>_. '''') hs"

definition kv_valid :: "kv_dyn operation list \<Rightarrow> bool" where
  "kv_valid hs \<longleftrightarrow> (\<forall>v\<in>set hs. kv_typed v) \<and> well_timed hs \<and> length hs < 2 ^ 64"

lemma KvModel_simps [simp]:
  "Partition KvModel = Some kv_Partition" "Init KvModel = ''''" "Step KvModel = kv_Step" "Equal KvModel = None"
  by (simp_all add: KvModel_def kv_Init_def)

lemma kv_apply_keyed:
  "kv_apply store (hs ! i) = keyed (\<lambda>i. kv_key (hs ! i)) (op_step KvModel hs) store i"
  by (auto simp: kv_apply_def keyed_def op_step_def kv_Step_def kv_key_def split: option.splits bind_splits)

lemma op_linearizable_lin_on:
  "op_linearizable f s hs \<longleftrightarrow> (\<exists>p. lin_on (\<lambda>i. Call (hs ! i)) (\<lambda>i. Return (hs ! i)) f s {..<length hs} p)"
  by (simp add: op_linearizable_def lin_on_def Ball_def)

lemma op_linearizable_filter:
  "op_linearizable (op_step m (filter P hs)) s (filter P hs) \<longleftrightarrow>
    (\<exists>q. lin_on (\<lambda>i. Call (hs ! i)) (\<lambda>i. Return (hs ! i)) (op_step m hs) s {i\<in>{..<length hs}. P (hs ! i)} q)"
proof -
  let ?xs = "filter (\<lambda>i. P (hs ! i)) [0..<length hs]"
  have f: "filter P hs = map ((!) hs) ?xs"
    by (metis (no_types, lifting) comp_apply filter_cong filter_map map_nth)
  have nth: "filter P hs ! i = hs ! (?xs ! i)" if "i < length ?xs" for i unfolding f using that by simp
  have len: "length (filter P hs) = length ?xs" unfolding f by simp
  have eq: "lin_on (\<lambda>i. Call (filter P hs ! i)) (\<lambda>i. Return (filter P hs ! i)) (op_step m (filter P hs)) s {..<length ?xs} p
     \<longleftrightarrow> lin_on (\<lambda>i. Call (hs ! (?xs ! i))) (\<lambda>i. Return (hs ! (?xs ! i))) (\<lambda>s i. op_step m hs s (?xs ! i)) s {..<length ?xs} p" for p
  proof (cases "set p = {..<length ?xs}")
    case True
    have "run (op_step m (filter P hs)) s p = run (\<lambda>s i. op_step m hs s (?xs ! i)) s p"
      using True by (intro run_cong) (simp add: op_step_def nth)
    with True show ?thesis by (simp add: lin_on_def nth)
  qed (simp add: lin_on_def)
  have "set ?xs = {i\<in>{..<length hs}. P (hs ! i)}" by auto
  then show ?thesis
    using lin_on_reindex[of ?xs "\<lambda>i. Call (hs ! i)" "\<lambda>i. Return (hs ! i)" "op_step m hs" s]
    unfolding op_linearizable_lin_on len eq by simp
qed

lemma kv_locality:
  assumes "well_timed hs"
  shows "kv_linearizable hs \<longleftrightarrow> (\<forall>k\<in>kv_key ` set hs.
    op_linearizable (op_step KvModel (filter (\<lambda>v. kv_key v = k) hs)) '''' (filter (\<lambda>v. kv_key v = k) hs))"
proof -
  let ?c = "\<lambda>i. Call (hs ! i)" and ?r = "\<lambda>i. Return (hs ! i)" and ?I = "\<lambda>k. {i\<in>{..<length hs}. kv_key (hs ! i) = k}"
  have t: "\<forall>i\<in>{..<length hs}. ?c i \<le> ?r i" using assms by (simp add: well_timed_def)
  have "kv_linearizable hs \<longleftrightarrow> (\<forall>k. \<exists>q. lin_on ?c ?r (op_step KvModel hs) '''' (?I k) q)"
    unfolding kv_linearizable_def op_linearizable_lin_on kv_apply_keyed
    using linearizable_local[OF _ t, of "\<lambda>i. kv_key (hs ! i)" "op_step KvModel hs" "\<lambda>_. ''''"] by simp
  also have "\<dots> \<longleftrightarrow> (\<forall>k\<in>kv_key ` set hs. \<exists>q. lin_on ?c ?r (op_step KvModel hs) '''' (?I k) q)"
  proof -
    have "\<exists>q. lin_on ?c ?r (op_step KvModel hs) '''' (?I k) q" if "k \<notin> kv_key ` set hs" for k
    proof -
      have "?I k = {}" using that by auto
      then show ?thesis unfolding lin_on_def \<open>?I k = {}\<close> by (intro exI[of _ "[]"]) simp
    qed
    then show ?thesis by blast
  qed
  finally show ?thesis unfolding op_linearizable_filter .
qed

lemma kv_parts:
  assumes "kv_valid hs"
  shows "parts_of KvModel hs =
    Some (map (\<lambda>k. filter (\<lambda>v. kv_key v = k) hs) (sorted_list_of_set (kv_key ` set hs)))"
  using kv_Partition_filter[of hs] assms by (simp add: parts_of_def kv_valid_def kv_typed_def)

lemma kv_Step_defined: "kv_typed v \<Longrightarrow> kv_Step s (Input v) (Output v) \<noteq> None"
  by (auto simp: kv_typed_def kv_Step_def)

lemma kv_checkable:
  assumes "kv_valid hs"
  shows "checkable KvModel (filter P hs)"
proof -
  have "length (filter P hs) < 2 ^ 64"
    using assms length_filter_le[of P hs] unfolding kv_valid_def by linarith
  moreover have "well_timed (filter P hs)" using assms by (simp add: kv_valid_def well_timed_def)
  ultimately show ?thesis using assms kv_Step_defined by (simp add: checkable_def kv_valid_def)
qed

interpretation kv: partition_contract KvModel kv_valid kv_linearizable
proof
  show "sound_equal (fillDefault f g KvModel)" for f g by (rule sound_ShallowEqual) simp
  show "\<exists>parts. parts_of KvModel hs = Some parts \<and> (\<forall>p\<in>set parts. checkable KvModel p)" if "kv_valid hs" for hs
    using kv_parts[OF that] kv_checkable[OF that] by auto
  show "kv_linearizable hs \<longleftrightarrow> (\<forall>p\<in>set parts. op_linearizable (op_step KvModel p) (Init KvModel) p)"
    if "kv_valid hs" "parts_of KvModel hs = Some parts" for hs parts
    using kv_parts[OF that(1)] that kv_locality[of hs] by (auto simp: kv_valid_def)
qed

text \<open>
  \<^bold>\<open>C1\<close>. CheckOperations on KvModel, given a non-empty history of typed key/value operations in which no
  operation returns before its call and no return time equals a call time, returns true exactly when
  the whole history is linearizable, for every order in which the goroutines of the partitions
  deliver their verdicts, although the checker only looks at one key at a time.
\<close>

theorem CheckOperations_KvModel:
  assumes "kv_valid hs" "hs \<noteq> []" "sorts_by_time (env_sort e)"
    and "schedule (card (kv_key ` set hs)) 0 (env_sched e)"
  shows "CheckOperations e showst KvModel hs = Some (kv_linearizable hs)"
  using kv.CheckOperations_spec[OF assms(1) kv_parts[OF assms(1)] assms(3)] assms(2,4) by simp

definition kv_demo :: "kv_dyn operation list" where
  "kv_demo =
   [\<lparr>ClientId = 0, Input = DInput \<lparr>Op = 1, Key = ''x'', Value = ''a''\<rparr>, Call = 0,
     Output = DOutput \<lparr>OutValue = ''''\<rparr>, Return = 10\<rparr>,
    \<lparr>ClientId = 1, Input = DInput \<lparr>Op = 0, Key = ''x'', Value = ''''\<rparr>, Call = 5,
     Output = DOutput \<lparr>OutValue = ''a''\<rparr>, Return = 20\<rparr>]"

definition kv_demo_env :: "kv_dyn env" where
  "kv_demo_env = \<lparr>env_sort = sort_key etime, env_kills = (\<lambda>_ _. False), env_order = id,
     env_sched = [Result 0], env_show = (\<lambda>_. '''')\<rparr>"

lemma sort_key_sorts_by_time: "sorts_by_time (sort_key etime)"
  by (simp add: sorts_by_time_def)

lemma kv_demo_valid: "kv_valid kv_demo" "kv_key ` set kv_demo = {''x''}"
  by (simp_all add: kv_valid_def kv_demo_def kv_typed_def well_timed_def kv_key_def)

theorem CheckOperations_KvModel_witness:
  "kv_valid kv_demo \<and> sorts_by_time (env_sort kv_demo_env) \<and> schedule 1 0 (env_sched kv_demo_env) \<and>
   CheckOperations kv_demo_env id KvModel kv_demo = Some (kv_linearizable kv_demo)"
proof -
  have 1: "sorts_by_time (env_sort kv_demo_env)" by (simp add: kv_demo_env_def sort_key_sorts_by_time)
  have 2: "schedule 1 0 (env_sched kv_demo_env)" by (simp add: kv_demo_env_def schedule_def lessThan_Suc)
  have 3: "kv_demo \<noteq> []" by (simp add: kv_demo_def)
  from CheckOperations_KvModel[OF kv_demo_valid(1) 3 1, of id] 1 2 kv_demo_valid show ?thesis by simp
qed

end
