(* ===== verification/Visualization.thy ===== *)
theory Visualization
  imports Partials KvModel
begin

text \<open>
  \<^verbatim>\<open>porcupine/visualization.go\<close>: the data behind the page that shows a checked history.  A partition
  gives its operations with their times and descriptions, the partial linearizations of the
  search, longest first, with a description of the state after each step, and for every operation the
  number of the longest linearization that has it.

  \<^verbatim>\<open>sort.Slice\<close>, which is not stable, is the argument \<open>sort_slice\<close>, and \<open>nil\<close> is the value that a
  lookup in a map of \<^verbatim>\<open>interface{}\<close> gives for a key that is not there.  A \<open>None\<close> is a panic: an index out of range, a
  panic of a function of the model, or the explicit one for a linearization that the
  model rejects.  \<^verbatim>\<open>json.Marshal\<close> and the template \<^verbatim>\<open>html\<close> are arguments of \<open>Visualize\<close>.
\<close>

section \<open>The data\<close>

record historyElement =
  he_ClientId :: int
  he_Start :: int
  he_End :: int
  he_Description :: string

record linearizationStep =
  ls_Index :: int
  ls_StateDescription :: string

record partitionVisualizationData =
  pv_History :: "historyElement list"
  pv_PartialLinearizations :: "linearizationStep list list"
  pv_Largest :: "int \<rightharpoonup> int"

definition no_element :: historyElement where
  "no_element = \<lparr>he_ClientId = 0, he_Start = 0, he_End = 0, he_Description = []\<rparr>"

text \<open>A lookup in a Go map: the default where the key is missing.\<close>

definition lookup :: "'v \<Rightarrow> (int \<rightharpoonup> 'v) \<Rightarrow> int \<Rightarrow> 'v" where
  "lookup d f k = (case f k of None \<Rightarrow> d | Some v \<Rightarrow> v)"

fun vis_history :: "'v \<Rightarrow> ('v, 's) model \<Rightarrow> 'v entry list \<Rightarrow> historyElement list \<Rightarrow> (int \<rightharpoonup> 'v) \<Rightarrow> (int \<rightharpoonup> 'v)
    \<Rightarrow> (historyElement list \<times> (int \<rightharpoonup> 'v) \<times> (int \<rightharpoonup> 'v)) option" where
  "vis_history nil m [] history callValue returnValue = Some (history, callValue, returnValue)"
| "vis_history nil m (elem # es) history callValue returnValue =
    (case kind elem of
       callEntry \<Rightarrow> do {
         h \<leftarrow> at history (eid elem);
         history \<leftarrow> upd_at history (eid elem) (h\<lparr>he_ClientId := eclientId elem, he_Start := etime elem\<rparr>);
         vis_history nil m es history (callValue(eid elem \<mapsto> evalue elem)) returnValue }
     | returnEntry \<Rightarrow> do {
         h \<leftarrow> at history (eid elem);
         describe \<leftarrow> DescribeOperation m;
         desc \<leftarrow> describe (lookup nil callValue (eid elem)) (evalue elem);
         history \<leftarrow> upd_at history (eid elem) (h\<lparr>he_End := etime elem, he_Description := desc\<rparr>);
         vis_history nil m es history callValue (returnValue(eid elem \<mapsto> evalue elem)) })"

text \<open>The maps \<^verbatim>\<open>largestIndex\<close> and \<^verbatim>\<open>largestSize\<close>.\<close>

type_synonym largest = "(int \<rightharpoonup> int) \<times> (int \<rightharpoonup> int)"

definition note_largest :: "int \<Rightarrow> int \<Rightarrow> int \<Rightarrow> largest \<Rightarrow> largest" where
  "note_largest sz i histId lg =
    (if lookup 0 (snd lg) histId < sz then ((fst lg)(histId \<mapsto> i), (snd lg)(histId \<mapsto> sz)) else lg)"

fun vis_steps :: "'v \<Rightarrow> ('v, 's) model \<Rightarrow> (int \<rightharpoonup> 'v) \<Rightarrow> (int \<rightharpoonup> 'v) \<Rightarrow> int \<Rightarrow> int \<Rightarrow> int list \<Rightarrow> 's \<Rightarrow> largest
    \<Rightarrow> (linearizationStep list \<times> largest) option" where
  "vis_steps nil m callValue returnValue sz i [] state lg = Some ([], lg)"
| "vis_steps nil m callValue returnValue sz i (histId # partial) state lg = do {
     (ok, state) \<leftarrow> Step m state (lookup nil callValue histId) (lookup nil returnValue histId);
     if ok \<noteq> True then None else do {
       describe \<leftarrow> DescribeState m;
       let stateDesc = describe state;
       (steps, lg) \<leftarrow> vis_steps nil m callValue returnValue sz i partial state (note_largest sz i histId lg);
       Some (\<lparr>ls_Index = histId, ls_StateDescription = stateDesc\<rparr> # steps, lg) } }"

fun vis_partials :: "'v \<Rightarrow> ('v, 's) model \<Rightarrow> (int \<rightharpoonup> 'v) \<Rightarrow> (int \<rightharpoonup> 'v) \<Rightarrow> int \<Rightarrow> int list list \<Rightarrow> largest
    \<Rightarrow> (linearizationStep list list \<times> largest) option" where
  "vis_partials nil m callValue returnValue i [] lg = Some ([], lg)"
| "vis_partials nil m callValue returnValue i (partial # parts) lg = do {
     (linearization, lg) \<leftarrow> vis_steps nil m callValue returnValue (int (length partial)) i partial (Init m) lg;
     (linearizations, lg) \<leftarrow> vis_partials nil m callValue returnValue (i + 1) parts lg;
     Some (linearization # linearizations, lg) }"

definition vis_partition :: "(int list list \<Rightarrow> int list list) \<Rightarrow> 'v \<Rightarrow> ('v, 's) model \<Rightarrow> 'v entry list \<Rightarrow> int list list
    \<Rightarrow> partitionVisualizationData option" where
  "vis_partition sort_slice nil m es parts = do {
     let n = length es div 2;
     (history, callValue, returnValue) \<leftarrow> vis_history nil m es (replicate n no_element) Map.empty Map.empty;
     let parts = sort_slice parts;
     (linearizations, largestIndex, largestSize) \<leftarrow> vis_partials nil m callValue returnValue 0 parts (Map.empty, Map.empty);
     Some \<lparr>pv_History = history, pv_PartialLinearizations = linearizations, pv_Largest = largestIndex\<rparr> }"

fun vis_loop :: "(int list list \<Rightarrow> int list list) \<Rightarrow> 'v \<Rightarrow> ('v, 's) model \<Rightarrow> 'v entry list list \<Rightarrow> int list list list
    \<Rightarrow> partitionVisualizationData list option" where
  "vis_loop sort_slice nil m [] parts = Some []"
| "vis_loop sort_slice nil m (es # history) parts =
    (case parts of
       [] \<Rightarrow> None
     | p # parts \<Rightarrow> do {
         d \<leftarrow> vis_partition sort_slice nil m es p;
         data \<leftarrow> vis_loop sort_slice nil m history parts;
         Some (d # data) })"

definition computeVisualizationData :: "(int list list \<Rightarrow> int list list) \<Rightarrow> 'v \<Rightarrow> ('v \<Rightarrow> string) \<Rightarrow> ('s \<Rightarrow> string)
    \<Rightarrow> ('v, 's) model \<Rightarrow> 'v linearizationInfo \<Rightarrow> partitionVisualizationData list option" where
  "computeVisualizationData sort_slice nil showv shows m info =
     vis_loop sort_slice nil (fillDefault showv shows m) (fst info) (snd info)"

text \<open>
  \<^verbatim>\<open>fmt.Fprintf\<close> with a template that has one verb, \<^verbatim>\<open>%s\<close>.  The error of \<^verbatim>\<open>json.Marshal\<close> is
  overwritten by that of the write, so a failure leaves the empty text; \<open>write\<close> is the writer.
\<close>

fun sprintf1 :: "string \<Rightarrow> string \<Rightarrow> string" where
  "sprintf1 [] arg = []"
| "sprintf1 [c] arg = [c]"
| "sprintf1 (c # d # html) arg =
    (if c = CHR ''%'' \<and> d = CHR ''s'' then arg @ html else c # sprintf1 (d # html) arg)"

definition Visualize :: "(int list list \<Rightarrow> int list list) \<Rightarrow> 'v \<Rightarrow> ('v \<Rightarrow> string) \<Rightarrow> ('s \<Rightarrow> string)
    \<Rightarrow> (partitionVisualizationData list \<Rightarrow> string option) \<Rightarrow> string \<Rightarrow> (string \<Rightarrow> 'w \<Rightarrow> string option \<times> 'w)
    \<Rightarrow> ('v, 's) model \<Rightarrow> 'v linearizationInfo \<Rightarrow> 'w \<Rightarrow> (string option \<times> 'w) option" where
  "Visualize sort_slice nil showv shows marshal html write m info output = do {
     data \<leftarrow> computeVisualizationData sort_slice nil showv shows m info;
     let jsonData = (case marshal data of None \<Rightarrow> [] | Some s \<Rightarrow> s);
     Some (write (sprintf1 html jsonData) output) }"

text \<open>\<open>create\<close> opens the file; the error of a failed open is returned and nothing is written.\<close>

definition VisualizePath :: "(int list list \<Rightarrow> int list list) \<Rightarrow> 'v \<Rightarrow> ('v \<Rightarrow> string) \<Rightarrow> ('s \<Rightarrow> string)
    \<Rightarrow> (partitionVisualizationData list \<Rightarrow> string option) \<Rightarrow> string \<Rightarrow> (string \<Rightarrow> 'w \<Rightarrow> string option \<times> 'w)
    \<Rightarrow> (string \<Rightarrow> string + 'w) \<Rightarrow> ('v, 's) model \<Rightarrow> 'v linearizationInfo \<Rightarrow> string \<Rightarrow> (string option \<times> 'w option) option" where
  "VisualizePath sort_slice nil showv shows marshal html write create m info path =
    (case create path of
       Inl err \<Rightarrow> Some (Some err, None)
     | Inr f \<Rightarrow> map_option (\<lambda>(err, w). (err, Some w)) (Visualize sort_slice nil showv shows marshal html write m info f))"


section \<open>The operations\<close>

definition the_entry :: "entryKind \<Rightarrow> 'v entry list \<Rightarrow> nat \<Rightarrow> 'v entry" where
  "the_entry k es i = hd (filter (\<lambda>e. kind e = k \<and> eid e = int i) es)"

lemma op_value_entry: "op_value k es i = evalue (the_entry k es i)"
  by (simp add: op_value_def the_entry_def)

text \<open>An operation is described if the model can print its input and output.\<close>

definition described :: "('v, 's) model \<Rightarrow> 'v entry list \<Rightarrow> nat \<Rightarrow> string \<Rightarrow> bool" where
  "described m es i d \<longleftrightarrow> (\<exists>f. DescribeOperation m = Some f \<and> f (op_value callEntry es i) (op_value returnEntry es i) = Some d)"

definition element_of :: "('v, 's) model \<Rightarrow> 'v entry list \<Rightarrow> event set \<Rightarrow> nat \<Rightarrow> historyElement" where
  "element_of m es seen i =
    \<lparr>he_ClientId = (if (False, i) \<in> seen then eclientId (the_entry callEntry es i) else 0),
     he_Start = (if (False, i) \<in> seen then etime (the_entry callEntry es i) else 0),
     he_End = (if (True, i) \<in> seen then etime (the_entry returnEntry es i) else 0),
     he_Description = (if (True, i) \<in> seen then
        the (the (DescribeOperation m) (op_value callEntry es i) (op_value returnEntry es i)) else [])\<rparr>"

definition values_of :: "bool \<Rightarrow> entryKind \<Rightarrow> 'v entry list \<Rightarrow> event set \<Rightarrow> int \<rightharpoonup> 'v" where
  "values_of r k es seen = (\<lambda>i. if 0 \<le> i \<and> (r, nat i) \<in> seen then Some (op_value k es (nat i)) else None)"

lemma the_entry_unique:
  assumes "wf_entries n es" "e \<in> set es" "kind e = k" "eid e = int i"
  shows "the_entry k es i = e"
proof -
  have d: "inj_on (\<lambda>e. (kind e = returnEntry, nat (eid e))) (set es)"
    using assms(1) by (auto simp: wf_entries_def wf_hist_def hist_def distinct_map)
  have "filter (\<lambda>e. kind e = k \<and> eid e = int i) es \<noteq> []" using assms by (auto simp: filter_empty_conv)
  then have "the_entry k es i \<in> set (filter (\<lambda>e. kind e = k \<and> eid e = int i) es)" unfolding the_entry_def by (rule hd_in_set)
  then have "the_entry k es i \<in> set es" "kind (the_entry k es i) = k" "eid (the_entry k es i) = int i" by auto
  with inj_onD[OF d _ this(1) assms(2)] assms(3,4) show ?thesis by simp
qed

lemma element_of_other: "snd ev \<noteq> j \<Longrightarrow> element_of m es (insert ev S) j = element_of m es S j"
  by (cases ev) (auto simp: element_of_def)

lemma hist_Nil: "hist [] = []"
  by (simp add: hist_def)

lemma hist_snoc: "hist (xs @ [e]) = hist xs @ [(kind e = returnEntry, nat (eid e))]"
  by (simp add: hist_def)

lemma vis_history_ok:
  assumes w: "wf_entries n es" and d: "\<forall>i<n. \<exists>s. described m es i s"
  shows "es = xs @ ys \<Longrightarrow> vis_history nil m ys (map (element_of m es (set (hist xs))) [0..<n])
      (values_of False callEntry es (set (hist xs))) (values_of True returnEntry es (set (hist xs))) =
    Some (map (element_of m es (set (hist es))) [0..<n], values_of False callEntry es (set (hist es)),
      values_of True returnEntry es (set (hist es)))"
proof (induction ys arbitrary: xs)
  case (Cons e ys)
  have e: "e \<in> set es" using Cons.prems by simp
  then obtain i where i: "eid e = int i" using w by (metis wf_entries_def int_nat_eq)
  have H: "hist es = hist xs @ (kind e = returnEntry, i) # hist ys" using Cons.prems i by (simp add: hist_def)
  then have lt: "i < n" using w by (auto simp: wf_entries_def wf_hist_def)
  have dist: "distinct (hist es)" using w by (simp add: wf_entries_def wf_hist_def)
  note IH = Cons.IH[of "xs @ [e]"]
  have ent: "the_entry (kind e) es i = e" using the_entry_unique[OF w e _ i] by simp
  have cell: "map (element_of m es (insert ev (set (hist xs)))) [0..<n] =
      (map (element_of m es (set (hist xs))) [0..<n])[i := element_of m es (insert ev (set (hist xs))) i]"
    if "snd ev = i" for ev
    using that lt by (intro nth_equalityI) (auto simp: nth_list_update element_of_other)
  show ?case
  proof (cases "kind e")
    case callEntry
    have "(True, i) \<notin> set (hist xs)"
    proof
      assume "(True, i) \<in> set (hist xs)"
      then have "before (hist es) (True, i) (False, i)" unfolding H using callEntry by (intro before_append_right) auto
      then show False using wf_hist_no_self w by (auto simp: wf_entries_def)
    qed
    then have "element_of m es (insert (False, i) (set (hist xs))) i =
        (element_of m es (set (hist xs)) i)\<lparr>he_ClientId := eclientId e, he_Start := etime e\<rparr>"
      using ent callEntry by (simp add: element_of_def)
    moreover have "values_of False callEntry es (insert (False, i) (set (hist xs))) =
        (values_of False callEntry es (set (hist xs)))(int i \<mapsto> evalue e)"
      "values_of True returnEntry es (insert (False, i) (set (hist xs))) = values_of True returnEntry es (set (hist xs))"
      using ent callEntry by (auto simp: values_of_def op_value_entry fun_eq_iff)
    ultimately show ?thesis using IH Cons.prems lt callEntry i cell[of "(False, i)"]
      by (simp add: hist_snoc at_def upd_at_def fun_upd_def)
  next
    case returnEntry
    have call: "(False, i) \<in> set (hist xs)"
      using w lt dist returnEntry H before_split[of "hist xs" "(True, i)" "hist ys" "(False, i)"]
      by (simp add: wf_entries_def wf_hist_def)
    obtain f s where f: "DescribeOperation m = Some f" "f (op_value callEntry es i) (op_value returnEntry es i) = Some s"
      using d lt unfolding described_def by blast
    have "element_of m es (insert (True, i) (set (hist xs))) i =
        (element_of m es (set (hist xs)) i)\<lparr>he_End := etime e, he_Description := s\<rparr>"
      using ent returnEntry f by (simp add: element_of_def)
    moreover have "values_of True returnEntry es (insert (True, i) (set (hist xs))) =
        (values_of True returnEntry es (set (hist xs)))(int i \<mapsto> evalue e)"
      "values_of False callEntry es (insert (True, i) (set (hist xs))) = values_of False callEntry es (set (hist xs))"
      using ent returnEntry by (auto simp: values_of_def op_value_entry fun_eq_iff)
    moreover have "lookup nil (values_of False callEntry es (set (hist xs))) (int i) = op_value callEntry es i"
      "evalue e = op_value returnEntry es i"
      using call ent returnEntry by (simp_all add: lookup_def values_of_def op_value_entry)
    ultimately show ?thesis using IH Cons.prems lt returnEntry i f cell[of "(True, i)"]
      by (simp add: hist_snoc at_def upd_at_def fun_upd_def)
  qed
qed simp


section \<open>The linearizations\<close>

definition shown_steps :: "('v, 's) model \<Rightarrow> 'v entry list \<Rightarrow> 's \<Rightarrow> int list \<Rightarrow> linearizationStep list" where
  "shown_steps m es s ids = map (\<lambda>j. \<lparr>ls_Index = ids ! j, ls_StateDescription =
     the (DescribeState m) (the (run (model_step m es) s (map nat (take (Suc j) ids))))\<rparr>) [0..<length ids]"

lemma shown_steps_Cons:
  assumes "model_step m es s (nat i) = Some t"
  shows "shown_steps m es s (i # ids) =
    \<lparr>ls_Index = i, ls_StateDescription = the (DescribeState m) t\<rparr> # shown_steps m es t ids"
  unfolding shown_steps_def length_Cons map_upt_Suc using assms by simp

lemma vis_steps_ok:
  assumes d: "DescribeState m \<noteq> None"
    and v: "\<forall>i\<in>set ids. lookup nil cv i = op_value callEntry es (nat i) \<and> lookup nil rv i = op_value returnEntry es (nat i)"
    and r: "run (model_step m es) s (map nat ids) \<noteq> None"
  shows "vis_steps nil m cv rv sz k ids s lg = Some (shown_steps m es s ids, fold (note_largest sz k) ids lg)"
  using v r
proof (induction ids arbitrary: s lg)
  case (Cons i ids)
  obtain t where t: "model_step m es s (nat i) = Some t" "run (model_step m es) t (map nat ids) \<noteq> None"
    using Cons.prems(2) by (cases "model_step m es s (nat i)") auto
  then have "Step m s (op_value callEntry es (nat i)) (op_value returnEntry es (nat i)) = Some (True, t)"
    by (auto simp: model_step_def split: option.splits bool.splits prod.splits)
  then show ?case using Cons.IH[OF _ t(2)] Cons.prems(1) d shown_steps_Cons[OF t(1)] by (auto simp: Let_def)
qed (simp add: shown_steps_def)

text \<open>After some linearizations, the maps hold for each operation the first of the longest that has it.\<close>

definition largest_ok :: "int list list \<Rightarrow> largest \<Rightarrow> bool" where
  "largest_ok ps lg \<longleftrightarrow> (\<forall>i. if \<exists>p\<in>set ps. i \<in> set p
     then \<exists>j<length ps. fst lg i = Some (int j) \<and> snd lg i = Some (int (length (ps ! j))) \<and> i \<in> set (ps ! j) \<and>
       (\<forall>p\<in>set ps. i \<in> set p \<longrightarrow> length p \<le> length (ps ! j))
     else fst lg i = None \<and> snd lg i = None)"

lemma note_largest_fold:
  "fst (fold (note_largest sz k) ids lg) i =
     (if i \<in> set ids \<and> lookup 0 (snd lg) i < sz then Some k else fst lg i)"
  "snd (fold (note_largest sz k) ids lg) i =
     (if i \<in> set ids \<and> lookup 0 (snd lg) i < sz then Some sz else snd lg i)"
  by (induction ids arbitrary: lg) (auto simp: note_largest_def lookup_def split: option.splits)

lemma largest_ok_step:
  assumes "largest_ok ps lg"
  shows "largest_ok (ps @ [p]) (fold (note_largest (int (length p)) (int (length ps))) p lg)"
  unfolding largest_ok_def
proof
  fix i
  have pos: "i \<in> set p \<Longrightarrow> 0 < length p" by auto
  note lg = assms[unfolded largest_ok_def, rule_format, of i]
  let ?lg = "fold (note_largest (int (length p)) (int (length ps))) p lg"
  show "if \<exists>q\<in>set (ps @ [p]). i \<in> set q
     then \<exists>j<length (ps @ [p]). fst ?lg i = Some (int j) \<and> snd ?lg i = Some (int (length ((ps @ [p]) ! j))) \<and>
       i \<in> set ((ps @ [p]) ! j) \<and> (\<forall>q\<in>set (ps @ [p]). i \<in> set q \<longrightarrow> length q \<le> length ((ps @ [p]) ! j))
     else fst ?lg i = None \<and> snd ?lg i = None"
  proof (cases "\<exists>q\<in>set ps. i \<in> set q")
    case True
    then obtain j where j: "j < length ps" "fst lg i = Some (int j)" "snd lg i = Some (int (length (ps ! j)))"
        "i \<in> set (ps ! j)" "\<forall>q\<in>set ps. i \<in> set q \<longrightarrow> length q \<le> length (ps ! j)"
      using lg by auto
    show ?thesis
    proof (cases "i \<in> set p \<and> length (ps ! j) < length p")
      case new: True
      have "\<exists>j'<length (ps @ [p]). fst ?lg i = Some (int j') \<and> snd ?lg i = Some (int (length ((ps @ [p]) ! j'))) \<and>
         i \<in> set ((ps @ [p]) ! j') \<and> (\<forall>q\<in>set (ps @ [p]). i \<in> set q \<longrightarrow> length q \<le> length ((ps @ [p]) ! j'))"
        using new j by (intro exI[of _ "length ps"]) (auto simp: note_largest_fold lookup_def)
      with True show ?thesis by simp
    next
      case False
      have "\<exists>j'<length (ps @ [p]). fst ?lg i = Some (int j') \<and> snd ?lg i = Some (int (length ((ps @ [p]) ! j'))) \<and>
         i \<in> set ((ps @ [p]) ! j') \<and> (\<forall>q\<in>set (ps @ [p]). i \<in> set q \<longrightarrow> length q \<le> length ((ps @ [p]) ! j'))"
        using False j by (intro exI[of _ j]) (auto simp: note_largest_fold lookup_def nth_append)
      with True show ?thesis by simp
    qed
  next
    case none: False
    then have "fst lg i = None" "snd lg i = None" using lg by auto
    then show ?thesis using none pos
      by (cases "i \<in> set p") (auto simp: note_largest_fold lookup_def nth_append intro!: exI[of _ "length ps"])
  qed
qed

lemma vis_partials_ok:
  assumes d: "DescribeState m \<noteq> None"
    and v: "\<forall>i. 0 \<le> i \<and> i < int n \<longrightarrow> lookup nil cv i = op_value callEntry es (nat i) \<and> lookup nil rv i = op_value returnEntry es (nat i)"
  shows "largest_ok qs lg \<Longrightarrow> \<forall>ids\<in>set ps. good_seq m es n ids \<Longrightarrow>
    \<exists>lg'. vis_partials nil m cv rv (int (length qs)) ps lg = Some (map (shown_steps m es (Init m)) ps, lg') \<and> largest_ok (qs @ ps) lg'"
proof (induction ps arbitrary: qs lg)
  case (Cons ids ps)
  have g: "good_seq m es n ids" using Cons.prems(2) by simp
  then have "\<forall>i\<in>set ids. 0 \<le> i \<and> i < int n" by (force simp: good_seq_def partial_lin_def)
  then have "vis_steps nil m cv rv (int (length ids)) (int (length qs)) ids (Init m) lg =
      Some (shown_steps m es (Init m) ids, fold (note_largest (int (length ids)) (int (length qs))) ids lg)"
    using v g by (intro vis_steps_ok[OF d]) (auto simp: good_seq_def partial_lin_def)
  moreover obtain lg' where "vis_partials nil m cv rv (int (length (qs @ [ids]))) ps (fold (note_largest (int (length ids)) (int (length qs))) ids lg) =
      Some (map (shown_steps m es (Init m)) ps, lg')" "largest_ok ((qs @ [ids]) @ ps) lg'"
    using Cons.IH[OF largest_ok_step[OF Cons.prems(1), of ids]] Cons.prems(2) by auto
  ultimately show ?case by (simp add: add.commute)
qed simp

section \<open>The page\<close>

text \<open>What the data of one partition must be.\<close>

definition shows_partition :: "('v, 's) model \<Rightarrow> 'v entry list \<Rightarrow> int list list \<Rightarrow> partitionVisualizationData \<Rightarrow> bool" where
  "shows_partition m es ps d \<longleftrightarrow>
     pv_History d = map (\<lambda>i. \<lparr>he_ClientId = eclientId (the_entry callEntry es i), he_Start = etime (the_entry callEntry es i),
       he_End = etime (the_entry returnEntry es i),
       he_Description = the (the (DescribeOperation m) (op_value callEntry es i) (op_value returnEntry es i))\<rparr>)
       [0..<length es div 2] \<and>
     pv_PartialLinearizations d = map (shown_steps m es (Init m)) ps \<and>
     dom (pv_Largest d) = (\<Union>p\<in>set ps. set p) \<and>
     (\<forall>i j. pv_Largest d i = Some j \<longrightarrow> 0 \<le> j \<and> j < int (length ps) \<and> i \<in> set (ps ! nat j) \<and>
        (\<forall>p\<in>set ps. i \<in> set p \<longrightarrow> length p \<le> length (ps ! nat j)))"

lemma largest_ok_dom:
  assumes "largest_ok ps lg"
  shows "dom (fst lg) = (\<Union>p\<in>set ps. set p)"
    "fst lg i = Some j \<Longrightarrow> 0 \<le> j \<and> j < int (length ps) \<and> i \<in> set (ps ! nat j) \<and>
        (\<forall>p\<in>set ps. i \<in> set p \<longrightarrow> length p \<le> length (ps ! nat j))"
proof -
  show "dom (fst lg) = (\<Union>p\<in>set ps. set p)"
  proof (intro set_eqI)
    fix i show "i \<in> dom (fst lg) \<longleftrightarrow> i \<in> (\<Union>p\<in>set ps. set p)"
      using assms[unfolded largest_ok_def, rule_format, of i] by (auto split: if_splits)
  qed
  show "fst lg i = Some j \<Longrightarrow> 0 \<le> j \<and> j < int (length ps) \<and> i \<in> set (ps ! nat j) \<and>
        (\<forall>p\<in>set ps. i \<in> set p \<longrightarrow> length p \<le> length (ps ! nat j))"
    using assms[unfolded largest_ok_def, rule_format, of i] by (auto split: if_splits)
qed

lemma vis_partition_ok:
  assumes g: "good_entries m es" and ds: "\<forall>i<length es div 2. \<exists>s. described m es i s" and st: "DescribeState m \<noteq> None"
    and ps: "\<forall>ids\<in>set ps. good_seq m es (length es div 2) ids" and so: "\<And>xs. set (sort_slice xs) = set xs"
  shows "\<exists>d. vis_partition sort_slice nil m es ps = Some d \<and> shows_partition m es (sort_slice ps) d"
proof -
  let ?n = "length es div 2"
  have w: "wf_entries ?n es" using g by (simp add: good_entries_def)
  then have H: "set (hist es) = UNIV \<times> {..<?n}" by (simp add: wf_entries_def wf_hist_def)
  have "replicate ?n no_element = map (element_of m es {}) [0..<?n]"
    by (intro nth_equalityI) (auto simp: element_of_def no_element_def)
  moreover have "values_of False callEntry es {} = Map.empty" "values_of True returnEntry es {} = Map.empty"
    by (auto simp: values_of_def)
  ultimately have "vis_history nil m es (replicate ?n no_element) Map.empty Map.empty =
      Some (map (element_of m es (set (hist es))) [0..<?n], values_of False callEntry es (set (hist es)), values_of True returnEntry es (set (hist es)))"
    using vis_history_ok[OF w ds, of "[]" es nil] by (simp add: hist_Nil)
  moreover have "\<forall>i. 0 \<le> i \<and> i < int ?n \<longrightarrow> lookup nil (values_of False callEntry es (set (hist es))) i = op_value callEntry es (nat i) \<and>
      lookup nil (values_of True returnEntry es (set (hist es))) i = op_value returnEntry es (nat i)"
    using H by (auto simp: lookup_def values_of_def nat_less_iff)
  note vp = vis_partials_ok[OF st this, of "[]" "(Map.empty, Map.empty)" "sort_slice ps"]
  obtain lg where "vis_partials nil m (values_of False callEntry es (set (hist es))) (values_of True returnEntry es (set (hist es))) 0
      (sort_slice ps) (Map.empty, Map.empty) = Some (map (shown_steps m es (Init m)) (sort_slice ps), lg)" "largest_ok (sort_slice ps) lg"
    using vp ps so by (auto simp: largest_ok_def)
  moreover have "map (element_of m es (set (hist es))) [0..<?n] = map (\<lambda>i. \<lparr>he_ClientId = eclientId (the_entry callEntry es i), he_Start = etime (the_entry callEntry es i),
       he_End = etime (the_entry returnEntry es i),
       he_Description = the (the (DescribeOperation m) (op_value callEntry es i) (op_value returnEntry es i))\<rparr>) [0..<?n]"
    unfolding H by (simp add: element_of_def)
  ultimately show ?thesis using largest_ok_dom[of "sort_slice ps" lg]
    by (cases lg) (simp add: vis_partition_def shows_partition_def Let_def)
qed

lemma vis_loop_ok:
  assumes so: "\<And>xs. set (sort_slice xs) = set xs" and st: "DescribeState m \<noteq> None"
  shows "\<forall>es\<in>set history. good_entries m es \<Longrightarrow> \<forall>es\<in>set history. \<forall>i<length es div 2. \<exists>s. described m es i s \<Longrightarrow>
    info_good m (history, parts) \<Longrightarrow>
    \<exists>data. vis_loop sort_slice nil m history parts = Some data \<and> length data = length history \<and>
      (\<forall>k<length history. shows_partition m (history ! k) (sort_slice (parts ! k)) (data ! k))"
proof (induction history arbitrary: parts)
  case (Cons es history)
  obtain p ps where parts: "parts = p # ps" using Cons.prems(3) by (cases parts) (auto simp: info_good_def)
  have k: "(\<forall>k<length (es # history). P k) \<longleftrightarrow> P 0 \<and> (\<forall>k<length history. P (Suc k))" for P
    by (auto simp: less_Suc_eq_0_disj)
  have "info_good m (history, ps)" "\<forall>ids\<in>set p. good_seq m es (length es div 2) ids"
    using Cons.prems(3) unfolding info_good_def parts fst_conv snd_conv k by simp_all
  then obtain data d where "vis_loop sort_slice nil m history ps = Some data" "length data = length history"
      "\<forall>k<length history. shows_partition m (history ! k) (sort_slice (ps ! k)) (data ! k)"
      "vis_partition sort_slice nil m es p = Some d" "shows_partition m es (sort_slice p) d"
    using Cons.IH[of ps] Cons.prems(1,2) vis_partition_ok[OF _ _ st _ so, of es p nil] by auto
  then show ?case unfolding k by (simp add: parts)
qed simp

text \<open>The same in terms of operations.\<close>

definition op_partial :: "('v, 's) model \<Rightarrow> 'v operation list \<Rightarrow> nat list \<Rightarrow> bool" where
  "op_partial m hs p \<longleftrightarrow> distinct p \<and> set p \<subseteq> {..<length hs} \<and> run (op_step m hs) (Init m) p \<noteq> None \<and>
     (\<forall>i\<in>set p. \<forall>j<length hs. Return (hs ! j) < Call (hs ! i) \<longrightarrow> before p j i)"

text \<open>
  The page of a list of operations: a row for each operation, and linearizations that
  the model accepts and that respect the order of operations that do not overlap; an operation is
  linked exactly when some linearization shown has it, and then to a longest of those that do.  On the
  page of an accepted list every operation is linked to a linearization of all of them.
\<close>

definition shows_ops :: "('v, 's) model \<Rightarrow> 'v operation list \<Rightarrow> partitionVisualizationData \<Rightarrow> bool" where
  "shows_ops m hs d \<longleftrightarrow>
     pv_History d = map (\<lambda>v. \<lparr>he_ClientId = ClientId v, he_Start = Call v, he_End = Return v,
       he_Description = the (the (DescribeOperation m) (Input v) (Output v))\<rparr>) hs \<and>
     (\<forall>steps\<in>set (pv_PartialLinearizations d). op_partial m hs (map (\<lambda>s. nat (ls_Index s)) steps)) \<and>
     dom (pv_Largest d) = (\<Union>steps\<in>set (pv_PartialLinearizations d). ls_Index ` set steps) \<and>
     (\<forall>i j. pv_Largest d i = Some j \<longrightarrow> 0 \<le> j \<and> j < int (length (pv_PartialLinearizations d)) \<and>
        i \<in> ls_Index ` set (pv_PartialLinearizations d ! nat j) \<and>
        (\<forall>steps\<in>set (pv_PartialLinearizations d). i \<in> ls_Index ` set steps \<longrightarrow>
           length steps \<le> length (pv_PartialLinearizations d ! nat j)))"

definition shows_all :: "'v operation list \<Rightarrow> partitionVisualizationData \<Rightarrow> bool" where
  "shows_all hs d \<longleftrightarrow> (\<forall>i<length hs. \<exists>j. pv_Largest d (int i) = Some j \<and> length (pv_PartialLinearizations d ! nat j) = length hs)"

lemma shown_steps_simps [simp]: "length (shown_steps m es s ids) = length ids" "map ls_Index (shown_steps m es s ids) = ids"
  by (auto simp: shown_steps_def intro: nth_equalityI)

lemma shown_steps_Index [simp]: "ls_Index ` set (shown_steps m es s ids) = set ids"
  by (metis list.set_map shown_steps_simps(2))

lemma the_entry_makeEntries:
  assumes "sorts_by_time sort_fn" "i < length hs"
  shows "the_entry k (makeEntries sort_fn hs) i = entry_of hs (k = returnEntry) i"
proof -
  have "set (filter (\<lambda>e. kind e = k \<and> eid e = int i) (makeEntries sort_fn hs)) = {entry_of hs (k = returnEntry) i}"
    unfolding set_filter makeEntries_facts(1)[OF assms(1)] using assms(2) by (cases k) (auto simp: entry_of_def Let_def image_iff)
  then show ?thesis unfolding the_entry_def by (rule hd_singleton_set)
qed

lemma partial_lin_ops:
  assumes "sorts_by_time sort_fn" "well_timed hs" "partial_lin m (makeEntries sort_fn hs) (length hs) p"
  shows "op_partial m hs p"
proof -
  have p: "set p \<subseteq> {..<length hs}" using assms(3) by (simp add: partial_lin_def)
  then have "run (model_step m (makeEntries sort_fn hs)) (Init m) p = run (op_step m hs) (Init m) p"
    by (intro run_cong) (auto simp: model_step_def op_step_def makeEntries_value[OF assms(1)])
  with assms(3) show ?thesis unfolding partial_lin_def op_partial_def
    using makeEntries_before(1)[OF assms(1,2)] p by auto
qed

lemma shows_partition_ops:
  assumes so: "sorts_by_time sort_fn" and w: "well_timed hs" and s: "shows_partition m (makeEntries sort_fn hs) ps d"
    and ps: "\<forall>ids\<in>set ps. good_seq m (makeEntries sort_fn hs) (length hs) ids"
  shows "shows_ops m hs d"
proof -
  let ?es = "makeEntries sort_fn hs"
  have n: "length ?es div 2 = length hs" using makeEntries_facts(4)[OF so, of hs] by simp
  have "pv_History d = map (\<lambda>v. \<lparr>he_ClientId = ClientId v, he_Start = Call v, he_End = Return v,
       he_Description = the (the (DescribeOperation m) (Input v) (Output v))\<rparr>) hs"
    using s unfolding shows_partition_def n
    by (auto intro!: nth_equalityI simp: the_entry_makeEntries[OF so] makeEntries_value[OF so] entry_of_def Let_def)
  moreover have l: "pv_PartialLinearizations d = map (shown_steps m ?es (Init m)) ps" using s by (simp add: shows_partition_def)
  moreover have "op_partial m hs (map (\<lambda>s. nat (ls_Index s)) (shown_steps m ?es (Init m) ids))" if "ids \<in> set ps" for ids
  proof -
    have "map (\<lambda>s. nat (ls_Index s)) (shown_steps m ?es (Init m) ids) = map nat ids"
      by (metis (no_types, lifting) list.map_comp comp_apply map_eq_conv shown_steps_simps(2))
    then show ?thesis using ps that partial_lin_ops[OF so w] unfolding good_seq_def by auto
  qed
  moreover have "dom (pv_Largest d) = (\<Union>p\<in>set ps. set p)" using s by (simp add: shows_partition_def)
  moreover have "\<forall>i j. pv_Largest d i = Some j \<longrightarrow> 0 \<le> j \<and> j < int (length ps) \<and> i \<in> set (ps ! nat j) \<and>
        (\<forall>p\<in>set ps. i \<in> set p \<longrightarrow> length p \<le> length (ps ! nat j))"
    using s by (simp add: shows_partition_def)
  ultimately show ?thesis unfolding shows_ops_def by (auto simp: nat_less_iff)
qed

lemma shows_partition_all:
  assumes s: "shows_partition m es ps d" and ps: "\<forall>ids\<in>set ps. good_seq m es (length hs) ids"
    and f: "0 < length hs \<Longrightarrow> \<exists>ids\<in>set ps. full_seq (length hs) ids"
  shows "shows_all hs d"
  unfolding shows_all_def
proof (intro allI impI)
  fix i assume i: "i < length hs"
  then obtain ids where ids: "ids \<in> set ps" "length ids = length hs" "int i \<in> set ids"
    using f unfolding full_seq_def by (metis gr_zeroI not_less0)
  then have "int i \<in> dom (pv_Largest d)" using s by (auto simp: shows_partition_def)
  then obtain j where j: "pv_Largest d (int i) = Some j" by auto
  then have *: "0 \<le> j" "j < int (length ps)" "length ids \<le> length (ps ! nat j)"
    using s ids(1,3) unfolding shows_partition_def by blast+
  then have "ps ! nat j \<in> set ps" by (simp add: nat_less_iff)
  then have "distinct (map nat (ps ! nat j))" "set (map nat (ps ! nat j)) \<subseteq> {..<length hs}"
    using ps by (auto simp: good_seq_def partial_lin_def)
  then have "length (ps ! nat j) \<le> length hs"
    by (metis card_lessThan card_mono distinct_card finite_lessThan length_map)
  with j * ids(2) s show "\<exists>j. pv_Largest d (int i) = Some j \<and> length (pv_PartialLinearizations d ! nat j) = length hs"
    by (auto simp: shows_partition_def nat_less_iff)
qed

text \<open>A model whose operations can be printed.\<close>

locale described_contract = partition_contract +
  assumes ops_described: "valid hs \<Longrightarrow> parts_of m hs = Some parts \<Longrightarrow> p \<in> set parts \<Longrightarrow> v \<in> set p \<Longrightarrow>
    \<exists>f s. DescribeOperation (fillDefault showv shows m) = Some f \<and> f (Input v) (Output v) = Some s"
begin

lemma visualization_spec:
  assumes v: "valid hs" "parts_of m hs = Some parts" and so: "sorts_by_time (env_sort e)"
    and sc: "schedule (length parts) timeout (env_sched e)" and ne: "parts \<noteq> [] \<or> Timer \<in> set (env_sched e)"
    and o: "\<And>xs. set (env_order e xs) = set xs" and sl: "\<And>xs. set (sort_slice xs) = set xs"
  shows "\<exists>res info data. CheckOperationsVerbose e showst m hs timeout = Some (res, info) \<and>
    (res = Ok \<longrightarrow> spec hs) \<and> (res = Illegal \<longrightarrow> \<not> spec hs) \<and>
    computeVisualizationData sort_slice nil (env_show e) showst m info = Some data \<and> length data = length parts \<and>
    (\<forall>k<length parts. shows_ops (fillDefault (env_show e) showst m) (parts ! k) (data ! k)) \<and>
    (res = Ok \<longrightarrow> (\<forall>k<length parts. shows_all (parts ! k) (data ! k)))"
proof -
  let ?m = "fillDefault (env_show e) showst m" and ?l = "map (makeEntries (env_sort e)) parts"
  have c: "checkable ?m p" if "p \<in> set parts" for p using parts_defined[OF v(1)] v(2) that by (auto simp: checkable_def)
  then have g: "\<forall>es\<in>set ?l. good_entries ?m es" by (auto intro: makeEntries_good[OF so])
  have n: "length (makeEntries (env_sort e) p) div 2 = length p" for p using makeEntries_facts(4)[OF so, of p] by simp
  have ds: "\<forall>es\<in>set ?l. \<forall>i<length es div 2. \<exists>s. described ?m es i s"
    using ops_described[OF v] nth_mem by (fastforce simp: n described_def makeEntries_value[OF so])
  obtain res info where r: "checkOperations e showst m hs True timeout = Some (res, info)"
      "res = Ok \<longrightarrow> spec hs" "res = Illegal \<longrightarrow> \<not> spec hs"
    using checkOperations_spec[OF v so sc ne, of showst True] by blast
  have "checkOperations e showst m hs True timeout =
      checkParallel (env_kills e) (env_order e) (env_sched e) ?m ?l True timeout"
    using v(2) by (auto simp: checkOperations_def parts_of_def Let_def split: option.splits)
  then have cp: "checkParallel (env_kills e) (env_order e) (env_sched e) ?m ?l True timeout = Some (res, info)" using r(1) by simp
  from checkParallel_info[OF g equal_sound o this] obtain ps where info: "info = (?l, ps)" "info_good ?m (?l, ps)"
    by (cases info) auto
  have "DescribeState ?m \<noteq> None" by (auto simp: fillDefault_def Let_def)
  from vis_loop_ok[OF sl this g ds info(2), of nil] obtain data where d: "vis_loop sort_slice nil ?m ?l ps = Some data"
      "length data = length parts" "\<forall>k<length parts. shows_partition ?m (makeEntries (env_sort e) (parts ! k)) (sort_slice (ps ! k)) (data ! k)"
    by auto
  have "shows_ops ?m (parts ! k) (data ! k) \<and> (res = Ok \<longrightarrow> shows_all (parts ! k) (data ! k))" if k: "k < length parts" for k
  proof (intro conjI impI)
    have w: "well_timed (parts ! k)" using c[OF nth_mem[OF k]] by (simp add: checkable_def)
    have s: "shows_partition ?m (makeEntries (env_sort e) (parts ! k)) (sort_slice (ps ! k)) (data ! k)" using d(3) k by blast
    have gs: "\<forall>ids\<in>set (sort_slice (ps ! k)). good_seq ?m (makeEntries (env_sort e) (parts ! k)) (length (parts ! k)) ids"
      using info(2) k by (simp add: info_good_def sl n)
    show "shows_ops ?m (parts ! k) (data ! k)" by (rule shows_partition_ops[OF so w s gs])
    assume "res = Ok"
    with checkParallel_full[OF g equal_sound o _ _ cp[unfolded \<open>res = Ok\<close>], of k] sc ne k
    have "0 < length (parts ! k) \<Longrightarrow> \<exists>ids\<in>set (ps ! k). full_seq (length (parts ! k)) ids" by (simp add: info(1) n)
    then show "shows_all (parts ! k) (data ! k)" by (intro shows_partition_all[OF s gs]) (simp add: sl)
  qed
  then show ?thesis using r d(1,2) info(1) by (simp add: CheckOperationsVerbose_def computeVisualizationData_def)
qed

end

interpretation kv_vis: described_contract KvModel kv_valid kv_linearizable
proof
  fix hs parts p v and showv :: "kv_dyn \<Rightarrow> string" and showst :: "string \<Rightarrow> string"
  assume "kv_valid hs" "parts_of KvModel hs = Some parts" "p \<in> set parts" "v \<in> set p"
  then have "kv_typed v" using kv_parts[of hs] by (auto simp: kv_valid_def)
  then show "\<exists>f s. DescribeOperation (fillDefault showv showst KvModel) = Some f \<and> f (Input v) (Output v) = Some s"
    by (auto simp: kv_typed_def fillDefault_def Let_def KvModel_def kv_DescribeOperation_def)
qed

text \<open>
  \<^bold>\<open>C9\<close>. On every non-empty history of typed key/value operations in which no return time equals a call
  time, CheckOperationsVerbose returns with a verdict that is right when it is Ok or Illegal, and
  computeVisualizationData on its result does not panic, also after a timeout: for each key every
  operation gets its row, every partial linearization shown is accepted by the model and respects
  the order of operations that do not overlap, and an operation is linked exactly when it occurs in
  a linearization shown, and then to a longest of those that have it. When the verdict is Ok, every
  operation is linked to a linearization of all operations of its key.
\<close>

theorem kv_visualization:
  assumes "kv_valid hs" "hs \<noteq> []" "sorts_by_time (env_sort e)"
    and "schedule (card (kv_key ` set hs)) timeout (env_sched e)"
    and "\<And>xs. set (env_order e xs) = set xs" "\<And>xs. set (sort_slice xs) = set xs"
  shows "\<exists>res info data. CheckOperationsVerbose e showst KvModel hs timeout = Some (res, info) \<and>
    (res = Ok \<longrightarrow> kv_linearizable hs) \<and> (res = Illegal \<longrightarrow> \<not> kv_linearizable hs) \<and>
    computeVisualizationData sort_slice nil (env_show e) showst KvModel info = Some data \<and>
    length data = card (kv_key ` set hs) \<and>
    (\<forall>k<card (kv_key ` set hs). shows_ops (fillDefault (env_show e) showst KvModel)
       (filter (\<lambda>v. kv_key v = sorted_list_of_set (kv_key ` set hs) ! k) hs) (data ! k)) \<and>
    (res = Ok \<longrightarrow> (\<forall>k<card (kv_key ` set hs).
       shows_all (filter (\<lambda>v. kv_key v = sorted_list_of_set (kv_key ` set hs) ! k) hs) (data ! k)))"
  using kv_vis.visualization_spec[OF assms(1) kv_parts[OF assms(1)] assms(3) _ _ assms(5,6), of timeout showst nil] assms(2,4)
  by simp

theorem kv_visualization_witness:
  "\<exists>res info data. CheckOperationsVerbose kv_demo_env id KvModel kv_demo 0 = Some (res, info) \<and>
    computeVisualizationData rev DOther (env_show kv_demo_env) id KvModel info = Some data \<and> length data = 1 \<and>
    shows_ops (fillDefault (env_show kv_demo_env) id KvModel) kv_demo (data ! 0)"
proof -
  have 1: "sorts_by_time (env_sort kv_demo_env)" by (simp add: kv_demo_env_def sort_key_sorts_by_time)
  have 2: "schedule (card (kv_key ` set kv_demo)) 0 (env_sched kv_demo_env)"
    unfolding kv_demo_valid(2) by (simp add: kv_demo_env_def schedule_def lessThan_Suc)
  have 3: "kv_demo \<noteq> []" by (simp add: kv_demo_def)
  have 4: "set (env_order kv_demo_env xs) = set xs" for xs by (simp add: kv_demo_env_def)
  have 5: "filter (\<lambda>v. kv_key v = ''x'') kv_demo = kv_demo" using kv_demo_valid(2) by (intro filter_True) auto
  from kv_visualization[OF kv_demo_valid(1) 3 1 2 4, of rev id DOther] 5 show ?thesis
    unfolding kv_demo_valid(2) by auto
qed

end
