(* ===== verification/Events.thy ===== *)
theory Events
  imports KvModel
begin

text \<open>
  Histories given as a list of call and return events, as \<^verbatim>\<open>CheckEvents\<close> takes them.  \<^verbatim>\<open>renumber\<close> gives the
  operations the numbers 0, 1, 2, \<dots> in the order of their first events, and \<^verbatim>\<open>convertEntries\<close> takes positions for
  times.  The entries are those of the operations that the events stand for, so that \<^verbatim>\<open>CheckEvents\<close> decides
  the same question as \<^verbatim>\<open>CheckOperations\<close>.
\<close>

section \<open>The numbers of the operations\<close>

text \<open>Identifiers in the order of their first occurrence, and the place of one of them.\<close>

fun new_ids :: "int list \<Rightarrow> int list \<Rightarrow> int list" where
  "new_ids seen [] = []"
| "new_ids seen (x # xs) = (if x \<in> set seen then new_ids seen xs else x # new_ids (seen @ [x]) xs)"

definition pos :: "int list \<Rightarrow> int \<Rightarrow> nat" where
  "pos xs x = length (takeWhile (\<lambda>y. y \<noteq> x) xs)"

definition ids_of :: "'v porc_event list \<Rightarrow> int list" where
  "ids_of es = new_ids [] (map ev_Id es)"

lemma pos_simps [simp]: "pos [] x = 0" "pos (y # ys) x = (if y = x then 0 else Suc (pos ys x))"
  by (simp_all add: pos_def)

lemma pos_append: "pos (xs @ ys) x = (if x \<in> set xs then pos xs x else length xs + pos ys x)"
  by (induction xs) auto

lemma pos_nth: "distinct xs \<Longrightarrow> i < length xs \<Longrightarrow> pos xs (xs ! i) = i"
proof (induction xs arbitrary: i)
  case (Cons x xs)
  then show ?case by (cases i) auto
qed simp

lemma set_new_ids: "set (new_ids seen xs) = set xs - set seen"
  by (induction xs arbitrary: seen) auto

lemma distinct_new_ids: "distinct (new_ids seen xs)"
  by (induction xs arbitrary: seen) (auto simp: set_new_ids)

lemma renumber_loop_pos:
  assumes "\<forall>x. m x = (if x \<in> set seen then Some (int (pos seen x)) else None)"
  shows "renumber_loop es m (int (length seen)) =
    map (\<lambda>v. v\<lparr>ev_Id := int (pos (seen @ new_ids seen (map ev_Id es)) (ev_Id v))\<rparr>) es"
  using assms
proof (induction es arbitrary: m seen)
  case (Cons v es)
  show ?case
  proof (cases "ev_Id v \<in> set seen")
    case True
    then show ?thesis using Cons.IH[OF Cons.prems] Cons.prems by (simp add: pos_append)
  next
    case False
    let ?m = "m(ev_Id v \<mapsto> int (length seen))"
    have "\<forall>x. ?m x = (if x \<in> set (seen @ [ev_Id v]) then Some (int (pos (seen @ [ev_Id v]) x)) else None)"
      using False Cons.prems by (auto simp: pos_append)
    note ih = Cons.IH[OF this]
    have "m (ev_Id v) = None" using False Cons.prems by simp
    then have "renumber_loop (v # es) m (int (length seen)) = v\<lparr>ev_Id := int (length seen)\<rparr> # renumber_loop es ?m (int (length (seen @ [ev_Id v])))"
      by (simp add: add.commute)
    then show ?thesis unfolding ih using False by (simp add: pos_append)
  qed
qed simp

lemma renumber_pos: "renumber es = map (\<lambda>v. v\<lparr>ev_Id := int (pos (ids_of es) (ev_Id v))\<rparr>) es"
  using renumber_loop_pos[of Map.empty "[]" es] by (simp add: renumber_def ids_of_def)

lemma convert_loop_nth:
  "convert_loop (int k) es = map (\<lambda>j. \<lparr>kind = (if ev_Kind (es ! j) = ReturnEvent then returnEntry else callEntry), evalue = ev_Value (es ! j),
     eid = ev_Id (es ! j), etime = int (k + j), eclientId = ev_ClientId (es ! j)\<rparr>) [0..<length es]"
proof (induction es arbitrary: k)
  case (Cons v es)
  have "[0..<Suc (length es)] = 0 # map Suc [0..<length es]" unfolding map_Suc_upt by (rule upt_conv_Cons) simp
  then show ?case using Cons.IH[of "Suc k"] by (simp add: comp_def add.commute del: upt_Suc)
qed simp

section \<open>The operations of a list of events\<close>

definition places :: "'v porc_event list \<Rightarrow> int \<Rightarrow> nat list" where
  "places es x = filter (\<lambda>j. ev_Id (es ! j) = x) [0..<length es]"

definition operation_of :: "'v porc_event list \<Rightarrow> int \<Rightarrow> 'v operation" where
  "operation_of es x =
    (let c = places es x ! 0; r = places es x ! 1
     in \<lparr>ClientId = ev_ClientId (es ! c), Input = ev_Value (es ! c), Call = int c, Output = ev_Value (es ! r), Return = int r\<rparr>)"

definition operations_of :: "'v porc_event list \<Rightarrow> 'v operation list" where
  "operations_of es = map (operation_of es) (ids_of es)"

text \<open>Every operation is called once and then returns once, to the same client.\<close>

definition complete_events :: "'v porc_event list \<Rightarrow> bool" where
  "complete_events es \<longleftrightarrow> (\<forall>x\<in>set (ids_of es). length (places es x) = 2 \<and>
     (let c = es ! (places es x ! 0); r = es ! (places es x ! 1)
      in ev_Kind c = CallEvent \<and> ev_Kind r = ReturnEvent \<and> ev_ClientId c = ev_ClientId r))"

definition event_entry :: "'v porc_event list \<Rightarrow> nat \<Rightarrow> 'v entry" where
  "event_entry es j = \<lparr>kind = (if ev_Kind (es ! j) = ReturnEvent then returnEntry else callEntry), evalue = ev_Value (es ! j),
     eid = int (pos (ids_of es) (ev_Id (es ! j))), etime = int j, eclientId = ev_ClientId (es ! j)\<rparr>"

lemma convert_renumber: "convertEntries (renumber es) = map (event_entry es) [0..<length es]"
  unfolding convertEntries_def using convert_loop_nth[of 0 "renumber es"]
  by (auto simp: renumber_pos event_entry_def intro!: map_cong)

lemma set_ids_of: "set (ids_of es) = ev_Id ` set es" "distinct (ids_of es)"
  by (simp_all add: ids_of_def set_new_ids distinct_new_ids)

lemma places_Id: "j \<in> set (places es x) \<longleftrightarrow> j < length es \<and> ev_Id (es ! j) = x"
  by (auto simp: places_def)

lemma completeD:
  assumes "complete_events es" "x \<in> set (ids_of es)"
  obtains c r where "places es x = [c, r]" "c < r" "r < length es" "ev_Id (es ! c) = x" "ev_Id (es ! r) = x"
    "ev_Kind (es ! c) = CallEvent" "ev_Kind (es ! r) = ReturnEvent" "ev_ClientId (es ! c) = ev_ClientId (es ! r)"
proof -
  have "length (places es x) = 2" using assms by (simp add: complete_events_def)
  then obtain c r where p: "places es x = [c, r]" by (auto simp: length_Suc_conv numeral_2_eq_2)
  have "sorted_wrt (<) (places es x)" unfolding places_def by (intro sorted_wrt_filter) simp
  then have "c < r" using p by simp
  moreover have "c \<in> set (places es x)" "r \<in> set (places es x)" using p by simp_all
  then have "r < length es" "ev_Id (es ! c) = x" "ev_Id (es ! r) = x" by (simp_all add: places_Id)
  moreover have "ev_Kind (es ! c) = CallEvent" "ev_Kind (es ! r) = ReturnEvent" "ev_ClientId (es ! c) = ev_ClientId (es ! r)"
    using assms p by (auto simp: complete_events_def Let_def)
  ultimately show ?thesis using that p by blast
qed

lemma mset_by_key:
  "distinct ks \<Longrightarrow> f ` set xs \<subseteq> set ks \<Longrightarrow> mset (concat (map (\<lambda>k. filter (\<lambda>x. f x = k) xs) ks)) = mset xs"
proof (induction ks arbitrary: xs)
  case (Cons k ks)
  have ih: "mset (concat (map (\<lambda>k'. filter (\<lambda>x. f x = k') (filter (\<lambda>x. f x \<noteq> k) xs)) ks)) = mset (filter (\<lambda>x. f x \<noteq> k) xs)"
    using Cons.prems by (intro Cons.IH) auto
  have e: "map (\<lambda>k'. filter (\<lambda>x. f x = k') (filter (\<lambda>x. f x \<noteq> k) xs)) ks = map (\<lambda>k'. filter (\<lambda>x. f x = k') xs) ks"
    using Cons.prems(1) by (auto intro!: filter_cong)
  have "filter_mset (\<lambda>x. f x = k) (mset xs) + filter_mset (\<lambda>x. f x \<noteq> k) (mset xs) = mset xs"
    by (rule multiset_partition[symmetric])
  then show ?case using ih unfolding e by simp
qed simp

text \<open>The entries of the events are a permutation of those of the operations, in the order of time.\<close>

lemma mset_entries:
  assumes "complete_events es"
  shows "mset (convertEntries (renumber es)) = mset (raw_entries 0 (operations_of es))"
proof -
  let ?hs = "operations_of es"
  have "[entry_of ?hs False i, entry_of ?hs True i] = map (event_entry es) (places es (ids_of es ! i))" if i: "i < length (ids_of es)" for i
  proof -
    obtain c r where p: "places es (ids_of es ! i) = [c, r]" "ev_Id (es ! c) = ids_of es ! i" "ev_Id (es ! r) = ids_of es ! i"
      "ev_Kind (es ! c) = CallEvent" "ev_Kind (es ! r) = ReturnEvent" "ev_ClientId (es ! c) = ev_ClientId (es ! r)"
      using completeD[OF assms nth_mem[OF i]] by metis
    then show ?thesis using i set_ids_of(2)[of es]
      by (simp add: entry_of_def event_entry_def operations_of_def operation_of_def Let_def pos_nth)
  qed
  then have "raw_entries 0 ?hs = concat (map (\<lambda>i. map (event_entry es) (places es (ids_of es ! i))) [0..<length (ids_of es)])"
    unfolding raw_entries_conv0 by (intro arg_cong[where f = concat] map_cong) (simp_all add: operations_of_def)
  also have "\<dots> = map (event_entry es) (concat (map (places es) (map (\<lambda>i. ids_of es ! i) [0..<length (ids_of es)])))"
    by (simp add: map_concat comp_def)
  also have "map (\<lambda>i. ids_of es ! i) [0..<length (ids_of es)] = ids_of es" by (rule map_nth)
  finally have "mset (raw_entries 0 ?hs) = image_mset (event_entry es) (mset (concat (map (places es) (ids_of es))))" by simp
  also have "mset (concat (map (places es) (ids_of es))) = mset [0..<length es]"
    unfolding places_def by (rule mset_by_key) (use set_ids_of[of es] in auto)
  finally show ?thesis by (simp add: convert_renumber)
qed

lemma sorted_entries: "sorted (map etime (convertEntries (renumber es)))"
  by (simp add: convert_renumber event_entry_def comp_def sorted_iff_nth_mono)

text \<open>A sorting function that returns just these entries.\<close>

definition keep_order :: "'v entry list \<Rightarrow> 'v entry list \<Rightarrow> 'v entry list" where
  "keep_order es xs = (if mset xs = mset es then es else sort_key etime xs)"

lemma events_makeEntries:
  assumes "complete_events es"
  shows "sorts_by_time (keep_order (convertEntries (renumber es)))"
    "convertEntries (renumber es) = makeEntries (keep_order (convertEntries (renumber es))) (operations_of es)"
  using sorted_entries mset_entries[OF assms] by (auto simp: sorts_by_time_def keep_order_def makeEntries_def)

lemma operations_well_timed:
  assumes "complete_events es"
  shows "well_timed (operations_of es)"
proof -
  have "\<exists>c r. Call v = int c \<and> Return v = int r \<and> c < r \<and> ev_Kind (es ! c) = CallEvent \<and> ev_Kind (es ! r) = ReturnEvent"
    if v: "v \<in> set (operations_of es)" for v
  proof -
    obtain x where x: "x \<in> set (ids_of es)" "v = operation_of es x" using v by (auto simp: operations_of_def)
    obtain c r where "places es x = [c, r]" "c < r" "ev_Kind (es ! c) = CallEvent" "ev_Kind (es ! r) = ReturnEvent"
      using completeD[OF assms x(1)] by metis
    then show ?thesis by (simp add: x(2) operation_of_def)
  qed
  then show ?thesis unfolding well_timed_def by (metis EventKind.distinct(1) less_imp_le nat_int of_nat_le_iff)
qed

section \<open>\<^verbatim>\<open>CheckEvents\<close>\<close>

definition op_defined :: "('v, 's) model \<Rightarrow> 'v operation list \<Rightarrow> bool" where
  "op_defined m hs \<longleftrightarrow> length hs < 2 ^ 64 \<and> (\<forall>s. \<forall>x\<in>set hs. Step m s (Input x) (Output x) \<noteq> None)"

text \<open>A history that is one part.\<close>

lemma check_one_part:
  assumes ck: "checkable m hs" and so: "sorts_by_time so" and eq: "sound_equal (fillDefault showv showst m)"
    and s: "schedule 1 0 sched"
  shows "\<exists>res info. checkParallel kills order sched (fillDefault showv showst m) [makeEntries so hs] False 0 = Some (res, info) \<and>
    (res = Ok) = op_linearizable (op_step m hs) (Init m) hs"
proof -
  let ?m = "fillDefault showv showst m" and ?l = "makeEntries so hs"
  have g: "\<forall>x\<in>set [?l]. good_entries ?m x" using makeEntries_good[OF so, of ?m hs] ck by (simp add: checkable_def)
  have "schedule (length [?l]) 0 sched" using s by simp
  from checkParallel_result[OF g eq this, of kills order False] obtain res info where
    r: "checkParallel kills order sched ?m [?l] False 0 = Some (res, info)"
      "res = Ok \<longrightarrow> lin_entries ?m ?l" "res = Illegal \<longrightarrow> \<not> lin_entries ?m ?l" "res = Unknown \<longrightarrow> Timer \<in> set sched"
    by auto
  have "Timer \<notin> set sched" using s by (simp add: schedule_def)
  then have "(res = Ok) = lin_entries ?m ?l" using r(2-4) by (cases res) auto
  moreover have "lin_entries ?m ?l = lin_entries m ?l" by (rule lin_entries_cong) simp_all
  moreover have "lin_entries m ?l \<longleftrightarrow> op_linearizable (op_step m hs) (Init m) hs"
    using makeEntries_linearizable[OF so, of hs m] ck by (simp add: checkable_def)
  ultimately show ?thesis using r(1) by simp
qed

lemma CheckEvents_result:
  assumes c: "complete_events es" and d: "op_defined m (operations_of es)" and p: "PartitionEvent m = None"
    and eq: "sound_equal (fillDefault (env_show e) showst m)" and s: "schedule 1 0 (env_sched e)"
  shows "CheckEvents e showst m es = Some (op_linearizable (op_step m (operations_of es)) (Init m) (operations_of es))"
proof -
  note so = events_makeEntries[OF c]
  have "checkable m (operations_of es)" using d operations_well_timed[OF c] by (simp add: checkable_def op_defined_def)
  from check_one_part[OF this so(1) eq s, of "env_kills e" "env_order e"] so(2) p show ?thesis
    by (auto simp: CheckEvents_def checkEvents_def NoPartitionEvent_def Let_def)
qed

lemma CheckOperations_result:
  assumes "checkable m hs" "Partition m = None" "sorts_by_time (env_sort e)"
    and "sound_equal (fillDefault (env_show e) showst m)" "schedule 1 0 (env_sched e)"
  shows "CheckOperations e showst m hs = Some (op_linearizable (op_step m hs) (Init m) hs)"
  using check_one_part[OF assms(1,3-5), of "env_kills e" "env_order e"] assms(2)
  by (auto simp: CheckOperations_def checkOperations_def NoPartition_def Let_def)

text \<open>
  \<^bold>\<open>C12\<close>. On every list of events in which each operation is called once and then returns once by the same
  client, and for every model without PartitionEvent whose equality of states is sound, CheckEvents
  decides linearizability of the operations the events stand for, taken as one object; when the
  model has no Partition either, CheckOperations on these operations gives the same answer. So
  renumber and convertEntries lose nothing.
\<close>

theorem events_like_operations:
  assumes "complete_events es" "op_defined m (operations_of es)" "PartitionEvent m = None"
    and "sound_equal (fillDefault (env_show e) showst m)" "sorts_by_time (env_sort e)" "schedule 1 0 (env_sched e)"
  shows "CheckEvents e showst m es = Some (op_linearizable (op_step m (operations_of es)) (Init m) (operations_of es)) \<and>
    (Partition m = None \<longrightarrow> CheckOperations e showst m (operations_of es) = CheckEvents e showst m es)"
proof -
  have "checkable m (operations_of es)"
    using assms(2) operations_well_timed[OF assms(1)] by (simp add: checkable_def op_defined_def)
  from CheckOperations_result[OF this _ assms(5,4,6)] CheckEvents_result[OF assms(1-4,6)] show ?thesis by simp
qed

lemma before_two:
  assumes "distinct p" "set p = {..<2}" "before p 0 (Suc 0)"
  shows "p = [0, 1]"
proof -
  have "length p = 2" using assms(1,2) by (metis card_lessThan distinct_card)
  then obtain a b where p: "p = [a, b]" by (auto simp: length_Suc_conv numeral_2_eq_2)
  then have "{a, b} = {0, 1}" using assms(2) by (auto simp: lessThan_Suc numeral_2_eq_2)
  then show ?thesis using assms(3) p by (auto simp: doubleton_eq_iff)
qed

section \<open>\<^verbatim>\<open>KvModel\<close> on events\<close>

text \<open>
  \<^verbatim>\<open>KvModel\<close> has no \<^verbatim>\<open>PartitionEvent\<close>, so a history of events is one part, and the single value of its state stands
  for all keys.  A put to one key and a read of another show it.
\<close>

definition put_get_other :: "string \<Rightarrow> string \<Rightarrow> string \<Rightarrow> kv_dyn porc_event list" where
  "put_get_other x y value =
   [\<lparr>ev_ClientId = 0, ev_Kind = CallEvent, ev_Value = DInput \<lparr>Op = 1, Key = x, Value = value\<rparr>, ev_Id = 7\<rparr>,
    \<lparr>ev_ClientId = 0, ev_Kind = ReturnEvent, ev_Value = DOutput \<lparr>OutValue = []\<rparr>, ev_Id = 7\<rparr>,
    \<lparr>ev_ClientId = 0, ev_Kind = CallEvent, ev_Value = DInput \<lparr>Op = 0, Key = y, Value = []\<rparr>, ev_Id = 9\<rparr>,
    \<lparr>ev_ClientId = 0, ev_Kind = ReturnEvent, ev_Value = DOutput \<lparr>OutValue = []\<rparr>, ev_Id = 9\<rparr>]"

lemma put_get_other_ops:
  "ids_of (put_get_other x y value) = [7, 9]"
  "places (put_get_other x y value) 7 = [0, 1]" "places (put_get_other x y value) 9 = [2, 3]"
  "complete_events (put_get_other x y value)"
proof -
  show i: "ids_of (put_get_other x y value) = [7, 9]" by (simp add: ids_of_def put_get_other_def)
  show p: "places (put_get_other x y value) 7 = [0, 1]" "places (put_get_other x y value) 9 = [2, 3]"
    by (simp_all add: places_def put_get_other_def upt_rec)
  show "complete_events (put_get_other x y value)"
    by (simp add: complete_events_def i p) (simp add: put_get_other_def)
qed

lemma put_get_other_operations:
  "operations_of (put_get_other x y value) =
   [\<lparr>ClientId = 0, Input = DInput \<lparr>Op = 1, Key = x, Value = value\<rparr>, Call = 0, Output = DOutput \<lparr>OutValue = []\<rparr>, Return = 1\<rparr>,
    \<lparr>ClientId = 0, Input = DInput \<lparr>Op = 0, Key = y, Value = []\<rparr>, Call = 2, Output = DOutput \<lparr>OutValue = []\<rparr>, Return = 3\<rparr>]"
  by (simp add: operations_of_def operation_of_def put_get_other_ops) (simp add: put_get_other_def)

text \<open>
  \<^bold>\<open>C40\<close>. KvModel has no PartitionEvent: a put to one key followed by a read of another is rejected by
  CheckEvents and accepted by CheckOperations on the same operations.
\<close>

theorem events_mix_keys:
  assumes "x \<noteq> y" "value \<noteq> []" "schedule 1 0 (env_sched e)" "sorts_by_time (env_sort e')" "schedule 2 0 (env_sched e')"
  shows "CheckEvents e showst KvModel (put_get_other x y value) = Some False \<and>
    CheckOperations e' showst KvModel (operations_of (put_get_other x y value)) = Some True"
proof -
  let ?es = "put_get_other x y value" and ?hs = "operations_of (put_get_other x y value)"
  have v: "kv_valid ?hs" "?hs \<noteq> []" "kv_key ` set ?hs = {x, y}"
    by (auto simp: put_get_other_operations kv_valid_def kv_typed_def well_timed_def kv_key_def)
  have d: "op_defined KvModel ?hs" using v(1) kv_Step_defined unfolding op_defined_def kv_valid_def KvModel_simps by blast
  have "\<not> op_linearizable (op_step KvModel ?hs) (Init KvModel) ?hs"
  proof
    assume "op_linearizable (op_step KvModel ?hs) (Init KvModel) ?hs"
    then obtain p where p: "distinct p" "set p = {..<length ?hs}" "\<forall>i<length ?hs. \<forall>j<length ?hs. Return (?hs ! i) < Call (?hs ! j) \<longrightarrow> before p i j"
      "run (op_step KvModel ?hs) (Init KvModel) p \<noteq> None" unfolding op_linearizable_def by blast
    have "p = [0, 1]" using before_two[of p] p(1,2) p(3)[rule_format, of 0 "Suc 0"] by (simp add: put_get_other_operations)
    then show False using p(4) assms(2) by (simp add: put_get_other_operations op_step_def kv_Step_def)
  qed
  moreover have "PartitionEvent KvModel = None" by (simp add: KvModel_def)
  from CheckEvents_result[OF put_get_other_ops(4) d this kv.equal_sound assms(3)]
  have "CheckEvents e showst KvModel ?es = Some (op_linearizable (op_step KvModel ?hs) (Init KvModel) ?hs)" .
  moreover have "kv_linearizable ?hs" unfolding kv_linearizable_def op_linearizable_def
    using assms(1) by (intro exI[of _ "[0, Suc 0]"]) (auto simp: put_get_other_operations kv_apply_def less_Suc_eq numeral_2_eq_2)
  moreover have c: "card (kv_key ` set ?hs) = 2" using v(3) assms(1) by simp
  have "CheckOperations e' showst KvModel ?hs = Some (kv_linearizable ?hs)"
    using kv.CheckOperations_spec[OF v(1) kv_parts[OF v(1)] assms(4)] v(2) c assms(5) by simp
  ultimately show ?thesis by simp
qed

section \<open>Examples\<close>

text \<open>A register that holds the last value written; a call is a value to write, the reply the value before.\<close>

definition swap_step :: "nat \<Rightarrow> nat \<Rightarrow> nat \<Rightarrow> (bool \<times> nat) option" where
  "swap_step s i out = Some (out = s, i)"

definition swap_events :: "nat porc_event list" where
  "swap_events =
   [\<lparr>ev_ClientId = 0, ev_Kind = CallEvent, ev_Value = 4, ev_Id = 30\<rparr>, \<lparr>ev_ClientId = 1, ev_Kind = CallEvent, ev_Value = 5, ev_Id = 20\<rparr>,
    \<lparr>ev_ClientId = 0, ev_Kind = ReturnEvent, ev_Value = 5, ev_Id = 30\<rparr>, \<lparr>ev_ClientId = 1, ev_Kind = ReturnEvent, ev_Value = 0, ev_Id = 20\<rparr>]"

definition swap_env :: "nat env" where
  "swap_env = \<lparr>env_sort = sort_key etime, env_kills = (\<lambda>_ _. False), env_order = id, env_sched = [Result 0], env_show = (\<lambda>_. [])\<rparr>"

theorem events_like_operations_witness:
  "CheckOperations swap_env (\<lambda>_. []) (unpartitioned 0 swap_step) (operations_of swap_events) =
    CheckEvents swap_env (\<lambda>_. []) (unpartitioned 0 swap_step) swap_events"
proof -
  have i: "ids_of swap_events = [30, 20]" by (simp add: ids_of_def swap_events_def)
  have p: "places swap_events 30 = [0, 2]" "places swap_events 20 = [1, 3]" by (simp_all add: places_def swap_events_def upt_rec)
  have "complete_events swap_events" by (simp add: complete_events_def i p) (simp add: swap_events_def)
  moreover have "op_defined (unpartitioned 0 swap_step) (operations_of swap_events)"
    by (simp add: op_defined_def operations_of_def i unpartitioned_def swap_step_def)
  moreover have "sorts_by_time (env_sort swap_env)" "env_sched swap_env = [Result 0]" by (simp_all add: swap_env_def sort_key_sorts_by_time)
  moreover have "sound_equal (fillDefault (env_show swap_env) (\<lambda>_. []) (unpartitioned 0 swap_step))" by (rule nopart.equal_sound)
  moreover have "schedule 1 0 [Result 0]" by (simp add: schedule_def lessThan_Suc)
  moreover have "PartitionEvent (unpartitioned 0 swap_step) = None" "Partition (unpartitioned 0 swap_step) = None"
    by (simp_all add: unpartitioned_def)
  ultimately show ?thesis using events_like_operations[of swap_events "unpartitioned 0 swap_step" swap_env "\<lambda>_. []"] by simp
qed

definition two_parts_env :: "kv_dyn env" where
  "two_parts_env = kv_demo_env\<lparr>env_sched := [Result 1, Result 0]\<rparr>"

theorem events_mix_keys_witness:
  "CheckEvents kv_demo_env id KvModel (put_get_other ''x'' ''y'' ''1'') = Some False \<and>
   CheckOperations two_parts_env id KvModel (operations_of (put_get_other ''x'' ''y'' ''1'')) = Some True"
proof (rule events_mix_keys)
  show "schedule 1 0 (env_sched kv_demo_env)" by (simp add: kv_demo_env_def schedule_def lessThan_Suc)
  show "sorts_by_time (env_sort two_parts_env)" by (simp add: two_parts_env_def kv_demo_env_def sort_key_sorts_by_time)
  show "schedule 2 0 (env_sched two_parts_env)" by (auto simp: two_parts_env_def kv_demo_env_def schedule_def)
qed simp_all

end
