(* ===== verification/Kv_Clerk.thy ===== *)
theory Kv_Clerk
  imports Events
begin

text \<open>
  The clerk of \<^verbatim>\<open>kvraft/client.go\<close>, a stub: it keeps its list of servers and sends nothing.  The tests of the
  package record its calls and hand them to the checker with \<^verbatim>\<open>KvModel\<close>.
\<close>

section \<open>\<^verbatim>\<open>kvraft/client.go\<close>\<close>

record 'e Clerk =
  ck_servers :: "'e list"

definition MakeClerk :: "'e list \<Rightarrow> 'e Clerk" where
  "MakeClerk servers = \<lparr>ck_servers = servers\<rparr>"

definition Clerk_Get :: "'e Clerk \<Rightarrow> string \<Rightarrow> 'e Clerk \<times> string" where
  "Clerk_Get ck key = (ck, '''')"

definition Clerk_PutAppend :: "'e Clerk \<Rightarrow> string \<Rightarrow> string \<Rightarrow> string \<Rightarrow> 'e Clerk" where
  "Clerk_PutAppend ck key value opn = ck"

definition Clerk_Put :: "'e Clerk \<Rightarrow> string \<Rightarrow> string \<Rightarrow> 'e Clerk" where
  "Clerk_Put ck key value = Clerk_PutAppend ck key value ''Put''"

definition Clerk_Append :: "'e Clerk \<Rightarrow> string \<Rightarrow> string \<Rightarrow> 'e Clerk" where
  "Clerk_Append ck key value = Clerk_PutAppend ck key value ''Append''"

section \<open>What the checker says of it\<close>

text \<open>A client puts a value and then reads it, as the tests record it.\<close>

definition put_then_get :: "'e Clerk \<Rightarrow> string \<Rightarrow> string \<Rightarrow> int \<Rightarrow> kv_dyn operation list" where
  "put_then_get ck key value t =
    (let ck = Clerk_Put ck key value;
         (ck, v) = Clerk_Get ck key
     in [\<lparr>ClientId = 0, Input = DInput \<lparr>Op = 1, Key = key, Value = value\<rparr>, Call = t,
          Output = DOutput \<lparr>OutValue = ''''\<rparr>, Return = t + 1\<rparr>,
         \<lparr>ClientId = 0, Input = DInput \<lparr>Op = 0, Key = key, Value = ''''\<rparr>, Call = t + 2,
          Output = DOutput \<lparr>OutValue = v\<rparr>, Return = t + 3\<rparr>])"

lemma stale_read_not_linearizable:
  assumes "value \<noteq> ''''"
  shows "\<not> kv_linearizable (put_then_get ck key value t)"
proof
  let ?hs = "put_then_get ck key value t"
  assume "kv_linearizable ?hs"
  then obtain p where p: "distinct p" "set p = {..<length ?hs}" "\<forall>i<length ?hs. \<forall>j<length ?hs. Return (?hs ! i) < Call (?hs ! j) \<longrightarrow> before p i j"
    "run (\<lambda>store i. kv_apply store (?hs ! i)) (\<lambda>_. '''') p \<noteq> None"
    unfolding kv_linearizable_def op_linearizable_def by blast
  have hs: "length ?hs = 2" "Return (?hs ! 0) < Call (?hs ! Suc 0)" by (simp_all add: put_then_get_def Clerk_Get_def Let_def)
  have "p = [0, 1]" using before_two[of p] p(1,2) p(3)[rule_format, of 0 "Suc 0"] hs by simp
  then show False using p(4) assms by (simp add: put_then_get_def Clerk_Get_def Let_def kv_apply_def)
qed

theorem stub_clerk_rejected:
  assumes "value \<noteq> ''''" "sorts_by_time (env_sort e)" "schedule 1 0 (env_sched e)"
  shows "CheckOperations e showst KvModel (put_then_get (MakeClerk servers) key value t) = Some False"
proof -
  let ?hs = "put_then_get (MakeClerk servers) key value t"
  have hs: "kv_valid ?hs" "kv_key ` set ?hs = {key}" "?hs \<noteq> []"
    by (auto simp: kv_valid_def put_then_get_def Clerk_Get_def Let_def kv_typed_def well_timed_def kv_key_def)
  from kv.CheckOperations_spec[OF hs(1) kv_parts[OF hs(1)] assms(2)] hs(2,3) assms(3)
  show ?thesis using stale_read_not_linearizable[OF assms(1)] by simp
qed

theorem stub_clerk_rejected_witness:
  "CheckOperations kv_demo_env id KvModel (put_then_get (MakeClerk [()]) ''x'' ''1'' 0) = Some False"
proof (rule stub_clerk_rejected)
  show "sorts_by_time (env_sort kv_demo_env)" by (simp add: kv_demo_env_def sort_key_sorts_by_time)
  show "schedule 1 0 (env_sched kv_demo_env)" by (simp add: kv_demo_env_def schedule_def lessThan_Suc)
qed simp

end
