(* ===== verification/Persister.thy ===== *)
theory Persister
  imports Prelude
begin

text \<open>
  The object of \<^verbatim>\<open>raft/persister.go\<close> that holds the saved state and snapshot of a peer.  Its methods
  hold the mutex for their whole body, so each is one function of the record; a nil slice
  and an empty one have the same length and are both \<open>[]\<close>.
\<close>

type_synonym byte = "8 word"

record Persister =
  raftstate :: "byte list"
  snapshot :: "byte list"

definition MakePersister :: Persister where
  "MakePersister = \<lparr>raftstate = [], snapshot = []\<rparr>"

definition Copy :: "Persister \<Rightarrow> Persister" where
  "Copy ps = (let np = MakePersister in np\<lparr>raftstate := raftstate ps, snapshot := snapshot ps\<rparr>)"

definition SaveRaftState :: "Persister \<Rightarrow> byte list \<Rightarrow> Persister" where
  "SaveRaftState ps state = ps\<lparr>raftstate := state\<rparr>"

definition ReadRaftState :: "Persister \<Rightarrow> byte list" where
  "ReadRaftState ps = raftstate ps"

definition RaftStateSize :: "Persister \<Rightarrow> nat" where
  "RaftStateSize ps = length (raftstate ps)"

definition SaveStateAndSnapshot :: "Persister \<Rightarrow> byte list \<Rightarrow> byte list \<Rightarrow> Persister" where
  "SaveStateAndSnapshot ps state snap = ps\<lparr>raftstate := state, snapshot := snap\<rparr>"

definition ReadSnapshot :: "Persister \<Rightarrow> byte list" where
  "ReadSnapshot ps = snapshot ps"

definition SnapshotSize :: "Persister \<Rightarrow> nat" where
  "SnapshotSize ps = length (snapshot ps)"

lemmas persister_defs = MakePersister_def Copy_def SaveRaftState_def ReadRaftState_def RaftStateSize_def
  SaveStateAndSnapshot_def ReadSnapshot_def SnapshotSize_def

text \<open>
  The contract of the storage, as the test harness relies on it: what was saved last is read
  back, saving the state alone keeps the snapshot, and a copy is independent of the
  original (a value of the record, never a reference to it).
\<close>

locale storage =
  fixes save :: "'p \<Rightarrow> byte list \<Rightarrow> 'p" and save_both :: "'p \<Rightarrow> byte list \<Rightarrow> byte list \<Rightarrow> 'p"
    and read :: "'p \<Rightarrow> byte list" and read_snap :: "'p \<Rightarrow> byte list" and copy :: "'p \<Rightarrow> 'p"
  assumes read_save: "read (save p d) = d" and snap_save: "read_snap (save p d) = read_snap p"
    and read_both: "read (save_both p d s) = d" and snap_both: "read_snap (save_both p d s) = s"
    and read_copy: "read (copy p) = read p" and snap_copy: "read_snap (copy p) = read_snap p"
begin

definition saves :: "'p \<Rightarrow> (byte list \<times> byte list option) list \<Rightarrow> 'p" where
  "saves p ws = foldl (\<lambda>p (d, s). case s of None \<Rightarrow> save p d | Some s \<Rightarrow> save_both p d s) p ws"

lemma saves_snoc:
  "saves p (ws @ [(d, s)]) = (case s of None \<Rightarrow> save (saves p ws) d | Some s \<Rightarrow> save_both (saves p ws) d s)"
  by (cases s) (simp_all add: saves_def)

lemma read_saves: "read (copy (saves p (ws @ [(d, s)]))) = d"
  by (cases s) (simp_all add: saves_snoc read_save read_both read_copy)

lemma snap_saves:
  "read_snap (copy (saves p ws)) = (case rev (filter (\<lambda>w. snd w \<noteq> None) ws) of
     [] \<Rightarrow> read_snap p | w # _ \<Rightarrow> the (snd w))"
proof (induction ws rule: rev_induct)
  case Nil
  show ?case by (simp add: saves_def snap_copy)
next
  case (snoc w ws)
  obtain d s where w: "w = (d, s)" by force
  show ?case
    using snoc by (cases s) (simp_all add: w saves_snoc snap_save snap_both snap_copy)
qed

end

interpretation ps: storage SaveRaftState SaveStateAndSnapshot ReadRaftState ReadSnapshot Copy
  by unfold_locales (simp_all add: persister_defs)

section \<open>Properties\<close>

definition save_all :: "Persister \<Rightarrow> (byte list \<times> byte list option) list \<Rightarrow> Persister" where
  "save_all p ws = foldl (\<lambda>p (d, s). case s of None \<Rightarrow> SaveRaftState p d | Some s \<Rightarrow> SaveStateAndSnapshot p d s) p ws"

theorem persister_reads_last_save:
  "ReadRaftState (Copy (save_all p (ws @ [(d, s)]))) = d \<and> RaftStateSize (save_all p (ws @ [(d, s)])) = length d \<and>
   ReadSnapshot (Copy (save_all p ws)) = (case rev (filter (\<lambda>w. snd w \<noteq> None) ws) of [] \<Rightarrow> ReadSnapshot p | w # _ \<Rightarrow> the (snd w))"
proof -
  have e: "save_all p xs = ps.saves p xs" for xs by (simp add: save_all_def ps.saves_def)
  have "ReadRaftState (Copy q) = raftstate q" "RaftStateSize q = length (raftstate q)" for q by (simp_all add: persister_defs)
  then show ?thesis using ps.read_saves[of p ws d s] ps.snap_saves[of p ws] unfolding e by simp
qed

end
