(* ===== verification/Raft.thy ===== *)
theory Raft
  imports Prelude Persister
begin

text \<open>
  One Raft peer, \<^verbatim>\<open>raft/raft.go\<close>.  The fields of \<^verbatim>\<open>Raft\<close> are the record \<open>raft\<close>; every section of
  code between \<^verbatim>\<open>rf.mu.Lock()\<close> and the matching \<^verbatim>\<open>Unlock()\<close> is one definition on it, so that a
  function that locks twice (\<^verbatim>\<open>Start\<close>, \<^verbatim>\<open>startElection\<close> with \<^verbatim>\<open>RequestVote\<close>, the heartbeat
  goroutine around its RPC) is two definitions.  A panic of an index or slice
  expression is \<open>None\<close>.  Terms and indices are unbounded integers: a 64-bit counter that is
  increased once per election or per command does not wrap.  A nil slice of entries and an
  empty one are both \<open>[]\<close>: the senders never build an empty slice that is not nil, and the
  encoding of a message does not keep the difference.
\<close>

section \<open>State\<close>

record 'c ApplyMsg =
  CommandValid :: bool
  Command :: "'c option"
  CommandIndex :: int

record 'c Log =
  Entry :: "'c option"
  LogTerm :: int

record 'c raft =
  peers :: nat \<comment> \<open>\<^verbatim>\<open>len(rf.peers)\<close>\<close>
  persister :: Persister
  me :: nat
  dead :: int
  currentTerm :: int
  voteFor :: int
  rlog :: "'c Log list"
  LastLogIndex :: int
  commitIndex :: int
  lastApplied :: int
  nextIndex :: "int list"
  matchIndex :: "int list"
  isAppend :: bool
  rstate :: int \<comment> \<open>0 leader, 1 candidate, 2 follower\<close>
  electionResetCh :: bool \<comment> \<open>the one slot of the channel is full\<close>

abbreviation (input) leader :: int where "leader \<equiv> 0"
abbreviation (input) candidate :: int where "candidate \<equiv> 1"
abbreviation (input) follower :: int where "follower \<equiv> 2"

definition GetState :: "'c raft \<Rightarrow> int \<times> bool" where
  "GetState rf = (currentTerm rf, rstate rf = leader)"

text \<open>The bodies of \<^verbatim>\<open>persist\<close> and \<^verbatim>\<open>readPersist\<close> are comments in the source.\<close>

definition persist :: "'c raft \<Rightarrow> 'c raft" where
  "persist rf = rf"

definition readPersist :: "'c raft \<Rightarrow> byte list \<Rightarrow> 'c raft" where
  "readPersist rf data = rf"

definition Make :: "nat \<Rightarrow> nat \<Rightarrow> Persister \<Rightarrow> 'c raft" where
  "Make npeers self ps = readPersist
     \<lparr>peers = npeers, persister = ps, me = self, dead = 0, currentTerm = 0, voteFor = -1,
      rlog = [\<lparr>Entry = None, LogTerm = 0\<rparr>], LastLogIndex = 0, commitIndex = 0, lastApplied = 0,
      nextIndex = replicate npeers 1, matchIndex = replicate npeers 0, isAppend = False,
      rstate = follower, electionResetCh = False\<rparr> (ReadRaftState ps)"

definition Kill :: "'c raft \<Rightarrow> 'c raft" where
  "Kill rf = rf\<lparr>dead := 1\<rparr>"

definition killed :: "'c raft \<Rightarrow> bool" where
  "killed rf = (dead rf = 1)"

text \<open>A non-blocking send on a channel with one slot.\<close>

definition resetElectionTimer :: "'c raft \<Rightarrow> 'c raft" where
  "resetElectionTimer rf = rf\<lparr>electionResetCh := True\<rparr>"

section \<open>Append entries\<close>

record 'c RequestAppendEntriesArgs =
  ae_Term :: int
  ae_LeaderId :: nat
  ae_PrevLogIndex :: int
  ae_PrevLogTerm :: int
  ae_Entries :: "'c Log list"
  ae_LeaderCommit :: int

record AppendEntriesReply =
  aer_Term :: int
  aer_Success :: bool

text \<open>The first locked section of the goroutine of \<^verbatim>\<open>RequestHeartBeat\<close> for \<^verbatim>\<open>server\<close>.\<close>

definition RequestHeartBeat_args :: "'c raft \<Rightarrow> nat \<Rightarrow> 'c RequestAppendEntriesArgs option" where
  "RequestHeartBeat_args rf server = do {
     next \<leftarrow> at (nextIndex rf) (int server);
     let args = \<lparr>ae_Term = currentTerm rf, ae_LeaderId = me rf, ae_PrevLogIndex = 0, ae_PrevLogTerm = 0,
                 ae_Entries = [], ae_LeaderCommit = commitIndex rf\<rparr>;
     if int (length (rlog rf)) - 1 < next then do {
       prev \<leftarrow> at (rlog rf) (next - 1);
       Some (args\<lparr>ae_PrevLogIndex := next - 1, ae_PrevLogTerm := LogTerm prev\<rparr>) }
     else if next > 1 then do {
       prev \<leftarrow> at (rlog rf) (next - 1);
       entries \<leftarrow> slice_from (rlog rf) next;
       Some (args\<lparr>ae_PrevLogIndex := next - 1, ae_PrevLogTerm := LogTerm prev, ae_Entries := entries\<rparr>) }
     else do {
       entries \<leftarrow> slice_from (rlog rf) next;
       Some (args\<lparr>ae_PrevLogIndex := 0, ae_PrevLogTerm := -1, ae_Entries := entries\<rparr>) } }"

text \<open>The loop over \<^verbatim>\<open>rf.matchIndex\<close> that advances \<^verbatim>\<open>rf.commitIndex\<close>; \<open>i\<close> is the position of the list.\<close>

fun commit_loop :: "'c raft \<Rightarrow> int \<Rightarrow> nat \<Rightarrow> nat \<Rightarrow> int list \<Rightarrow> 'c raft option" where
  "commit_loop rf cmt i cnt [] = Some rf"
| "commit_loop rf cmt i cnt (mi # mis) =
    (if i \<noteq> me rf \<and> mi \<ge> cmt then
       let cnt = cnt + 1 in
       if cnt > peers rf div 2 then do {
         e \<leftarrow> at (rlog rf) cmt;
         if LogTerm e = currentTerm rf then Some (rf\<lparr>commitIndex := cmt\<rparr>)
         else commit_loop rf cmt (i + 1) cnt mis }
       else commit_loop rf cmt (i + 1) cnt mis
     else commit_loop rf cmt (i + 1) cnt mis)"

text \<open>The second locked section, when the RPC has returned \<^verbatim>\<open>true\<close>.\<close>

definition RequestHeartBeat_reply :: "'c raft \<Rightarrow> nat \<Rightarrow> 'c RequestAppendEntriesArgs \<Rightarrow> AppendEntriesReply
    \<Rightarrow> 'c raft option" where
  "RequestHeartBeat_reply rf server args reply =
    (if ae_Term args \<noteq> currentTerm rf then Some rf
     else if aer_Term reply > currentTerm rf then
       Some (rf\<lparr>currentTerm := aer_Term reply, voteFor := -1, rstate := follower\<rparr>)
     else if ae_Entries args \<noteq> [] then
       if aer_Success reply then do {
         let cmt = ae_PrevLogIndex args + int (length (ae_Entries args));
         nexts \<leftarrow> upd_at (nextIndex rf) (int server) (cmt + 1);
         matches \<leftarrow> upd_at (matchIndex rf) (int server) cmt;
         let rf = rf\<lparr>nextIndex := nexts, matchIndex := matches\<rparr>;
         if commitIndex rf < cmt then commit_loop rf cmt 0 1 (matchIndex rf) else Some rf }
       else do {
         next \<leftarrow> at (nextIndex rf) (int server);
         nexts \<leftarrow> upd_at (nextIndex rf) (int server) (next - 1);
         Some (rf\<lparr>nextIndex := nexts\<rparr>) }
     else if \<not> aer_Success reply then do {
       next \<leftarrow> at (nextIndex rf) (int server);
       nexts \<leftarrow> upd_at (nextIndex rf) (int server) (next - 1);
       Some (rf\<lparr>nextIndex := nexts\<rparr>) }
     else Some rf)"

text \<open>
  The handler \<^verbatim>\<open>RequestAppendEntriesReply\<close>.  \<open>match_loop\<close> is its search for the first entry that the log
  does not hold: it returns the entries from there on and their position in the log.
\<close>

fun match_loop :: "'c Log list \<Rightarrow> nat \<Rightarrow> 'c Log list \<Rightarrow> nat \<times> 'c Log list" where
  "match_loop lg logIdx [] = (logIdx, [])"
| "match_loop lg logIdx (e # entries) =
    (if logIdx \<ge> length lg then (logIdx, e # entries)
     else if LogTerm e = LogTerm (lg ! logIdx) then match_loop lg (logIdx + 1) entries
     else (logIdx, e # entries))"

definition append_entries :: "'c Log list \<Rightarrow> nat \<Rightarrow> 'c Log list \<Rightarrow> 'c Log list" where
  "append_entries lg prev entries =
    (let (logIdx, rest) = match_loop lg (prev + 1) entries
     in if logIdx < length lg \<and> rest \<noteq> [] then take logIdx lg @ rest
        else if logIdx \<ge> length lg \<and> rest \<noteq> [] then lg @ rest
        else lg)"

definition RequestAppendEntriesReply :: "'c raft \<Rightarrow> 'c RequestAppendEntriesArgs
    \<Rightarrow> ('c raft \<times> AppendEntriesReply) option" where
  "RequestAppendEntriesReply rf args =
    (if ae_Entries args = [] \<and> ae_Term args \<ge> currentTerm rf then do {
       let rf = (if ae_Term args > currentTerm rf then rf\<lparr>voteFor := -1, currentTerm := ae_Term args\<rparr> else rf);
       let rf = rf\<lparr>voteFor := int (ae_LeaderId args), rstate := follower\<rparr>;
       let rf = resetElectionTimer rf;
       let last = int (length (rlog rf)) - 1;
       bad \<leftarrow> (if last < ae_PrevLogIndex args then Some True
               else do { e \<leftarrow> at (rlog rf) (ae_PrevLogIndex args); Some (LogTerm e \<noteq> ae_PrevLogTerm args) });
       if bad then Some (rf, \<lparr>aer_Term = currentTerm rf, aer_Success = False\<rparr>)
       else
         let rf = (if ae_LeaderCommit args > commitIndex rf then
                     if last \<ge> ae_LeaderCommit args then rf\<lparr>commitIndex := ae_LeaderCommit args\<rparr>
                     else rf\<lparr>commitIndex := last\<rparr>
                   else rf)
         in Some (rf, \<lparr>aer_Term = currentTerm rf, aer_Success = True\<rparr>) }
     else if ae_Term args \<ge> currentTerm rf then do {
       let rf = (if ae_Term args > currentTerm rf then rf\<lparr>voteFor := -1, currentTerm := ae_Term args\<rparr> else rf);
       let rf = rf\<lparr>voteFor := int (ae_LeaderId args), rstate := follower\<rparr>;
       let rf = resetElectionTimer rf;
       good \<leftarrow> (if ae_PrevLogIndex args = 0 then Some True
                else if int (length (rlog rf)) \<ge> ae_PrevLogIndex args + 1 then do {
                  e \<leftarrow> at (rlog rf) (ae_PrevLogIndex args); Some (LogTerm e = ae_PrevLogTerm args) }
                else Some False);
       if good then
         let rf = rf\<lparr>rlog := append_entries (rlog rf) (nat (ae_PrevLogIndex args)) (ae_Entries args)\<rparr>;
             last = int (length (rlog rf)) - 1;
             rf = (if last \<ge> ae_LeaderCommit args then rf\<lparr>commitIndex := ae_LeaderCommit args\<rparr>
                   else rf\<lparr>commitIndex := last\<rparr>)
         in Some (rf, \<lparr>aer_Term = currentTerm rf, aer_Success = True\<rparr>)
       else Some (rf, \<lparr>aer_Term = currentTerm rf, aer_Success = False\<rparr>) }
     else Some (rf, \<lparr>aer_Term = currentTerm rf, aer_Success = False\<rparr>))"

section \<open>Votes\<close>

record RequestVoteArgs =
  rv_Term :: int
  rv_CandidateId :: nat
  rv_LastLogIndex :: int
  rv_LastLogTerm :: int

record VoteReply =
  rvr_Term :: int
  rvr_VoteGranted :: bool

definition last_term :: "'c raft \<Rightarrow> int" where
  "last_term rf = (if length (rlog rf) > 1 then LogTerm (rlog rf ! (length (rlog rf) - 1)) else -1)"

text \<open>The locked section of \<^verbatim>\<open>startElection\<close>, and whether it goes on to \<^verbatim>\<open>RequestVote\<close>.\<close>

definition startElection :: "'c raft \<Rightarrow> 'c raft \<times> bool" where
  "startElection rf =
    (if rstate rf = leader then (rf, False)
     else (rf\<lparr>rstate := candidate, currentTerm := currentTerm rf + 1, voteFor := int (me rf)\<rparr>, True))"

text \<open>The locked section of \<^verbatim>\<open>RequestVote\<close>, which \<^verbatim>\<open>startElection\<close> calls after it has unlocked.\<close>

definition RequestVote_args :: "'c raft \<Rightarrow> RequestVoteArgs" where
  "RequestVote_args rf = \<lparr>rv_Term = currentTerm rf, rv_CandidateId = me rf,
     rv_LastLogIndex = int (length (rlog rf)) - 1, rv_LastLogTerm = last_term rf\<rparr>"

text \<open>
  The locked section of a goroutine of \<^verbatim>\<open>RequestVote\<close> whose RPC has returned \<^verbatim>\<open>true\<close>: the new state, the new
  \<^verbatim>\<open>voteNum\<close> of the round, and whether it has just won the election.
\<close>

definition RequestVote_reply :: "'c raft \<Rightarrow> nat \<Rightarrow> RequestVoteArgs \<Rightarrow> VoteReply \<Rightarrow> 'c raft \<times> nat \<times> bool" where
  "RequestVote_reply rf voteNum args reply =
    (if currentTerm rf \<noteq> rv_Term args \<or> rstate rf \<noteq> candidate then (rf, voteNum, False)
     else if rvr_VoteGranted reply then
       let voteNum = voteNum + 1 in
       if voteNum > peers rf div 2 \<and> rstate rf = candidate then
         (rf\<lparr>rstate := leader, nextIndex := map (\<lambda>_. int (length (rlog rf))) (nextIndex rf)\<rparr>, voteNum, True)
       else (rf, voteNum, False)
     else if currentTerm rf < rvr_Term reply then
       (rf\<lparr>currentTerm := rvr_Term reply, voteFor := -1, rstate := follower\<rparr>, voteNum, False)
     else (rf, voteNum, False))"

text \<open>The handler \<^verbatim>\<open>RequestVoteReply\<close>.\<close>

definition RequestVoteReply :: "'c raft \<Rightarrow> RequestVoteArgs \<Rightarrow> 'c raft \<times> VoteReply" where
  "RequestVoteReply rf args =
    (let lastTerm = last_term rf;
         lastIndex = int (length (rlog rf)) - 1;
         rf = (if rv_Term args > currentTerm rf
               then rf\<lparr>currentTerm := rv_Term args, voteFor := -1, rstate := follower\<rparr> else rf)
     in if rv_Term args \<ge> currentTerm rf \<and>
           (length (rlog rf) = 1 \<or> rv_LastLogTerm args > lastTerm \<or>
            rv_LastLogTerm args = lastTerm \<and> rv_LastLogIndex args \<ge> lastIndex)
        then if voteFor rf = -1 \<or> voteFor rf = int (rv_CandidateId args)
          then (resetElectionTimer (rf\<lparr>voteFor := int (rv_CandidateId args)\<rparr>),
                \<lparr>rvr_Term = currentTerm rf, rvr_VoteGranted = True\<rparr>)
          else (rf, \<lparr>rvr_Term = currentTerm rf, rvr_VoteGranted = False\<rparr>)
        else (rf, \<lparr>rvr_Term = currentTerm rf, rvr_VoteGranted = False\<rparr>))"

section \<open>Commands\<close>

text \<open>
  \<^verbatim>\<open>Start\<close> reads term and state under the lock, releases it, and takes it again to append; the
  two sections are \<open>GetState\<close> and \<open>Start_append\<close>.
\<close>

definition Start_append :: "'c raft \<Rightarrow> int \<Rightarrow> 'c \<Rightarrow> 'c raft \<times> int" where
  "Start_append rf term command =
    (rf\<lparr>rlog := rlog rf @ [\<lparr>Entry = Some command, LogTerm = term\<rparr>]\<rparr>, int (length (rlog rf)))"

text \<open>\<^verbatim>\<open>Start\<close> when no other goroutine takes the lock in between.\<close>

definition Start :: "'c raft \<Rightarrow> 'c \<Rightarrow> 'c raft \<times> int \<times> int \<times> bool" where
  "Start rf command =
    (let (term, isLeader) = GetState rf
     in if isLeader then let (rf, index) = Start_append rf term command in (rf, index, term, isLeader)
        else (rf, 0, term, isLeader))"

text \<open>One round of \<^verbatim>\<open>applier\<close>, with the message it sends on \<^verbatim>\<open>applyCh\<close>.\<close>

definition applier_step :: "'c raft \<Rightarrow> ('c raft \<times> 'c ApplyMsg option) option" where
  "applier_step rf =
    (if commitIndex rf > lastApplied rf then
       let rf = rf\<lparr>lastApplied := lastApplied rf + 1\<rparr> in do {
         e \<leftarrow> at (rlog rf) (lastApplied rf);
         Some (rf, Some \<lparr>CommandValid = True, Command = Entry e, CommandIndex = lastApplied rf\<rparr>) }
     else Some (rf, None))"

section \<open>Timers\<close>

text \<open>Times and durations in milliseconds; \<open>r\<close> is the value of \<^verbatim>\<open>rf.rand.Intn(100)\<close>.\<close>

definition randLeaderTimeout :: int where
  "randLeaderTimeout = 100"

definition randElectionTimeout :: "int \<Rightarrow> int" where
  "randElectionTimeout r = 150 + r"

text \<open>
  One turn of \<^verbatim>\<open>electionLoop\<close> up to its \<^verbatim>\<open>time.Sleep\<close>: \<open>None\<close> when the loop ends, otherwise the state, the
  deadline, and whether \<^verbatim>\<open>startElection\<close> is called.  \<open>now1\<close> to \<open>now3\<close> are the values of the clock at
  the points where the turn reads it, \<open>r1\<close> and \<open>r2\<close> the random draws.
\<close>

definition electionLoop_turn :: "'c raft \<Rightarrow> int \<Rightarrow> int \<times> int \<times> int \<Rightarrow> int \<times> int \<Rightarrow> ('c raft \<times> int \<times> bool) option" where
  "electionLoop_turn rf deadline = (\<lambda>(now1, now2, now3) (r1, r2).
    (if killed rf then None
     else if snd (GetState rf) then None
     else
       let (rf, deadline) = (if electionResetCh rf
              then (rf\<lparr>electionResetCh := False\<rparr>, now1 + randElectionTimeout r1) else (rf, deadline))
       in if now2 > deadline
          then Some (fst (startElection rf), now3 + randElectionTimeout r2, True)
          else Some (rf, deadline, False)))"

text \<open>
  One turn of \<^verbatim>\<open>leaderBeatLoop\<close>: the new deadline and whether a heartbeat is started, or \<open>Inl\<close> at
  the end of the loop, with whether the election loop is started again.  That is decided by a second
  look at the peer, which may have changed since: \<open>rf'\<close>.
\<close>

definition leaderBeatLoop_turn :: "'c raft \<Rightarrow> 'c raft \<Rightarrow> int \<Rightarrow> int \<times> int \<Rightarrow> bool + (int \<times> bool)" where
  "leaderBeatLoop_turn rf rf' deadline = (\<lambda>(now1, now2).
    (if killed rf \<or> \<not> snd (GetState rf) then Inl (\<not> snd (GetState rf') \<and> \<not> killed rf')
     else if now1 > deadline then Inr (now2 + randLeaderTimeout, True)
     else Inr (deadline, False)))"

end
