(* ===== verification/Raft_Local.thy ===== *)
theory Raft_Local
  imports Raft
begin

text \<open>
  What each locked section of \<^verbatim>\<open>raft/raft.go\<close> does to one peer: well-formedness, terms that never
  decrease, the effect of the handlers on log and votes, and the applier.
\<close>

section \<open>Well-formed peers\<close>

definition raft_wf :: "nat \<Rightarrow> 'c raft \<Rightarrow> bool" where
  "raft_wf n rf \<longleftrightarrow> peers rf = n \<and> me rf < n \<and> length (nextIndex rf) = n \<and> length (matchIndex rf) = n \<and>
     0 \<le> commitIndex rf \<and> commitIndex rf < int (length (rlog rf)) \<and> 0 \<le> lastApplied rf \<and>
     0 \<le> currentTerm rf \<and> rstate rf \<in> {leader, candidate, follower}"

definition args_wf :: "'c RequestAppendEntriesArgs \<Rightarrow> bool" where
  "args_wf args \<longleftrightarrow> 0 \<le> ae_PrevLogIndex args \<and> 0 \<le> ae_LeaderCommit args"

lemma Make_wf: "self < n \<Longrightarrow> raft_wf n (Make n self ps)"
  by (simp add: raft_wf_def Make_def readPersist_def)

lemma match_loop_spec:
  "match_loop lg i es = (j, rest) \<Longrightarrow> \<exists>k\<le>length es. j = i + k \<and> rest = drop k es \<and>
     (\<forall>x<k. i + x < length lg \<and> LogTerm (es ! x) = LogTerm (lg ! (i + x))) \<and>
     (k < length es \<longrightarrow> i + k < length lg \<longrightarrow> LogTerm (es ! k) \<noteq> LogTerm (lg ! (i + k)))"
proof (induction es arbitrary: i)
  case (Cons e es)
  show ?case
  proof (cases "i < length lg \<and> LogTerm e = LogTerm (lg ! i)")
    case True
    with Cons.prems have "match_loop lg (i + 1) es = (j, rest)" by simp
    from Cons.IH[OF this] obtain k where k: "k \<le> length es" "j = i + 1 + k" "rest = drop k es"
        "\<forall>x<k. i + 1 + x < length lg \<and> LogTerm (es ! x) = LogTerm (lg ! (i + 1 + x))"
        "k < length es \<longrightarrow> i + 1 + k < length lg \<longrightarrow> LogTerm (es ! k) \<noteq> LogTerm (lg ! (i + 1 + k))" by blast
    show ?thesis
    proof (intro exI[of _ "Suc k"] conjI allI impI)
      fix x assume "x < Suc k"
      then show "i + x < length lg" "LogTerm ((e # es) ! x) = LogTerm (lg ! (i + x))"
        using k(4) True by (cases x; force)+
    qed (use k in auto)
  next
    case False
    with Cons.prems show ?thesis by (intro exI[of _ 0]) (auto split: if_splits)
  qed
qed simp

lemma append_entries_cases:
  assumes "prev < length lg"
  obtains (kept) "append_entries lg prev es = lg"
      "\<forall>x<length es. prev + 1 + x < length lg \<and> LogTerm (es ! x) = LogTerm (lg ! (prev + 1 + x))"
  | (extended) k where "k < length es" "append_entries lg prev es = take (prev + 1 + k) lg @ drop k es"
      "\<forall>x<k. prev + 1 + x < length lg \<and> LogTerm (es ! x) = LogTerm (lg ! (prev + 1 + x))"
      "prev + 1 + k \<le> length lg"
      "prev + 1 + k < length lg \<Longrightarrow> LogTerm (es ! k) \<noteq> LogTerm (lg ! (prev + 1 + k))"
proof -
  obtain j rest where m: "match_loop lg (prev + 1) es = (j, rest)" by force
  obtain k where k: "k \<le> length es" "j = prev + 1 + k" "rest = drop k es"
      "\<forall>x<k. prev + 1 + x < length lg \<and> LogTerm (es ! x) = LogTerm (lg ! (prev + 1 + x))"
      "k < length es \<longrightarrow> prev + 1 + k < length lg \<longrightarrow> LogTerm (es ! k) \<noteq> LogTerm (lg ! (prev + 1 + k))"
    using match_loop_spec[OF m] by blast
  have le: "prev + 1 + k \<le> length lg"
  proof (cases k)
    case (Suc x)
    then show ?thesis using k(4)[rule_format, of x] by simp
  qed (use assms in simp)
  show thesis
  proof (cases "k = length es")
    case True
    then show ?thesis using k m by (intro kept) (simp_all add: append_entries_def)
  next
    case False
    then have "append_entries lg prev es = take (prev + 1 + k) lg @ drop k es"
      using k m le by (auto simp: append_entries_def)
    then show ?thesis using False k le by (intro extended[of k]) auto
  qed
qed

lemma append_entries_length:
  assumes "prev < length lg"
  shows "prev + 1 + length es \<le> length (append_entries lg prev es)"
  using assms
proof (cases rule: append_entries_cases[of prev lg es])
  case kept
  then show ?thesis by (cases "length es") (use assms in \<open>auto dest!: spec[of _ "length es - 1"]\<close>)
next
  case (extended k)
  then show ?thesis by simp
qed

lemma append_entries_prefix:
  assumes "prev < length lg" "i \<le> prev"
  shows "append_entries lg prev es ! i = lg ! i"
  using assms(1)
proof (cases rule: append_entries_cases[of prev lg es])
  case (extended k)
  then show ?thesis using assms by (simp add: nth_append)
qed (use assms in simp_all)

lemma append_entries_terms:
  assumes "prev < length lg" "x < length es"
  shows "LogTerm (append_entries lg prev es ! (prev + 1 + x)) = LogTerm (es ! x)"
  using assms(1)
proof (cases rule: append_entries_cases[of prev lg es])
  case (extended k)
  show ?thesis
  proof (cases "x < k")
    case True
    then show ?thesis using extended by (simp add: nth_append)
  next
    case False
    then show ?thesis using extended assms(2) by (simp add: nth_append)
  qed
qed (use assms in simp_all)

lemma match_loop_all:
  "i + length es \<le> length lg \<Longrightarrow> \<forall>x<length es. LogTerm (es ! x) = LogTerm (lg ! (i + x)) \<Longrightarrow>
    match_loop lg i es = (i + length es, [])"
proof (induction es arbitrary: i)
  case (Cons e es)
  have "LogTerm e = LogTerm (lg ! i)" using Cons.prems(2)[rule_format, of 0] by simp
  moreover have "\<forall>x<length es. LogTerm (es ! x) = LogTerm (lg ! (i + 1 + x))"
    using Cons.prems(2) by (metis (no_types, lifting) Suc_less_eq add.assoc length_Cons nth_Cons_Suc plus_1_eq_Suc)
  ultimately show ?case using Cons.IH[of "i + 1"] Cons.prems(1) by simp
qed simp

lemma append_entries_idem:
  assumes "prev < length lg"
  shows "append_entries (append_entries lg prev es) prev es = append_entries lg prev es"
proof -
  let ?l = "append_entries lg prev es"
  have "match_loop ?l (prev + 1) es = (prev + 1 + length es, [])"
    using append_entries_length[OF assms, of es] append_entries_terms[OF assms, of _ es] by (intro match_loop_all) auto
  then show ?thesis by (simp add: append_entries_def)
qed

section \<open>Every step keeps a peer well-formed\<close>

lemma append_entries_nonempty: "lg \<noteq> [] \<Longrightarrow> append_entries lg prev es \<noteq> []"
  by (auto simp: append_entries_def split: prod.splits)

definition heard :: "'c raft \<Rightarrow> 'c RequestAppendEntriesArgs \<Rightarrow> 'c raft" where
  "heard rf args = rf\<lparr>currentTerm := ae_Term args, voteFor := int (ae_LeaderId args), rstate := follower,
     electionResetCh := True\<rparr>"

lemma heard_simps [simp]:
  "peers (heard rf args) = peers rf" "me (heard rf args) = me rf" "dead (heard rf args) = dead rf"
  "currentTerm (heard rf args) = ae_Term args" "voteFor (heard rf args) = int (ae_LeaderId args)"
  "rlog (heard rf args) = rlog rf" "commitIndex (heard rf args) = commitIndex rf"
  "lastApplied (heard rf args) = lastApplied rf" "nextIndex (heard rf args) = nextIndex rf"
  "matchIndex (heard rf args) = matchIndex rf" "rstate (heard rf args) = follower"
  by (simp_all add: heard_def)

lemma heard_unfold:
  assumes "currentTerm rf \<le> ae_Term args"
  shows "resetElectionTimer ((if ae_Term args > currentTerm rf then rf\<lparr>voteFor := -1, currentTerm := ae_Term args\<rparr> else rf)
    \<lparr>voteFor := int (ae_LeaderId args), rstate := follower\<rparr>) = heard rf args"
  using assms by (cases rf) (auto simp: heard_def resetElectionTimer_def)

definition entry_matches :: "'c Log list \<Rightarrow> int \<Rightarrow> int \<Rightarrow> bool" where
  "entry_matches lg i t \<longleftrightarrow> 0 \<le> i \<and> i < int (length lg) \<and> LogTerm (lg ! nat i) = t"

lemma RequestAppendEntriesReply_old:
  "ae_Term args < currentTerm rf \<Longrightarrow>
    RequestAppendEntriesReply rf args = Some (rf, \<lparr>aer_Term = currentTerm rf, aer_Success = False\<rparr>)"
  by (simp add: RequestAppendEntriesReply_def)

lemma RequestAppendEntriesReply_beat:
  assumes "currentTerm rf \<le> ae_Term args" "ae_Entries args = []" "args_wf args"
  shows "RequestAppendEntriesReply rf args =
    (if entry_matches (rlog rf) (ae_PrevLogIndex args) (ae_PrevLogTerm args)
     then Some ((heard rf args)\<lparr>commitIndex :=
            if commitIndex rf < ae_LeaderCommit args then min (ae_LeaderCommit args) (int (length (rlog rf)) - 1)
            else commitIndex rf\<rparr>,
          \<lparr>aer_Term = ae_Term args, aer_Success = True\<rparr>)
     else Some (heard rf args, \<lparr>aer_Term = ae_Term args, aer_Success = False\<rparr>))"
proof -
  have id: "(heard rf args)\<lparr>commitIndex := commitIndex rf\<rparr> = heard rf args" by (cases rf) (simp add: heard_def)
  show ?thesis
    unfolding RequestAppendEntriesReply_def Let_def heard_unfold[OF assms(1)]
    using assms id by (auto simp: entry_matches_def args_wf_def at_def min_def)
qed

lemma RequestAppendEntriesReply_append:
  assumes "currentTerm rf \<le> ae_Term args" "ae_Entries args \<noteq> []" "args_wf args"
  shows "RequestAppendEntriesReply rf args =
    (if ae_PrevLogIndex args = 0 \<or> entry_matches (rlog rf) (ae_PrevLogIndex args) (ae_PrevLogTerm args)
     then let lg = append_entries (rlog rf) (nat (ae_PrevLogIndex args)) (ae_Entries args)
          in Some ((heard rf args)\<lparr>rlog := lg, commitIndex := min (ae_LeaderCommit args) (int (length lg) - 1)\<rparr>,
               \<lparr>aer_Term = ae_Term args, aer_Success = True\<rparr>)
     else Some (heard rf args, \<lparr>aer_Term = ae_Term args, aer_Success = False\<rparr>))"
  unfolding RequestAppendEntriesReply_def Let_def heard_unfold[OF assms(1)]
  using assms by (auto simp: entry_matches_def args_wf_def at_def min_def)

lemma RequestAppendEntriesReply_cases:
  assumes "RequestAppendEntriesReply rf args = Some (rf', reply)" "args_wf args"
  obtains (old) "ae_Term args < currentTerm rf" "rf' = rf" "reply = \<lparr>aer_Term = currentTerm rf, aer_Success = False\<rparr>"
  | (kept) ok c where "currentTerm rf \<le> ae_Term args" "rf' = (heard rf args)\<lparr>commitIndex := c\<rparr>"
    "reply = \<lparr>aer_Term = ae_Term args, aer_Success = ok\<rparr>"
    "c = (if ok \<and> commitIndex rf < ae_LeaderCommit args then min (ae_LeaderCommit args) (int (length (rlog rf)) - 1)
      else commitIndex rf)"
    "ok \<longrightarrow> ae_Entries args = [] \<and> entry_matches (rlog rf) (ae_PrevLogIndex args) (ae_PrevLogTerm args)"
  | (appended) lg where "currentTerm rf \<le> ae_Term args" "ae_Entries args \<noteq> []"
    "ae_PrevLogIndex args = 0 \<or> entry_matches (rlog rf) (ae_PrevLogIndex args) (ae_PrevLogTerm args)"
    "lg = append_entries (rlog rf) (nat (ae_PrevLogIndex args)) (ae_Entries args)"
    "rf' = (heard rf args)\<lparr>rlog := lg, commitIndex := min (ae_LeaderCommit args) (int (length lg) - 1)\<rparr>"
    "reply = \<lparr>aer_Term = ae_Term args, aer_Success = True\<rparr>"
proof -
  have id: "(heard rf args)\<lparr>commitIndex := commitIndex rf\<rparr> = heard rf args" by (cases rf) (simp add: heard_def)
  consider "ae_Term args < currentTerm rf" | "currentTerm rf \<le> ae_Term args" "ae_Entries args = []"
    | "currentTerm rf \<le> ae_Term args" "ae_Entries args \<noteq> []" by linarith
  then show thesis
  proof cases
    case 1
    then show ?thesis using assms(1) by (intro old) (auto simp: RequestAppendEntriesReply_old)
  next
    case 2
    let ?m = "entry_matches (rlog rf) (ae_PrevLogIndex args) (ae_PrevLogTerm args)"
    let ?c = "if commitIndex rf < ae_LeaderCommit args then min (ae_LeaderCommit args) (int (length (rlog rf)) - 1)
            else commitIndex rf"
    show ?thesis
    proof (cases ?m)
      case True
      with 2 assms have "rf' = (heard rf args)\<lparr>commitIndex := ?c\<rparr>" "reply = \<lparr>aer_Term = ae_Term args, aer_Success = True\<rparr>"
        by (simp_all add: RequestAppendEntriesReply_beat)
      with 2 True show ?thesis by (intro kept[of ?c True]) auto
    next
      case False
      with 2 assms id show ?thesis by (intro kept[of "commitIndex rf" False]) (simp_all add: RequestAppendEntriesReply_beat)
    qed
  next
    case 3
    with assms id show ?thesis
      by (cases "ae_PrevLogIndex args = 0 \<or> entry_matches (rlog rf) (ae_PrevLogIndex args) (ae_PrevLogTerm args)")
        (auto simp: RequestAppendEntriesReply_append Let_def intro: kept[of "commitIndex rf" False] appended)
  qed
qed

lemma append_entries_nat_length:
  "0 < length lg \<Longrightarrow> 0 < length (append_entries lg prev es)"
  using append_entries_nonempty[of lg prev es] by simp

lemma RequestAppendEntriesReply_wf:
  assumes "raft_wf n rf" "args_wf args" "RequestAppendEntriesReply rf args = Some (rf', reply)"
  shows "raft_wf n rf'"
  using assms(3,2)
proof (cases rule: RequestAppendEntriesReply_cases)
  case old
  with assms(1) show ?thesis by simp
next
  case (kept ok c)
  with assms(1,2) show ?thesis by (auto simp: raft_wf_def args_wf_def)
next
  case (appended lg)
  have "0 < length lg" unfolding appended(4) by (rule append_entries_nat_length) (use assms(1) in \<open>auto simp: raft_wf_def\<close>)
  with appended assms(1,2) show ?thesis by (auto simp: raft_wf_def args_wf_def)
qed

lemma RequestAppendEntriesReply_total:
  assumes "args_wf args"
  shows "\<exists>rf' reply. RequestAppendEntriesReply rf args = Some (rf', reply)"
proof -
  consider "ae_Term args < currentTerm rf" | "currentTerm rf \<le> ae_Term args" "ae_Entries args = []"
    | "currentTerm rf \<le> ae_Term args" "ae_Entries args \<noteq> []" by linarith
  then show ?thesis
    by cases (simp_all add: RequestAppendEntriesReply_old RequestAppendEntriesReply_beat
        RequestAppendEntriesReply_append assms Let_def)
qed

lemma commit_loop_result:
  "commit_loop rf cmt i cnt mis = Some rf' \<Longrightarrow> rf' = rf \<or>
    (0 \<le> cmt \<and> cmt < int (length (rlog rf)) \<and> LogTerm (rlog rf ! nat cmt) = currentTerm rf \<and>
     rf' = rf\<lparr>commitIndex := cmt\<rparr>)"
  by (induction mis arbitrary: i cnt) (auto simp: Let_def bind_Some_iff at_Some_iff split: if_splits)

lemma same_commit: "rf\<lparr>nextIndex := xs, matchIndex := ys, commitIndex := commitIndex rf\<rparr> = rf\<lparr>nextIndex := xs, matchIndex := ys\<rparr>"
    "rf\<lparr>nextIndex := xs, matchIndex := matchIndex rf, commitIndex := commitIndex rf\<rparr> = rf\<lparr>nextIndex := xs\<rparr>"
  by (cases rf; simp)+

lemma RequestHeartBeat_reply_cases:
  assumes "RequestHeartBeat_reply rf server args reply = Some rf'"
  obtains (stale) "rf' = rf"
  | (demoted) "ae_Term args = currentTerm rf" "currentTerm rf < aer_Term reply"
    "rf' = rf\<lparr>currentTerm := aer_Term reply, voteFor := -1, rstate := follower\<rparr>"
  | (indices) nexts matches c where "ae_Term args = currentTerm rf"
    "rf' = rf\<lparr>nextIndex := nexts, matchIndex := matches, commitIndex := c\<rparr>"
    "length nexts = length (nextIndex rf)" "length matches = length (matchIndex rf)"
    "c = commitIndex rf \<or> (commitIndex rf < c \<and> 0 \<le> c \<and> c < int (length (rlog rf)) \<and>
       LogTerm (rlog rf ! nat c) = currentTerm rf)"
proof -
  consider (ig) "ae_Term args \<noteq> currentTerm rf" | (de) "ae_Term args = currentTerm rf" "currentTerm rf < aer_Term reply"
    | (ok) "ae_Term args = currentTerm rf" "\<not> currentTerm rf < aer_Term reply" "ae_Entries args \<noteq> []" "aer_Success reply"
    | (no) "ae_Term args = currentTerm rf" "\<not> currentTerm rf < aer_Term reply" "\<not> aer_Success reply"
    | (hb) "ae_Term args = currentTerm rf" "\<not> currentTerm rf < aer_Term reply" "ae_Entries args = []" "aer_Success reply"
    by blast
  then show thesis
  proof cases
    case ok
    let ?cmt = "ae_PrevLogIndex args + int (length (ae_Entries args))"
    define nexts matches where nm: "nexts = (nextIndex rf)[server := ?cmt + 1]" "matches = (matchIndex rf)[server := ?cmt]"
    have u: "length nexts = length (nextIndex rf)" "length matches = length (matchIndex rf)"
        "(if commitIndex rf < ?cmt then commit_loop (rf\<lparr>nextIndex := nexts, matchIndex := matches\<rparr>) ?cmt 0 1 matches
          else Some (rf\<lparr>nextIndex := nexts, matchIndex := matches\<rparr>)) = Some rf'"
      using ok assms by (auto simp: RequestHeartBeat_reply_def Let_def bind_Some_iff upd_at_Some_iff nm)
    then show ?thesis
    proof (cases "commitIndex rf < ?cmt")
      case True
      with u(3) have "commit_loop (rf\<lparr>nextIndex := nexts, matchIndex := matches\<rparr>) ?cmt 0 1 matches = Some rf'" by simp
      from commit_loop_result[OF this] show ?thesis
      proof
        assume "rf' = rf\<lparr>nextIndex := nexts, matchIndex := matches\<rparr>"
        with ok u show ?thesis by (intro indices[where nexts = nexts and matches = matches and c = "commitIndex rf"]) (simp_all add: same_commit)
      next
        assume "0 \<le> ?cmt \<and> ?cmt < int (length (rlog (rf\<lparr>nextIndex := nexts, matchIndex := matches\<rparr>))) \<and>
          LogTerm (rlog (rf\<lparr>nextIndex := nexts, matchIndex := matches\<rparr>) ! nat ?cmt) =
            currentTerm (rf\<lparr>nextIndex := nexts, matchIndex := matches\<rparr>) \<and>
          rf' = rf\<lparr>nextIndex := nexts, matchIndex := matches\<rparr>\<lparr>commitIndex := ?cmt\<rparr>"
        with ok u True show ?thesis by (intro indices[where nexts = nexts and matches = matches and c = ?cmt]) (simp_all add: same_commit)
      qed
    next
      case False
      with u(3) have "rf' = rf\<lparr>nextIndex := nexts, matchIndex := matches\<rparr>" by simp
      with ok u(1,2) show ?thesis by (intro indices[where nexts = nexts and matches = matches and c = "commitIndex rf"]) (simp_all add: same_commit)
    qed
  next
    case no
    define nexts where "nexts = (nextIndex rf)[server := nextIndex rf ! server - 1]"
    have "rf' = rf\<lparr>nextIndex := nexts\<rparr>" "length nexts = length (nextIndex rf)" unfolding nexts_def
      using no assms by (auto simp: RequestHeartBeat_reply_def Let_def bind_Some_iff upd_at_Some_iff at_Some_iff split: if_splits)
    with no show ?thesis by (intro indices[where nexts = nexts and matches = "matchIndex rf" and c = "commitIndex rf"]) (simp_all add: same_commit)
  next
    case ig
    with assms show ?thesis by (intro stale) (simp add: RequestHeartBeat_reply_def)
  next
    case de
    with assms show ?thesis by (intro demoted) (simp_all add: RequestHeartBeat_reply_def)
  next
    case hb
    with assms show ?thesis by (intro stale) (simp add: RequestHeartBeat_reply_def)
  qed
qed

lemma RequestHeartBeat_reply_wf:
  assumes "raft_wf n rf" "RequestHeartBeat_reply rf server args reply = Some rf'"
  shows "raft_wf n rf'"
  using assms(2)
proof (cases rule: RequestHeartBeat_reply_cases)
  case stale
  with assms(1) show ?thesis by simp
next
  case demoted
  with assms(1) show ?thesis by (simp add: raft_wf_def)
next
  case (indices nexts matches c)
  with assms(1) show ?thesis by (auto simp: raft_wf_def)
qed

lemma RequestVoteReply_wf: "raft_wf n rf \<Longrightarrow> 0 \<le> rv_Term args \<Longrightarrow> raft_wf n (fst (RequestVoteReply rf args))"
  by (auto simp: RequestVoteReply_def raft_wf_def resetElectionTimer_def Let_def)

lemma RequestVote_reply_wf: "raft_wf n rf \<Longrightarrow> raft_wf n (fst (RequestVote_reply rf voteNum args reply))"
  by (auto simp: RequestVote_reply_def raft_wf_def Let_def)

lemma startElection_wf: "raft_wf n rf \<Longrightarrow> raft_wf n (fst (startElection rf))"
  by (auto simp: startElection_def raft_wf_def)

lemma Start_append_wf: "raft_wf n rf \<Longrightarrow> raft_wf n (fst (Start_append rf term command))"
  by (auto simp: Start_append_def raft_wf_def)

lemma RequestHeartBeat_args_wf:
  assumes "raft_wf n rf" "RequestHeartBeat_args rf server = Some args"
  shows "args_wf args" "ae_Term args = currentTerm rf" "ae_LeaderId args = me rf"
  using assms
  by (auto simp: RequestHeartBeat_args_def args_wf_def raft_wf_def Let_def bind_Some_iff at_Some_iff split: if_splits)

section \<open>The applier\<close>

lemma applier_step_total:
  assumes "raft_wf n rf"
  shows "\<exists>rf' msg. applier_step rf = Some (rf', msg) \<and> raft_wf n rf' \<and>
    (case msg of None \<Rightarrow> rf' = rf \<and> commitIndex rf \<le> lastApplied rf
     | Some m \<Rightarrow> CommandValid m \<and> CommandIndex m = lastApplied rf + 1 \<and> lastApplied rf' = lastApplied rf + 1 \<and>
         CommandIndex m \<le> commitIndex rf \<and> Command m = Entry (rlog rf ! nat (CommandIndex m)))"
  using assms by (auto simp: applier_step_def raft_wf_def Let_def at_def)

fun applier_run :: "nat \<Rightarrow> 'c raft \<Rightarrow> ('c raft \<times> 'c ApplyMsg list) option" where
  "applier_run 0 rf = Some (rf, [])"
| "applier_run (Suc k) rf = do {
     (rf, msg) \<leftarrow> applier_step rf;
     (rf, msgs) \<leftarrow> applier_run k rf;
     Some (rf, (case msg of None \<Rightarrow> msgs | Some m \<Rightarrow> m # msgs)) }"

lemma applier_run_order:
  assumes "raft_wf n rf"
  shows "\<exists>rf' msgs. applier_run k rf = Some (rf', msgs) \<and> rlog rf' = rlog rf \<and>
    length msgs = min k (nat (commitIndex rf - lastApplied rf)) \<and>
    (\<forall>i<length msgs. CommandIndex (msgs ! i) = lastApplied rf + 1 + int i \<and>
       Command (msgs ! i) = Entry (rlog rf ! nat (lastApplied rf + 1 + int i)))"
  using assms
proof (induction k arbitrary: rf)
  case (Suc k)
  show ?case
  proof (cases "commitIndex rf > lastApplied rf")
    case True
    let ?rf = "rf\<lparr>lastApplied := lastApplied rf + 1\<rparr>"
    let ?m = "\<lparr>CommandValid = True, Command = Entry (rlog rf ! nat (lastApplied rf + 1)), CommandIndex = lastApplied rf + 1\<rparr>"
    have s: "applier_step rf = Some (?rf, Some ?m)" using True Suc.prems by (simp add: applier_step_def raft_wf_def at_def)
    have "raft_wf n ?rf" using Suc.prems by (simp add: raft_wf_def)
    from Suc.IH[OF this] obtain rf' msgs where r: "applier_run k ?rf = Some (rf', msgs)" "rlog rf' = rlog rf"
        "length msgs = min k (nat (commitIndex rf - (lastApplied rf + 1)))"
        "\<forall>i<length msgs. CommandIndex (msgs ! i) = lastApplied rf + 1 + 1 + int i \<and>
           Command (msgs ! i) = Entry (rlog rf ! nat (lastApplied rf + 1 + 1 + int i))" by auto
    have "CommandIndex ((?m # msgs) ! i) = lastApplied rf + 1 + int i \<and>
          Command ((?m # msgs) ! i) = Entry (rlog rf ! nat (lastApplied rf + 1 + int i))" if "i < length (?m # msgs)" for i
      using r(4) that by (cases i) (auto simp: algebra_simps)
    moreover have "length (?m # msgs) = min (Suc k) (nat (commitIndex rf - lastApplied rf))" using r(3) True by auto
    ultimately show ?thesis using s r(1,2) by (intro exI[of _ rf'] exI[of _ "?m # msgs"]) simp
  next
    case False
    then have "applier_step rf = Some (rf, None)" by (simp add: applier_step_def)
    with Suc.IH[OF Suc.prems] False show ?thesis by auto
  qed
qed simp

section \<open>Terms and votes\<close>

lemma term_mono:
  "RequestAppendEntriesReply rf args = Some (rf', reply) \<Longrightarrow> currentTerm rf \<le> currentTerm rf'"
  "RequestHeartBeat_reply rf server args reply' = Some rf' \<Longrightarrow> currentTerm rf \<le> currentTerm rf'"
  "currentTerm rf \<le> currentTerm (fst (RequestVoteReply rf vargs))"
  "currentTerm rf \<le> currentTerm (fst (RequestVote_reply rf voteNum vargs vreply))"
  "currentTerm rf \<le> currentTerm (fst (startElection rf))"
      apply (auto simp: RequestAppendEntriesReply_def Let_def resetElectionTimer_def bind_Some_iff split: if_splits)[1]
     apply (erule RequestHeartBeat_reply_cases; simp)
    apply (simp add: RequestVoteReply_def Let_def resetElectionTimer_def)
   apply (simp add: RequestVote_reply_def Let_def)
  apply (simp add: startElection_def)
  done

end
