(* ===== verification/Raft_Handlers.thy ===== *)
theory Raft_Handlers
  imports Raft_Local
begin

text \<open>
  The guarantees of the handlers of \<^verbatim>\<open>raft/raft.go\<close> for one peer: what an accepted append request
  leaves in the log and what its redelivery changes, that every locked section keeps the peer
  well-formed and sends well-formed requests, when a vote is granted, and the order in which the
  applier delivers.
\<close>

section \<open>Append requests\<close>

definition handler_accepts :: "'c raft \<Rightarrow> 'c RequestAppendEntriesArgs \<Rightarrow> 'c raft \<Rightarrow> bool" where
  "handler_accepts rf args rf' \<longleftrightarrow>
     RequestAppendEntriesReply rf args = Some (rf', \<lparr>aer_Term = currentTerm rf', aer_Success = True\<rparr>)"

lemma entry_matches_range:
  "raft_wf n rf \<Longrightarrow> ae_PrevLogIndex args = 0 \<or> entry_matches (rlog rf) (ae_PrevLogIndex args) (ae_PrevLogTerm args) \<Longrightarrow>
    nat (ae_PrevLogIndex args) < length (rlog rf)"
  by (auto simp: raft_wf_def entry_matches_def)

text \<open>
  \<^bold>\<open>C13\<close>. An accepted AppendEntries makes the peer a follower of the sender in its term, keeps the log up to
  the previous index, and leaves every sent entry in place by term at its position.
\<close>

theorem append_entries_accepted:
  assumes wf: "raft_wf n rf" "args_wf args" and a: "handler_accepts rf args rf'"
  shows "rstate rf' = follower \<and> currentTerm rf' = ae_Term args \<and> voteFor rf' = int (ae_LeaderId args) \<and>
    (let prev = nat (ae_PrevLogIndex args) in
      take (prev + 1) (rlog rf') = take (prev + 1) (rlog rf) \<and>
      prev + 1 + length (ae_Entries args) \<le> length (rlog rf') \<and>
      (\<forall>x<length (ae_Entries args). LogTerm (rlog rf' ! (prev + 1 + x)) = LogTerm (ae_Entries args ! x)) \<and>
      (ae_PrevLogIndex args \<noteq> 0 \<longrightarrow> LogTerm (rlog rf ! prev) = ae_PrevLogTerm args))"
  using a[unfolded handler_accepts_def] wf(2)
proof (cases rule: RequestAppendEntriesReply_cases)
  case (kept ok c)
  then have "entry_matches (rlog rf) (ae_PrevLogIndex args) (ae_PrevLogTerm args)" "ae_Entries args = []" by auto
  with kept show ?thesis by (auto simp: entry_matches_def Let_def)
next
  case (appended lg)
  note r = entry_matches_range[OF wf(1) appended(3)]
  have "take (nat (ae_PrevLogIndex args) + 1) lg = take (nat (ae_PrevLogIndex args) + 1) (rlog rf)"
    using append_entries_length[OF r, of "ae_Entries args"] append_entries_prefix[OF r] r unfolding appended(4)
    by (intro nth_equalityI) auto
  then show ?thesis
    using appended append_entries_length[OF r, of "ae_Entries args"] append_entries_terms[OF r, of _ "ae_Entries args"]
    by (auto simp: Let_def entry_matches_def)
qed simp

definition demo_args :: "nat RequestAppendEntriesArgs" where
  "demo_args = \<lparr>ae_Term = 1, ae_LeaderId = 2, ae_PrevLogIndex = 0, ae_PrevLogTerm = -1,
     ae_Entries = [\<lparr>Entry = Some 7, LogTerm = 1\<rparr>], ae_LeaderCommit = 0\<rparr>"

theorem append_entries_accepted_witness:
  "\<exists>rf'. handler_accepts (Make 3 0 MakePersister) demo_args rf' \<and> rstate rf' = follower \<and> voteFor rf' = 2 \<and> 2 \<le> length (rlog rf')"
proof -
  have wf: "raft_wf 3 (Make 3 0 MakePersister :: nat raft)" "args_wf demo_args"
    by (simp_all add: Make_wf demo_args_def args_wf_def)
  have a: "handler_accepts (Make 3 0 MakePersister) demo_args (fst (the (RequestAppendEntriesReply (Make 3 0 MakePersister) demo_args)))"
    by code_simp
  from append_entries_accepted[OF wf a] a show ?thesis by (intro exI) (auto simp: demo_args_def Let_def)
qed

text \<open>
  A log that still has what an accepted request left there: up to the last sent entry it agrees by term
  with the log \<open>lg\<close> right after the request was accepted.
\<close>

definition still_has :: "'c Log list \<Rightarrow> 'c RequestAppendEntriesArgs \<Rightarrow> 'c Log list \<Rightarrow> bool" where
  "still_has lg args lg' \<longleftrightarrow> (\<forall>k \<le> nat (ae_PrevLogIndex args) + length (ae_Entries args).
     k < length lg' \<and> LogTerm (lg' ! k) = LogTerm (lg ! k))"

lemma append_entries_present:
  assumes "prev + length es < length lg" "\<forall>x<length es. LogTerm (lg ! (prev + 1 + x)) = LogTerm (es ! x)"
  shows "append_entries lg prev es = lg"
proof -
  have "match_loop lg (prev + 1) es = (prev + 1 + length es, [])" using assms by (intro match_loop_all) auto
  then show ?thesis by (simp add: append_entries_def)
qed

lemma redelivery_matches:
  assumes wf: "raft_wf n rf" "args_wf args" and a: "handler_accepts rf args rf1" and h: "still_has (rlog rf1) args lg"
  shows "append_entries lg (nat (ae_PrevLogIndex args)) (ae_Entries args) = lg"
    "(ae_PrevLogIndex args = 0 \<and> ae_Entries args \<noteq> []) \<or> entry_matches lg (ae_PrevLogIndex args) (ae_PrevLogTerm args)"
proof -
  let ?p = "nat (ae_PrevLogIndex args)"
  have f: "(\<forall>x<length (ae_Entries args). LogTerm (rlog rf1 ! (?p + 1 + x)) = LogTerm (ae_Entries args ! x)) \<and>
      ((ae_PrevLogIndex args = 0 \<and> ae_Entries args \<noteq> []) \<or> entry_matches (rlog rf1) (ae_PrevLogIndex args) (ae_PrevLogTerm args))"
    using a[unfolded handler_accepts_def] wf(2)
  proof (cases rule: RequestAppendEntriesReply_cases)
    case (appended lg)
    note r = entry_matches_range[OF wf(1) appended(3)]
    show ?thesis using appended append_entries_terms[OF r, of _ "ae_Entries args"] append_entries_prefix[OF r, of ?p]
        append_entries_length[OF r, of "ae_Entries args"] r by (auto simp: entry_matches_def)
  qed simp_all
  have l: "k < length lg" "LogTerm (lg ! k) = LogTerm (rlog rf1 ! k)" if "k \<le> ?p + length (ae_Entries args)" for k
    using h that by (auto simp: still_has_def)
  show "append_entries lg ?p (ae_Entries args) = lg"
    using f l(2) by (intro append_entries_present l(1)) auto
  show "(ae_PrevLogIndex args = 0 \<and> ae_Entries args \<noteq> []) \<or> entry_matches lg (ae_PrevLogIndex args) (ae_PrevLogTerm args)"
    using f l[of ?p] wf(2) by (auto simp: entry_matches_def args_wf_def nat_less_iff)
qed

lemma accepted_still_has:
  assumes "raft_wf n rf" "args_wf args" "handler_accepts rf args rf1"
  shows "still_has (rlog rf1) args (rlog rf1)"
  using assms(3)[unfolded handler_accepts_def] assms(2)
proof (cases rule: RequestAppendEntriesReply_cases)
  case (kept ok c)
  then show ?thesis by (auto simp: still_has_def entry_matches_def)
next
  case (appended lg)
  then show ?thesis using append_entries_length[OF entry_matches_range[OF assms(1) appended(3)], of "ae_Entries args"]
    by (auto simp: still_has_def)
qed simp

text \<open>
  \<^bold>\<open>C14\<close>. Redelivery of an accepted AppendEntries, at once or after other messages, never changes the log as
  long as the log still has, by term, what the request left there. A peer with a newer term rejects
  it unchanged; otherwise it succeeds, and the commit index becomes the smaller of the sent one and
  the last index when entries were sent, and is never lowered when none were. Delivered twice in a
  row, it leaves the commit index as it was.
\<close>

theorem append_entries_redelivered:
  assumes wf: "raft_wf n rf" "args_wf args" and a: "handler_accepts rf args rf1"
  shows "still_has (rlog rf1) args (rlog rf1) \<and>
    (\<forall>rf2. raft_wf n rf2 \<longrightarrow> still_has (rlog rf1) args (rlog rf2) \<longrightarrow>
      (\<exists>rf3 reply. RequestAppendEntriesReply rf2 args = Some (rf3, reply) \<and> rlog rf3 = rlog rf2 \<and>
        (ae_Term args < currentTerm rf2 \<longrightarrow> \<not> aer_Success reply \<and> rf3 = rf2) \<and>
        (currentTerm rf2 \<le> ae_Term args \<longrightarrow> aer_Success reply \<and> currentTerm rf3 = ae_Term args \<and>
          commitIndex rf3 = (let c = min (ae_LeaderCommit args) (int (length (rlog rf2)) - 1)
            in if ae_Entries args = [] then max c (commitIndex rf2) else c)) \<and>
        (rf2 = rf1 \<longrightarrow> aer_Success reply \<and> commitIndex rf3 = commitIndex rf1)))"
proof (intro conjI allI impI)
  show "still_has (rlog rf1) args (rlog rf1)" by (rule accepted_still_has[OF wf a])
  fix rf2 :: "'a raft" assume w2: "raft_wf n rf2" and h: "still_has (rlog rf1) args (rlog rf2)"
  note m = redelivery_matches[OF wf a h]
  let ?c = "min (ae_LeaderCommit args) (int (length (rlog rf2)) - 1)"
  have rf1: "currentTerm rf1 = ae_Term args \<and> (ae_Entries args \<noteq> [] \<longrightarrow> commitIndex rf1 = min (ae_LeaderCommit args) (int (length (rlog rf1)) - 1)) \<and>
      (ae_Entries args = [] \<longrightarrow> min (ae_LeaderCommit args) (int (length (rlog rf1)) - 1) \<le> commitIndex rf1)"
    using a[unfolded handler_accepts_def] wf(2) by (cases rule: RequestAppendEntriesReply_cases) auto
  consider "ae_Term args < currentTerm rf2" | "currentTerm rf2 \<le> ae_Term args" "ae_Entries args = []"
    | "currentTerm rf2 \<le> ae_Term args" "ae_Entries args \<noteq> []" by linarith
  then show "\<exists>rf3 reply. RequestAppendEntriesReply rf2 args = Some (rf3, reply) \<and> rlog rf3 = rlog rf2 \<and>
        (ae_Term args < currentTerm rf2 \<longrightarrow> \<not> aer_Success reply \<and> rf3 = rf2) \<and>
        (currentTerm rf2 \<le> ae_Term args \<longrightarrow> aer_Success reply \<and> currentTerm rf3 = ae_Term args \<and>
          commitIndex rf3 = (let c = ?c in if ae_Entries args = [] then max c (commitIndex rf2) else c)) \<and>
        (rf2 = rf1 \<longrightarrow> aer_Success reply \<and> commitIndex rf3 = commitIndex rf1)"
  proof cases
    case 1
    then show ?thesis using rf1 by (auto simp: RequestAppendEntriesReply_old)
  next
    case 2
    then show ?thesis using m(2) wf(2) rf1 w2 by (auto simp: RequestAppendEntriesReply_beat raft_wf_def max_def min_def Let_def)
  next
    case 3
    then have "RequestAppendEntriesReply rf2 args =
        Some ((heard rf2 args)\<lparr>rlog := rlog rf2, commitIndex := ?c\<rparr>, \<lparr>aer_Term = ae_Term args, aer_Success = True\<rparr>)"
      using m by (simp add: RequestAppendEntriesReply_append[OF _ _ wf(2)] Let_def)
    then show ?thesis using 3 rf1 by auto
  qed
qed

theorem append_entries_redelivered_witness:
  "\<exists>rf1 rf3 reply. handler_accepts (Make 3 0 MakePersister) demo_args rf1 \<and>
     RequestAppendEntriesReply rf1 demo_args = Some (rf3, reply) \<and> aer_Success reply \<and> rlog rf3 = rlog rf1 \<and> length (rlog rf1) = 2"
proof -
  have wf: "raft_wf 3 (Make 3 0 MakePersister :: nat raft)" "args_wf demo_args"
    by (simp_all add: Make_wf demo_args_def args_wf_def)
  obtain rf1 where r: "handler_accepts (Make 3 0 MakePersister) demo_args rf1" "length (rlog rf1) = 2"
  proof
    let ?r = "fst (the (RequestAppendEntriesReply (Make 3 0 MakePersister) demo_args))"
    show "handler_accepts (Make 3 0 MakePersister) demo_args ?r" "length (rlog ?r) = 2" by code_simp+
  qed
  then have "raft_wf 3 rf1" using RequestAppendEntriesReply_wf[OF wf] by (simp add: handler_accepts_def)
  with append_entries_redelivered[OF wf r(1)] r show ?thesis by blast
qed

section \<open>Well-formed peers and requests\<close>

text \<open>
  What every locked section keeps: besides the sizes and ranges of \<open>raft_wf\<close>, the dummy entry at index 0
  of the log, no entry with a negative term or one above the peer's term, and a vote for nobody or for a
  peer.  Nothing bounds \<open>nextIndex\<close> from below or \<open>lastApplied\<close> by the log.
\<close>

definition peer_ok :: "nat \<Rightarrow> 'c raft \<Rightarrow> bool" where
  "peer_ok n rf \<longleftrightarrow> raft_wf n rf \<and> rlog rf ! 0 = \<lparr>Entry = None, LogTerm = 0\<rparr> \<and>
     (\<forall>e\<in>set (rlog rf). 0 \<le> LogTerm e \<and> LogTerm e \<le> currentTerm rf) \<and> -1 \<le> voteFor rf \<and> voteFor rf < int n"

definition append_args_ok :: "nat \<Rightarrow> 'c RequestAppendEntriesArgs \<Rightarrow> bool" where
  "append_args_ok n args \<longleftrightarrow> args_wf args \<and> ae_LeaderId args < n \<and> 0 \<le> ae_Term args \<and>
     (\<forall>e\<in>set (ae_Entries args). 0 \<le> LogTerm e \<and> LogTerm e \<le> ae_Term args)"

definition vote_args_ok :: "nat \<Rightarrow> RequestVoteArgs \<Rightarrow> bool" where
  "vote_args_ok n args \<longleftrightarrow> 0 \<le> rv_Term args \<and> rv_CandidateId args < n"

lemma peer_okD:
  assumes "peer_ok n rf"
  shows "raft_wf n rf" "rlog rf ! 0 = \<lparr>Entry = None, LogTerm = 0\<rparr>" "e \<in> set (rlog rf) \<Longrightarrow> 0 \<le> LogTerm e \<and> LogTerm e \<le> currentTerm rf"
    "-1 \<le> voteFor rf" "voteFor rf < int n" "rlog rf \<noteq> []"
  using assms by (auto simp: peer_ok_def raft_wf_def)

lemma peer_okI:
  assumes "peer_ok n rf" "raft_wf n rf'" "rlog rf' = rlog rf" "currentTerm rf \<le> currentTerm rf'" "-1 \<le> voteFor rf'" "voteFor rf' < int n"
  shows "peer_ok n rf'"
  using assms by (fastforce simp: peer_ok_def)

lemma append_entries_set:
  "prev < length lg \<Longrightarrow> set (append_entries lg prev es) \<subseteq> set lg \<union> set es"
  by (auto elim!: append_entries_cases[of prev lg es] dest: in_set_takeD in_set_dropD)

lemma Make_ok: "self < n \<Longrightarrow> peer_ok n (Make n self ps)"
  by (simp add: peer_ok_def Make_wf) (simp add: Make_def readPersist_def)

lemma RequestAppendEntriesReply_ok:
  assumes ok: "peer_ok n rf" "append_args_ok n args" and r: "RequestAppendEntriesReply rf args = Some (rf', reply)"
  shows "peer_ok n rf'"
proof -
  have aw: "args_wf args" using ok(2) by (simp add: append_args_ok_def)
  have wf: "raft_wf n rf'" by (rule RequestAppendEntriesReply_wf[OF peer_okD(1)[OF ok(1)] aw r])
  from r aw show ?thesis
  proof (cases rule: RequestAppendEntriesReply_cases)
    case old
    with ok(1) show ?thesis by simp
  next
    case (kept c k)
    with wf ok(2) show ?thesis by (intro peer_okI[OF ok(1) wf]) (auto simp: append_args_ok_def)
  next
    case (appended lg)
    have p: "nat (ae_PrevLogIndex args) < length (rlog rf)"
      using appended(3) peer_okD(6)[OF ok(1)] by (auto simp: entry_matches_def)
    have "lg ! 0 = rlog rf ! 0" unfolding appended(4) by (rule append_entries_prefix[OF p]) simp
    moreover have "0 \<le> LogTerm e \<and> LogTerm e \<le> ae_Term args" if "e \<in> set lg" for e
      using append_entries_set[OF p, of "ae_Entries args"] that ok(2) peer_okD(3)[OF ok(1), of e] appended(1)
      unfolding appended(4) append_args_ok_def by fastforce
    ultimately show ?thesis using wf ok(2) peer_okD(2)[OF ok(1)] appended by (auto simp: peer_ok_def append_args_ok_def)
  qed
qed

lemma RequestHeartBeat_reply_ok:
  assumes "peer_ok n rf" "RequestHeartBeat_reply rf server args reply = Some rf'"
  shows "peer_ok n rf'"
proof -
  note wf = RequestHeartBeat_reply_wf[OF peer_okD(1)[OF assms(1)] assms(2)]
  from assms(2) have "rlog rf' = rlog rf \<and> currentTerm rf \<le> currentTerm rf' \<and> (voteFor rf' = -1 \<or> voteFor rf' = voteFor rf)"
    by (cases rule: RequestHeartBeat_reply_cases) simp_all
  with peer_okD(4,5)[OF assms(1)] show ?thesis by (intro peer_okI[OF assms(1) wf]) auto
qed

lemma RequestVoteReply_ok:
  assumes "peer_ok n rf" "vote_args_ok n args"
  shows "peer_ok n (fst (RequestVoteReply rf args))"
  using assms(2) peer_okD(4,5)[OF assms(1)]
  by (intro peer_okI[OF assms(1) RequestVoteReply_wf[OF peer_okD(1)[OF assms(1)]]])
     (auto simp: vote_args_ok_def RequestVoteReply_def Let_def resetElectionTimer_def)

lemma RequestVote_reply_ok:
  assumes "peer_ok n rf"
  shows "peer_ok n (fst (RequestVote_reply rf voteNum args reply))"
  using peer_okD(4,5)[OF assms]
  by (intro peer_okI[OF assms RequestVote_reply_wf[OF peer_okD(1)[OF assms]]]) (auto simp: RequestVote_reply_def Let_def)

lemma startElection_ok:
  assumes "peer_ok n rf"
  shows "peer_ok n (fst (startElection rf))"
  using peer_okD(1,4,5)[OF assms]
  by (intro peer_okI[OF assms startElection_wf[OF peer_okD(1)[OF assms]]]) (auto simp: startElection_def raft_wf_def)

lemma Start_append_ok: "peer_ok n rf \<Longrightarrow> 0 \<le> t \<Longrightarrow> t \<le> currentTerm rf \<Longrightarrow> peer_ok n (fst (Start_append rf t c))"
  using Start_append_wf[of n rf t c] peer_okD(6)[of n rf] by (auto simp: peer_ok_def Start_append_def nth_append)

lemma applier_step_ok:
  assumes "peer_ok n rf"
  shows "\<exists>rf' msg. applier_step rf = Some (rf', msg) \<and> peer_ok n rf'"
proof -
  from applier_step_total[OF peer_okD(1)[OF assms]] obtain rf' msg where r: "applier_step rf = Some (rf', msg)" "raft_wf n rf'" by blast
  then have "rlog rf' = rlog rf" "currentTerm rf' = currentTerm rf" "voteFor rf' = voteFor rf"
    by (auto simp: applier_step_def Let_def bind_Some_iff split: if_splits)
  with r assms show ?thesis by (auto simp: peer_ok_def)
qed

lemma sent_ok:
  assumes "peer_ok n rf"
  shows "RequestHeartBeat_args rf server = Some args \<Longrightarrow> append_args_ok n args" "vote_args_ok n (RequestVote_args rf)"
proof -
  note wf = peer_okD(1)[OF assms]
  show "vote_args_ok n (RequestVote_args rf)" using wf by (simp add: vote_args_ok_def RequestVote_args_def raft_wf_def)
  assume a: "RequestHeartBeat_args rf server = Some args"
  then have "set (ae_Entries args) \<subseteq> set (rlog rf)"
    by (auto simp: RequestHeartBeat_args_def Let_def bind_Some_iff slice_from_def dest: in_set_dropD split: if_splits)
  with RequestHeartBeat_args_wf[OF wf a] peer_okD(3)[OF assms] wf show "append_args_ok n args"
    by (auto simp: append_args_ok_def raft_wf_def)
qed

text \<open>
  \<^bold>\<open>C16\<close>. Every locked section keeps a peer well-formed: the dummy entry at index 0 of the log, commit index
  within the log, non-negative lastApplied, entry terms between zero and the current term, a vote
  for nobody or for a peer, and index arrays of one entry per peer (their values are not bounded).
  The requests a well-formed peer builds are well-formed, and on such requests the AppendEntries
  handler does not panic; nor does the applier.
\<close>

theorem peer_stays_well_formed:
  assumes "peer_ok n rf"
  shows "(\<forall>args. append_args_ok n args \<longrightarrow> (\<exists>rf' reply. RequestAppendEntriesReply rf args = Some (rf', reply) \<and> peer_ok n rf')) \<and>
    (\<forall>server args reply rf'. RequestHeartBeat_reply rf server args reply = Some rf' \<longrightarrow> peer_ok n rf') \<and>
    (\<forall>args. vote_args_ok n args \<longrightarrow> peer_ok n (fst (RequestVoteReply rf args))) \<and>
    (\<forall>k args reply. peer_ok n (fst (RequestVote_reply rf k args reply))) \<and>
    peer_ok n (fst (startElection rf)) \<and>
    (\<forall>t c. 0 \<le> t \<and> t \<le> currentTerm rf \<longrightarrow> peer_ok n (fst (Start_append rf t c))) \<and>
    (\<exists>rf' msg. applier_step rf = Some (rf', msg) \<and> peer_ok n rf') \<and>
    (\<forall>server args. RequestHeartBeat_args rf server = Some args \<longrightarrow> append_args_ok n args) \<and>
    vote_args_ok n (RequestVote_args rf)"
proof (intro conjI allI impI)
  fix args :: "'a RequestAppendEntriesArgs" assume a: "append_args_ok n args"
  then have "args_wf args" by (simp add: append_args_ok_def)
  from RequestAppendEntriesReply_total[OF this, of rf] RequestAppendEntriesReply_ok[OF assms a]
  show "\<exists>rf' reply. RequestAppendEntriesReply rf args = Some (rf', reply) \<and> peer_ok n rf'" by blast
next
  show "\<exists>rf' msg. applier_step rf = Some (rf', msg) \<and> peer_ok n rf'" by (rule applier_step_ok[OF assms])
qed (use assms in \<open>auto intro: RequestHeartBeat_reply_ok RequestVoteReply_ok RequestVote_reply_ok startElection_ok
     Start_append_ok sent_ok\<close>)

theorem peer_stays_well_formed_witness:
  "peer_ok 3 (Make 3 0 MakePersister :: nat raft) \<and> peer_ok 3 (fst (startElection (Make 3 0 MakePersister :: nat raft)))"
proof -
  have "peer_ok 3 (Make 3 0 MakePersister :: nat raft)" by (simp add: Make_ok)
  from peer_stays_well_formed[OF this] this show ?thesis by blast
qed

section \<open>Votes\<close>

lemma last_term_last:
  assumes "peer_ok n rf"
  shows "last_term rf = (if length (rlog rf) = 1 then -1 else LogTerm (last (rlog rf)))" "0 \<le> LogTerm (last (rlog rf))"
    "length (rlog rf) = 1 \<Longrightarrow> LogTerm (last (rlog rf)) = 0"
proof -
  note ne = peer_okD(6)[OF assms]
  show "last_term rf = (if length (rlog rf) = 1 then -1 else LogTerm (last (rlog rf)))"
    using ne by (cases "rlog rf") (auto simp: last_term_def last_conv_nth)
  show "0 \<le> LogTerm (last (rlog rf))" using peer_okD(3)[OF assms last_in_set[OF ne]] by simp
  show "length (rlog rf) = 1 \<Longrightarrow> LogTerm (last (rlog rf)) = 0" using peer_okD(2)[OF assms] by (cases "rlog rf") auto
qed

text \<open>The order of logs in the election rule: by the term of the last entry, then by length.\<close>

definition log_le :: "'c Log list \<Rightarrow> 'c Log list \<Rightarrow> bool" where
  "log_le lg lg' \<longleftrightarrow> LogTerm (last lg) < LogTerm (last lg') \<or> LogTerm (last lg) = LogTerm (last lg') \<and> length lg \<le> length lg'"

lemma vote_log_test:
  assumes "peer_ok n rf" "peer_ok n cand"
  shows "length (rlog rf) = 1 \<or> last_term cand > last_term rf \<or>
    last_term cand = last_term rf \<and> int (length (rlog cand)) - 1 \<ge> int (length (rlog rf)) - 1 \<longleftrightarrow> log_le (rlog rf) (rlog cand)"
proof -
  have lens: "1 \<le> length (rlog cand)" "1 \<le> length (rlog rf)"
    using peer_okD(6)[OF assms(1)] peer_okD(6)[OF assms(2)] by (simp_all add: Suc_le_eq)
  consider "length (rlog rf) = 1" | "length (rlog rf) \<noteq> 1" "length (rlog cand) = 1" | "length (rlog rf) \<noteq> 1" "length (rlog cand) \<noteq> 1" by blast
  then show ?thesis
  proof cases
    case 1
    then show ?thesis using lens last_term_last(2)[OF assms(2)] last_term_last(3)[OF assms(1)] by (auto simp: log_le_def)
  next
    case 2
    then show ?thesis using lens last_term_last[OF assms(2)] last_term_last(1,2)[OF assms(1)] by (auto simp: log_le_def)
  next
    case 3
    then show ?thesis using last_term_last(1)[OF assms(2)] last_term_last(1)[OF assms(1)] by (auto simp: log_le_def)
  qed
qed

text \<open>
  \<^bold>\<open>C22\<close>. The election rule between two well-formed peers: the request a candidate builds is granted exactly
  when the term of the voter is not newer, the log of the voter is not ahead of that of the
  candidate (by the term of the last entry, then by length, the dummy entry counting with term
  zero), and in the same term the voter has voted for nobody else. The voter ends in the newer of
  the two terms with its log unchanged, and its vote is the candidate if granted, nobody if refused
  in a newer term, and kept otherwise.
\<close>

theorem vote_granted_iff:
  assumes "peer_ok n rf" "peer_ok n cand" "RequestVoteReply rf (RequestVote_args cand) = (rf', reply)"
  shows "(rvr_VoteGranted reply \<longleftrightarrow> currentTerm rf \<le> currentTerm cand \<and> log_le (rlog rf) (rlog cand) \<and>
      (currentTerm rf = currentTerm cand \<longrightarrow> voteFor rf = -1 \<or> voteFor rf = int (me cand))) \<and>
    currentTerm rf' = max (currentTerm rf) (currentTerm cand) \<and> rvr_Term reply = currentTerm rf' \<and> rlog rf' = rlog rf \<and>
    voteFor rf' = (if rvr_VoteGranted reply then int (me cand) else if currentTerm rf < currentTerm cand then -1 else voteFor rf)"
proof -
  have up: "length (rlog rf) = Suc 0 \<or> rv_LastLogTerm (RequestVote_args cand) > last_term rf \<or>
      rv_LastLogTerm (RequestVote_args cand) = last_term rf \<and> rv_LastLogIndex (RequestVote_args cand) \<ge> int (length (rlog rf)) - 1
    \<longleftrightarrow> log_le (rlog rf) (rlog cand)"
    using vote_log_test[OF assms(1,2)] by (simp add: RequestVote_args_def)
  have a: "rv_Term (RequestVote_args cand) = currentTerm cand" "rv_CandidateId (RequestVote_args cand) = me cand"
    by (simp_all add: RequestVote_args_def)
  show ?thesis
  proof (cases "currentTerm rf < currentTerm cand")
    case True
    then show ?thesis using assms(3) unfolding RequestVoteReply_def Let_def a
      by (cases "log_le (rlog rf) (rlog cand)") (auto simp: up resetElectionTimer_def)
  next
    case False
    then show ?thesis using assms(3) unfolding RequestVoteReply_def Let_def a
      by (cases "log_le (rlog rf) (rlog cand)") (auto simp: up resetElectionTimer_def split: if_splits)
  qed
qed

theorem vote_granted_iff_witness:
  "rvr_VoteGranted (snd (RequestVoteReply (Make 3 0 MakePersister :: nat raft) (RequestVote_args (fst (startElection (Make 3 1 MakePersister :: nat raft)))))) \<and>
   \<not> rvr_VoteGranted (snd (RequestVoteReply (fst (startElection (Make 3 0 MakePersister :: nat raft)))
      (RequestVote_args (fst (startElection (Make 3 1 MakePersister :: nat raft))))))"
proof -
  let ?c = "fst (startElection (Make 3 1 MakePersister :: nat raft))" and ?v = "Make 3 0 MakePersister :: nat raft"
  have v: "peer_ok 3 ?v" "peer_ok 3 (fst (startElection ?v))" "peer_ok 3 ?c" by (simp_all add: Make_ok startElection_ok)
  have "log_le (rlog ?v) (rlog ?c)" by code_simp
  with vote_granted_iff[OF v(1,3) prod.collapse[symmetric]] vote_granted_iff[OF v(2,3) prod.collapse[symmetric]]
  show ?thesis by (simp add: startElection_def Make_def readPersist_def)
qed

theorem one_vote_per_term:
  assumes "rvr_VoteGranted (snd (RequestVoteReply rf args1))"
    and "rvr_VoteGranted (snd (RequestVoteReply (fst (RequestVoteReply rf args1)) args2))"
    and "rv_Term args1 = rv_Term args2"
  shows "rv_CandidateId args1 = rv_CandidateId args2"
  using assms by (auto simp: RequestVoteReply_def Let_def resetElectionTimer_def split: if_splits)

theorem one_vote_per_term_witness:
  "\<exists>args1. rvr_VoteGranted (snd (RequestVoteReply (Make 3 0 MakePersister :: nat raft) args1)) \<and> rv_CandidateId args1 = 1 \<and>
    (\<forall>args2. rv_Term args2 = rv_Term args1 \<longrightarrow>
       rvr_VoteGranted (snd (RequestVoteReply (fst (RequestVoteReply (Make 3 0 MakePersister :: nat raft) args1)) args2)) \<longrightarrow>
       rv_CandidateId args2 = 1)"
proof -
  let ?a = "\<lparr>rv_Term = 1, rv_CandidateId = 1, rv_LastLogIndex = 0, rv_LastLogTerm = -1\<rparr>"
  have "rvr_VoteGranted (snd (RequestVoteReply (Make 3 0 MakePersister :: nat raft) ?a))" by code_simp
  with one_vote_per_term[OF this] show ?thesis by (intro exI[of _ ?a]) auto
qed

theorem applier_in_order:
  assumes "raft_wf n rf"
  shows "\<exists>rf' msgs. applier_run k rf = Some (rf', msgs) \<and> length msgs = min k (nat (commitIndex rf - lastApplied rf)) \<and>
    (\<forall>i<length msgs. CommandIndex (msgs ! i) = lastApplied rf + 1 + int i \<and>
       Command (msgs ! i) = Entry (rlog rf ! nat (lastApplied rf + 1 + int i)))"
  using applier_run_order[OF assms, of k] by blast

definition committed_peer :: "nat raft" where
  "committed_peer = (Make 3 0 MakePersister)\<lparr>rlog := [\<lparr>Entry = None, LogTerm = 0\<rparr>, \<lparr>Entry = Some 7, LogTerm = 1\<rparr>], commitIndex := 1\<rparr>"

theorem applier_in_order_witness:
  "\<exists>rf' msgs. applier_run 5 committed_peer = Some (rf', msgs) \<and> length msgs = 1 \<and> CommandIndex (msgs ! 0) = 1 \<and> Command (msgs ! 0) = Some 7"
proof -
  have "raft_wf 3 committed_peer" by (simp add: committed_peer_def raft_wf_def Make_def readPersist_def)
  from applier_in_order[OF this, of 5] show ?thesis
    by (auto simp: committed_peer_def Make_def readPersist_def)
qed

end
