(* ===== verification/Raft_Net.thy ===== *)
theory Raft_Net
  imports Raft_Local
begin

text \<open>
  The peers of \<^verbatim>\<open>raft/raft.go\<close> together, as a state machine whose steps are the locked sections of
  their goroutines.  A round of votes is one call of \<^verbatim>\<open>RequestVote\<close> with its counter \<^verbatim>\<open>voteNum\<close> and
  one RPC per peer; an entry of \<open>acalls\<close> is one RPC of a heartbeat goroutine.  Each RPC goes
  through the stages sent, handled and done; the network loses a request or a reply by
  never scheduling the next stage, and delays and reorders at will.  Goroutines that have
  been started but have not yet taken the lock are in \<open>elections\<close>, \<open>beats\<close> and \<open>starts\<close>.

  \<open>exec\<close> performs one step; it is \<open>None\<close> when the step is not possible or panics.  The fields
  \<open>votes\<close>, \<open>won\<close> and \<open>rd_voters\<close> record what happened and are never read by a step.
\<close>

section \<open>The system\<close>

datatype vstage = VSent | VHandled VoteReply | VDone

datatype astage = ASent | AHandled AppendEntriesReply | ADone

record round =
  rd_owner :: nat
  rd_args :: RequestVoteArgs
  rd_voteNum :: nat
  rd_calls :: "nat \<Rightarrow> vstage"
  rd_voters :: "nat list"

record 'c acall =
  a_src :: nat
  a_dst :: nat
  a_args :: "'c RequestAppendEntriesArgs"
  a_stage :: astage

record 'c sys =
  srv :: "nat \<Rightarrow> 'c raft"
  elections :: "nat list"
  rounds :: "round list"
  beats :: "(nat \<times> nat) list"
  acalls :: "'c acall list"
  starts :: "(nat \<times> int \<times> 'c) list"
  votes :: "(nat \<times> int \<times> nat) list"
  won :: "(nat \<times> int \<times> nat list) list"

datatype 'c ev =
    Timeout nat \<comment> \<open>\<^verbatim>\<open>startElection\<close> on a peer\<close>
  | Campaign nat \<comment> \<open>the start of \<^verbatim>\<open>RequestVote\<close> for an entry of \<open>elections\<close>\<close>
  | VoteRequest nat nat \<comment> \<open>a peer handles the request of a round\<close>
  | VoteResult nat nat \<comment> \<open>the reply of a peer reaches the round\<close>
  | Beat nat \<comment> \<open>the leader loop of a peer starts a heartbeat\<close>
  | Send nat \<comment> \<open>a heartbeat goroutine builds its arguments\<close>
  | Append nat \<comment> \<open>the receiver handles an append request\<close>
  | AppendResult nat \<comment> \<open>its reply reaches the sender\<close>
  | Submit nat 'c \<comment> \<open>\<^verbatim>\<open>Start\<close> reads the state\<close>
  | SubmitAppend nat \<comment> \<open>\<^verbatim>\<open>Start\<close> appends\<close>
  | Apply nat \<comment> \<open>one round of the applier\<close>

definition remove_at :: "nat \<Rightarrow> 'a list \<Rightarrow> 'a list" where
  "remove_at k xs = take k xs @ drop (Suc k) xs"

definition heartbeats :: "nat \<Rightarrow> nat \<Rightarrow> (nat \<times> nat) list" where
  "heartbeats n i = map (Pair i) (filter (\<lambda>j. j \<noteq> i) [0..<n])"

fun exec :: "nat \<Rightarrow> 'c sys \<Rightarrow> 'c ev \<Rightarrow> 'c sys option" where
  "exec n s (Timeout i) =
    (if i < n then
       let (rf, go) = startElection (srv s i) in
       if go then Some (s\<lparr>srv := (srv s)(i := rf), elections := elections s @ [i],
                         votes := (i, currentTerm rf, i) # votes s\<rparr>)
       else None
     else None)"
| "exec n s (Campaign k) =
    (if k < length (elections s) then
       let i = elections s ! k in
       Some (s\<lparr>elections := remove_at k (elections s),
               rounds := rounds s @ [\<lparr>rd_owner = i, rd_args = RequestVote_args (srv s i), rd_voteNum = 1,
                                      rd_calls = (\<lambda>_. VSent), rd_voters = []\<rparr>]\<rparr>)
     else None)"
| "exec n s (VoteRequest k d) =
    (if k < length (rounds s) \<and> d < n \<and> d \<noteq> rd_owner (rounds s ! k) \<and> rd_calls (rounds s ! k) d = VSent then
       let r = rounds s ! k; (rf, reply) = RequestVoteReply (srv s d) (rd_args r) in
       Some (s\<lparr>srv := (srv s)(d := rf),
               rounds := (rounds s)[k := r\<lparr>rd_calls := (rd_calls r)(d := VHandled reply)\<rparr>],
               votes := (if rvr_VoteGranted reply then (d, rv_Term (rd_args r), rv_CandidateId (rd_args r)) # votes s
                         else votes s)\<rparr>)
     else None)"
| "exec n s (VoteResult k d) =
    (if k < length (rounds s) \<and> d < n then
       let r = rounds s ! k; i = rd_owner r in
       case rd_calls r d of
         VHandled reply \<Rightarrow>
           let (rf, voteNum, win) = RequestVote_reply (srv s i) (rd_voteNum r) (rd_args r) reply;
               voters = (if voteNum = rd_voteNum r then rd_voters r else d # rd_voters r) in
           Some (s\<lparr>srv := (srv s)(i := rf),
                   rounds := (rounds s)[k := r\<lparr>rd_voteNum := voteNum, rd_calls := (rd_calls r)(d := VDone),
                                               rd_voters := voters\<rparr>],
                   beats := (if win then beats s @ heartbeats n i else beats s),
                   won := (if win then (i, currentTerm rf, i # voters) # won s else won s)\<rparr>)
       | _ \<Rightarrow> None
     else None)"
| "exec n s (Beat i) =
    (if i < n \<and> snd (GetState (srv s i)) then Some (s\<lparr>beats := beats s @ heartbeats n i\<rparr>) else None)"
| "exec n s (Send k) =
    (if k < length (beats s) then
       let (i, j) = beats s ! k in do {
         args \<leftarrow> RequestHeartBeat_args (srv s i) j;
         Some (s\<lparr>beats := remove_at k (beats s),
                 acalls := acalls s @ [\<lparr>a_src = i, a_dst = j, a_args = args, a_stage = ASent\<rparr>]\<rparr>) }
     else None)"
| "exec n s (Append k) =
    (if k < length (acalls s) \<and> a_stage (acalls s ! k) = ASent then
       let a = acalls s ! k in do {
         (rf, reply) \<leftarrow> RequestAppendEntriesReply (srv s (a_dst a)) (a_args a);
         Some (s\<lparr>srv := (srv s)(a_dst a := rf), acalls := (acalls s)[k := a\<lparr>a_stage := AHandled reply\<rparr>]\<rparr>) }
     else None)"
| "exec n s (AppendResult k) =
    (if k < length (acalls s) then
       let a = acalls s ! k in
       case a_stage a of
         AHandled reply \<Rightarrow> do {
           rf \<leftarrow> RequestHeartBeat_reply (srv s (a_src a)) (a_dst a) (a_args a) reply;
           Some (s\<lparr>srv := (srv s)(a_src a := rf), acalls := (acalls s)[k := a\<lparr>a_stage := ADone\<rparr>]\<rparr>) }
       | _ \<Rightarrow> None
     else None)"
| "exec n s (Submit i c) =
    (if i < n then
       let (term, isLeader) = GetState (srv s i) in
       if isLeader then Some (s\<lparr>starts := starts s @ [(i, term, c)]\<rparr>) else None
     else None)"
| "exec n s (SubmitAppend k) =
    (if k < length (starts s) then
       let (i, term, c) = starts s ! k in
       Some (s\<lparr>srv := (srv s)(i := fst (Start_append (srv s i) term c)), starts := remove_at k (starts s),
               beats := beats s @ heartbeats n i\<rparr>)
     else None)"
| "exec n s (Apply i) =
    (if i < n then do { (rf, msg) \<leftarrow> applier_step (srv s i); Some (s\<lparr>srv := (srv s)(i := rf)\<rparr>) } else None)"

definition start_sys :: "nat \<Rightarrow> 'c sys" where
  "start_sys n = \<lparr>srv = (\<lambda>i. Make n i MakePersister), elections = [], rounds = [], beats = [], acalls = [],
     starts = [], votes = [], won = []\<rparr>"

fun run_sys :: "nat \<Rightarrow> 'c sys \<Rightarrow> 'c ev list \<Rightarrow> 'c sys option" where
  "run_sys n s [] = Some s"
| "run_sys n s (e # es) = do { s \<leftarrow> exec n s e; run_sys n s es }"

text \<open>
  The source builds the arguments of a heartbeat, and appends a command, without asking again
  whether the peer still leads.  A step is timely when the lock is taken before that has changed:
  a heartbeat goroutine builds its arguments while its peer leads, and the second locked section of
  \<^verbatim>\<open>Start\<close> runs while the peer still leads the term that the first one read.
\<close>

fun timely :: "'c sys \<Rightarrow> 'c ev \<Rightarrow> bool" where
  "timely s (Send k) = (rstate (srv s (fst (beats s ! k))) = leader)"
| "timely s (SubmitAppend k) =
    (let (i, term, c) = starts s ! k in rstate (srv s i) = leader \<and> currentTerm (srv s i) = term)"
| "timely s e = True"

inductive reachable :: "nat \<Rightarrow> 'c sys \<Rightarrow> bool" for n where
  reachable_start: "reachable n (start_sys n)"
| reachable_step: "reachable n s \<Longrightarrow> timely s e \<Longrightarrow> exec n s e = Some s' \<Longrightarrow> reachable n s'"

section \<open>Quorums\<close>

locale quorum =
  fixes Quorum :: "'a set \<Rightarrow> bool"
  assumes intersect: "Quorum Q \<Longrightarrow> Quorum R \<Longrightarrow> Q \<inter> R \<noteq> {}"
begin

lemma unique_choice:
  assumes "Quorum Q" "Quorum R" "\<forall>v\<in>Q. \<forall>c. V v c \<longrightarrow> c = a" "\<forall>v\<in>R. V v b"
  shows "a = b"
  using intersect[OF assms(1,2)] assms(3,4) by blast

end

definition majority :: "nat \<Rightarrow> nat set \<Rightarrow> bool" where
  "majority n Q \<longleftrightarrow> Q \<subseteq> {..<n} \<and> card Q > n div 2"

interpretation majority: quorum "majority n" for n
proof
  fix Q R assume q: "majority n Q" "majority n R"
  show "Q \<inter> R \<noteq> {}"
  proof
    assume "Q \<inter> R = {}"
    moreover have "finite Q" "finite R" using q finite_subset unfolding majority_def by blast+
    ultimately have "card (Q \<union> R) = card Q + card R" by (simp add: card_Un_disjoint)
    moreover have "card (Q \<union> R) \<le> n" using q card_mono[of "{..<n}" "Q \<union> R"] by (simp add: majority_def)
    ultimately show False using q unfolding majority_def by linarith
  qed
qed

section \<open>The invariant of elections\<close>

definition has_won :: "(nat \<times> int \<times> nat list) list \<Rightarrow> nat \<Rightarrow> int \<Rightarrow> bool" where
  "has_won W i T \<longleftrightarrow> (\<exists>Q. (i, T, Q) \<in> set W)"

definition peers_ok :: "nat \<Rightarrow> (nat \<Rightarrow> 'c raft) \<Rightarrow> bool" where
  "peers_ok n S \<longleftrightarrow> (\<forall>i<n. raft_wf n (S i) \<and> me (S i) = i)"

definition votes_ok :: "nat \<Rightarrow> (nat \<Rightarrow> 'c raft) \<Rightarrow> (nat \<times> int \<times> nat) list \<Rightarrow> (nat \<times> int \<times> nat list) list \<Rightarrow> bool" where
  "votes_ok n S V W \<longleftrightarrow> (\<forall>v T c. (v, T, c) \<in> set V \<longrightarrow> v < n \<and> c < n \<and> T \<le> currentTerm (S v) \<and>
     ((\<forall>L. \<not> has_won W L T) \<longrightarrow> (currentTerm (S v) = T \<longrightarrow> voteFor (S v) = int c) \<and>
        (\<forall>c'. (v, T, c') \<in> set V \<longrightarrow> c' = c)))"

definition states_ok :: "nat \<Rightarrow> (nat \<Rightarrow> 'c raft) \<Rightarrow> (nat \<times> int \<times> nat) list \<Rightarrow> (nat \<times> int \<times> nat list) list \<Rightarrow> bool" where
  "states_ok n S V W \<longleftrightarrow> (\<forall>i<n.
     (rstate (S i) \<noteq> follower \<longrightarrow> voteFor (S i) = int i \<and> (i, currentTerm (S i), i) \<in> set V) \<and>
     (rstate (S i) = leader \<longrightarrow> has_won W i (currentTerm (S i))))"

definition won_ok :: "nat \<Rightarrow> (nat \<Rightarrow> 'c raft) \<Rightarrow> (nat \<times> int \<times> nat) list \<Rightarrow> (nat \<times> int \<times> nat list) list \<Rightarrow> bool" where
  "won_ok n S V W \<longleftrightarrow> (\<forall>L T Q. (L, T, Q) \<in> set W \<longrightarrow> L < n \<and> majority n (set Q) \<and> T \<le> currentTerm (S L) \<and>
     (currentTerm (S L) = T \<longrightarrow> rstate (S L) \<noteq> candidate) \<and>
     (\<forall>v\<in>set Q. (v, T, L) \<in> set V \<and> (\<forall>c. (v, T, c) \<in> set V \<longrightarrow> c = L) \<and>
        (currentTerm (S v) = T \<longrightarrow> voteFor (S v) = int L)))"

definition core_ok :: "nat \<Rightarrow> (nat \<Rightarrow> 'c raft) \<Rightarrow> (nat \<times> int \<times> nat) list \<Rightarrow> (nat \<times> int \<times> nat list) list \<Rightarrow> bool" where
  "core_ok n S V W \<longleftrightarrow> peers_ok n S \<and> votes_ok n S V W \<and> states_ok n S V W \<and> won_ok n S V W"

lemma won_unique:
  assumes "won_ok n S V W" "(L, T, Q) \<in> set W" "(L', T, Q') \<in> set W"
  shows "L = L'"
proof (rule majority.unique_choice)
  show "majority n (set Q)" "majority n (set Q')" using assms unfolding won_ok_def by blast+
  show "\<forall>v\<in>set Q. \<forall>c. (v, T, c) \<in> set V \<longrightarrow> c = L" using assms(1,2) unfolding won_ok_def by blast
  show "\<forall>v\<in>set Q'. (v, T, L') \<in> set V" using assms(1,3) unfolding won_ok_def by blast
qed

text \<open>
  One peer changes.  The conditions say what the handlers respect: the term does not decrease;
  within a term a vote once given stays, unless a winner of the term has announced itself; a peer
  becomes a candidate only in a new term, with a vote for itself.
\<close>

definition allowed :: "nat \<Rightarrow> 'c raft \<Rightarrow> 'c raft \<Rightarrow> (nat \<times> int \<times> nat) list \<Rightarrow> (nat \<times> int \<times> nat) list
    \<Rightarrow> (nat \<times> int \<times> nat list) list \<Rightarrow> bool" where
  "allowed n rf rf' V V' W \<longleftrightarrow> raft_wf n rf' \<and> me rf' = me rf \<and> currentTerm rf \<le> currentTerm rf' \<and>
     (rstate rf' \<noteq> follower \<longrightarrow> voteFor rf' = int (me rf) \<and> (me rf, currentTerm rf', me rf) \<in> set V') \<and>
     (rstate rf' = leader \<longrightarrow> rstate rf = leader \<and> currentTerm rf' = currentTerm rf) \<and>
     (rstate rf' = candidate \<longrightarrow> currentTerm rf < currentTerm rf' \<or> rstate rf = candidate) \<and>
     (currentTerm rf' = currentTerm rf \<longrightarrow> voteFor rf' = voteFor rf \<or> voteFor rf = -1 \<or>
        (\<exists>L. has_won W L (currentTerm rf) \<and> voteFor rf' = int L)) \<and>
     (V' = V \<or> (\<exists>c<n. V' = (me rf, currentTerm rf', c) # V \<and> voteFor rf' = int c))"

lemma allowedD:
  assumes "allowed n rf rf' V V' W"
  shows "raft_wf n rf'" "me rf' = me rf" "currentTerm rf \<le> currentTerm rf'"
    "rstate rf' \<noteq> follower \<longrightarrow> voteFor rf' = int (me rf) \<and> (me rf, currentTerm rf', me rf) \<in> set V'"
    "rstate rf' = leader \<longrightarrow> rstate rf = leader \<and> currentTerm rf' = currentTerm rf"
    "rstate rf' = candidate \<longrightarrow> currentTerm rf < currentTerm rf' \<or> rstate rf = candidate"
    "currentTerm rf' = currentTerm rf \<longrightarrow> voteFor rf' = voteFor rf \<or> voteFor rf = -1 \<or>
        (\<exists>L. has_won W L (currentTerm rf) \<and> voteFor rf' = int L)"
    "set V \<subseteq> set V'"
    "\<And>v T c. (v, T, c) \<in> set V' \<Longrightarrow> (v, T, c) \<notin> set V \<Longrightarrow> v = me rf \<and> T = currentTerm rf' \<and> c < n \<and> voteFor rf' = int c"
  using assms unfolding allowed_def by auto

lemma votes_okD:
  assumes "votes_ok n S V W" "(v, T, c) \<in> set V"
  shows "v < n" "c < n" "T \<le> currentTerm (S v)"
    "\<forall>L. \<not> has_won W L T \<Longrightarrow> currentTerm (S v) = T \<Longrightarrow> voteFor (S v) = int c"
    "\<forall>L. \<not> has_won W L T \<Longrightarrow> (v, T, c') \<in> set V \<Longrightarrow> c' = c"
  using assms unfolding votes_ok_def by blast+

lemma won_okD:
  assumes "won_ok n S V W" "(L, T, Q) \<in> set W"
  shows "L < n" "majority n (set Q)" "T \<le> currentTerm (S L)" "currentTerm (S L) = T \<Longrightarrow> rstate (S L) \<noteq> candidate"
    "v \<in> set Q \<Longrightarrow> (v, T, L) \<in> set V" "v \<in> set Q \<Longrightarrow> (v, T, c) \<in> set V \<Longrightarrow> c = L"
    "v \<in> set Q \<Longrightarrow> currentTerm (S v) = T \<Longrightarrow> voteFor (S v) = int L"
  using assms unfolding won_ok_def by blast+

text \<open>The vote of the peer that changes, in the term it is in afterwards.\<close>

lemma allowed_same_term:
  assumes "votes_ok n S V W" "allowed n (S i) rf' V V' W" "(i, currentTerm rf', c) \<in> set V"
  shows "currentTerm (S i) = currentTerm rf'"
  using votes_okD(3)[OF assms(1,3)] allowedD(3)[OF assms(2)] by simp

lemma won_ok_step:
  assumes v: "votes_ok n S V W" and w: "won_ok n S V W" and a: "allowed n (S i) rf' V V' W" and me: "me (S i) = i"
  shows "won_ok n (S(i := rf')) V' W"
  unfolding won_ok_def
proof (intro allI impI)
  fix L T Q assume q: "(L, T, Q) \<in> set W"
  note d = allowedD[OF a] and o = won_okD[OF w q]
  have f: "voteFor rf' = int L" if m: "i \<in> set Q" and t: "currentTerm rf' = T"
  proof -
    have s: "currentTerm (S i) = T" using allowed_same_term[OF v a, of L] o(5)[OF m] t by simp
    have "L' = L" if "has_won W L' T" for L' using that won_unique[OF w _ q] unfolding has_won_def by blast
    then show ?thesis using d(7) o(7)[OF m s] s t by auto
  qed
  have "(u, T, L) \<in> set V'" if "u \<in> set Q" for u using o(5)[OF that] d(8) by blast
  moreover have "c = L" if m: "u \<in> set Q" and V: "(u, T, c) \<in> set V'" for u c
  proof (cases "(u, T, c) \<in> set V")
    case False
    from d(9)[OF V this] f me m show ?thesis by simp
  qed (rule o(6)[OF m])
  moreover have "voteFor ((S(i := rf')) u) = int L" if m: "u \<in> set Q" and "currentTerm ((S(i := rf')) u) = T" for u
    using f o(7)[OF m] that by (cases "u = i") simp_all
  moreover have "T \<le> currentTerm ((S(i := rf')) L)" using o(3) d(3) by (cases "L = i") simp_all
  moreover have "rstate ((S(i := rf')) L) \<noteq> candidate" if "currentTerm ((S(i := rf')) L) = T"
    using o(3,4) d(3,6) that by (cases "L = i") auto
  ultimately show "L < n \<and> majority n (set Q) \<and> T \<le> currentTerm ((S(i := rf')) L) \<and>
     (currentTerm ((S(i := rf')) L) = T \<longrightarrow> rstate ((S(i := rf')) L) \<noteq> candidate) \<and>
     (\<forall>v\<in>set Q. (v, T, L) \<in> set V' \<and> (\<forall>c. (v, T, c) \<in> set V' \<longrightarrow> c = L) \<and>
        (currentTerm ((S(i := rf')) v) = T \<longrightarrow> voteFor ((S(i := rf')) v) = int L))"
    using o(1,2) by (intro conjI allI impI ballI)
qed

lemma votes_ok_step:
  assumes v: "votes_ok n S V W" and a: "allowed n (S i) rf' V V' W" and me: "me (S i) = i" and i: "i < n"
  shows "votes_ok n (S(i := rf')) V' W"
  unfolding votes_ok_def
proof (intro allI impI)
  fix u T c assume V: "(u, T, c) \<in> set V'"
  note d = allowedD[OF a]
  have f: "voteFor rf' = int b" if "(i, T, b) \<in> set V" "currentTerm rf' = T" "\<forall>L. \<not> has_won W L T" for b
  proof -
    have s: "currentTerm (S i) = T" using allowed_same_term[OF v a, of b] that(1,2) by simp
    then show ?thesis using votes_okD(4)[OF v that(1,3) s] that(2,3) d(7) by auto
  qed
  have 1: "u < n \<and> c < n \<and> T \<le> currentTerm ((S(i := rf')) u)"
  proof (cases "(u, T, c) \<in> set V")
    case True
    then show ?thesis using votes_okD(1-3)[OF v True] d(3) by (cases "u = i") simp_all
  next
    case False
    then show ?thesis using d(9)[OF V False] me i by simp
  qed
  have 2: "voteFor ((S(i := rf')) u) = int c" if nw: "\<forall>L. \<not> has_won W L T" and t: "currentTerm ((S(i := rf')) u) = T"
  proof (cases "(u, T, c) \<in> set V")
    case True
    then show ?thesis using votes_okD(4)[OF v True nw] f nw t by (cases "u = i") simp_all
  next
    case False
    then show ?thesis using d(9)[OF V False] me by simp
  qed
  have 3: "c' = c" if nw: "\<forall>L. \<not> has_won W L T" and V': "(u, T, c') \<in> set V'" for c'
  proof (cases "(u, T, c) \<in> set V")
    case True
    show ?thesis
    proof (cases "(u, T, c') \<in> set V")
      case False
      from d(9)[OF V' this] me have e: "u = i" "currentTerm rf' = T" "voteFor rf' = int c'" by simp_all
      from f[OF True[unfolded e(1)] e(2) nw] e(3) show ?thesis by simp
    qed (rule votes_okD(5)[OF v True nw])
  next
    case new: False
    show ?thesis
    proof (cases "(u, T, c') \<in> set V")
      case True
      from d(9)[OF V new] me have e: "u = i" "currentTerm rf' = T" "voteFor rf' = int c" by simp_all
      from f[OF True[unfolded e(1)] e(2) nw] e(3) show ?thesis by simp
    next
      case False
      then show ?thesis using d(9)[OF V new] d(9)[OF V' False] by simp
    qed
  qed
  have "(\<forall>L. \<not> has_won W L T) \<longrightarrow> (currentTerm ((S(i := rf')) u) = T \<longrightarrow> voteFor ((S(i := rf')) u) = int c) \<and>
      (\<forall>c'. (u, T, c') \<in> set V' \<longrightarrow> c' = c)"
  proof (rule impI, rule conjI)
    assume nw: "\<forall>L. \<not> has_won W L T"
    show "currentTerm ((S(i := rf')) u) = T \<longrightarrow> voteFor ((S(i := rf')) u) = int c" using 2[OF nw] by (rule impI)
    show "\<forall>c'. (u, T, c') \<in> set V' \<longrightarrow> c' = c" by (intro allI impI) (rule 3[OF nw])
  qed
  with 1 show "u < n \<and> c < n \<and> T \<le> currentTerm ((S(i := rf')) u) \<and> ((\<forall>L. \<not> has_won W L T) \<longrightarrow>
     (currentTerm ((S(i := rf')) u) = T \<longrightarrow> voteFor ((S(i := rf')) u) = int c) \<and> (\<forall>c'. (u, T, c') \<in> set V' \<longrightarrow> c' = c))"
    by (elim conjE) (intro conjI; assumption)
qed

lemma core_ok_step:
  assumes c: "core_ok n S V W" and i: "i < n" and a: "allowed n (S i) rf' V V' W"
  shows "core_ok n (S(i := rf')) V' W"
proof -
  have ok: "peers_ok n S" "votes_ok n S V W" "states_ok n S V W" "won_ok n S V W"
    using c by (simp_all add: core_ok_def)
  have me: "me (S i) = i" using ok(1) i by (simp add: peers_ok_def)
  have "peers_ok n (S(i := rf'))" using ok(1) allowedD(1,2)[OF a] me by (auto simp: peers_ok_def)
  moreover have "states_ok n (S(i := rf')) V' W"
    using ok(3) allowedD(4,5,8)[OF a] me i unfolding states_ok_def by (auto simp: subset_iff)
  ultimately show ?thesis
    using won_ok_step[OF ok(2,4) a me] votes_ok_step[OF ok(2) a me i] by (simp add: core_ok_def)
qed

section \<open>Rounds and calls in flight\<close>

definition round_ok :: "nat \<Rightarrow> (nat \<times> int \<times> nat) list \<Rightarrow> round \<Rightarrow> bool" where
  "round_ok n V r \<longleftrightarrow> rd_owner r < n \<and> rv_CandidateId (rd_args r) = rd_owner r \<and> 0 \<le> rv_Term (rd_args r) \<and>
     distinct (rd_voters r) \<and> rd_owner r \<notin> set (rd_voters r) \<and> rd_voteNum r = 1 + length (rd_voters r) \<and>
     rd_calls r (rd_owner r) = VSent \<and>
     (\<forall>d\<in>set (rd_voters r). d < n \<and> rd_calls r d = VDone \<and> (d, rv_Term (rd_args r), rd_owner r) \<in> set V) \<and>
     (\<forall>d reply. rd_calls r d = VHandled reply \<longrightarrow> rvr_VoteGranted reply \<longrightarrow> (d, rv_Term (rd_args r), rd_owner r) \<in> set V)"

definition acall_ok :: "nat \<Rightarrow> (nat \<times> int \<times> nat list) list \<Rightarrow> 'c acall \<Rightarrow> bool" where
  "acall_ok n W a \<longleftrightarrow> a_src a < n \<and> a_dst a < n \<and> args_wf (a_args a) \<and> 0 \<le> ae_Term (a_args a) \<and>
     ae_LeaderId (a_args a) = a_src a \<and> has_won W (a_src a) (ae_Term (a_args a))"

definition calls_ok :: "nat \<Rightarrow> 'c sys \<Rightarrow> bool" where
  "calls_ok n s \<longleftrightarrow> (\<forall>i\<in>set (elections s). i < n) \<and> (\<forall>r\<in>set (rounds s). round_ok n (votes s) r) \<and>
     (\<forall>b\<in>set (beats s). fst b < n \<and> snd b < n) \<and> (\<forall>a\<in>set (acalls s). acall_ok n (won s) a) \<and>
     (\<forall>(i, t, c)\<in>set (starts s). i < n)"

definition net_inv :: "nat \<Rightarrow> 'c sys \<Rightarrow> bool" where
  "net_inv n s \<longleftrightarrow> core_ok n (srv s) (votes s) (won s) \<and> calls_ok n s"

lemma round_ok_mono: "round_ok n V r \<Longrightarrow> set V \<subseteq> set V' \<Longrightarrow> round_ok n V' r"
  unfolding round_ok_def by blast

lemma acall_ok_mono: "acall_ok n W a \<Longrightarrow> set W \<subseteq> set W' \<Longrightarrow> acall_ok n W' a"
  unfolding acall_ok_def has_won_def by blast

lemma set_remove_at: "set (remove_at k xs) \<subseteq> set xs"
  unfolding remove_at_def by (auto dest: in_set_takeD in_set_dropD)

lemma heartbeats_ok: "i < n \<Longrightarrow> b \<in> set (heartbeats n i) \<Longrightarrow> fst b < n \<and> snd b < n"
  by (auto simp: heartbeats_def)

lemma ball_update: "\<forall>x\<in>set xs. P x \<Longrightarrow> P y \<Longrightarrow> \<forall>x\<in>set (xs[k := y]). P x"
  using set_update_subset_insert[of xs k y] by blast

lemma net_inv_start: "net_inv n (start_sys n)"
  by (auto simp: net_inv_def core_ok_def peers_ok_def votes_ok_def states_ok_def won_ok_def calls_ok_def start_sys_def
      Make_wf) (simp_all add: Make_def readPersist_def)

lemma allowed_start:
  assumes "raft_wf n rf" "rstate rf \<noteq> leader"
  shows "allowed n rf (fst (startElection rf)) V ((me rf, currentTerm (fst (startElection rf)), me rf) # V) W"
  using assms startElection_wf[OF assms(1)] unfolding allowed_def
  by (auto simp: startElection_def raft_wf_def)

lemma allowed_vote:
  assumes wf: "raft_wf n rf" and st: "rstate rf \<noteq> follower \<longrightarrow> voteFor rf = int (me rf) \<and> (me rf, currentTerm rf, me rf) \<in> set V"
    and c: "rv_CandidateId args < n" "rv_CandidateId args \<noteq> me rf" "0 \<le> rv_Term args"
    and r: "RequestVoteReply rf args = (rf', reply)"
  shows "allowed n rf rf' V (if rvr_VoteGranted reply then (me rf, rv_Term args, rv_CandidateId args) # V else V) W"
proof -
  have "raft_wf n rf'" using RequestVoteReply_wf[OF wf c(3)] r by simp
  with st c r show ?thesis unfolding allowed_def
    by (auto simp: RequestVoteReply_def Let_def resetElectionTimer_def split: if_splits)
qed

lemma allowed_append:
  assumes wf: "raft_wf n rf" and a: "args_wf args" and w: "has_won W (ae_LeaderId args) (ae_Term args)"
    and st: "rstate rf \<noteq> follower \<longrightarrow> voteFor rf = int (me rf) \<and> (me rf, currentTerm rf, me rf) \<in> set V"
    and r: "RequestAppendEntriesReply rf args = Some (rf', reply)"
  shows "allowed n rf rf' V V W"
proof -
  have "raft_wf n rf'" using RequestAppendEntriesReply_wf[OF wf a r] .
  with r a show ?thesis
    by (cases rule: RequestAppendEntriesReply_cases) (use st w in \<open>auto simp: allowed_def\<close>)
qed

lemma allowed_append_reply:
  assumes wf: "raft_wf n rf"
    and st: "rstate rf \<noteq> follower \<longrightarrow> voteFor rf = int (me rf) \<and> (me rf, currentTerm rf, me rf) \<in> set V"
    and r: "RequestHeartBeat_reply rf server args reply = Some rf'"
  shows "allowed n rf rf' V V W"
proof -
  have "raft_wf n rf'" using RequestHeartBeat_reply_wf[OF wf r] .
  with r show ?thesis
    by (cases rule: RequestHeartBeat_reply_cases) (use st in \<open>auto simp: allowed_def\<close>)
qed

lemma allowed_vote_reply:
  assumes wf: "raft_wf n rf"
    and st: "rstate rf \<noteq> follower \<longrightarrow> voteFor rf = int (me rf) \<and> (me rf, currentTerm rf, me rf) \<in> set V"
    and r: "RequestVote_reply rf voteNum args reply = (rf', voteNum', False)"
  shows "allowed n rf rf' V V W"
proof -
  have "raft_wf n rf'" using RequestVote_reply_wf[OF wf, of voteNum args reply] r by simp
  with st r show ?thesis unfolding allowed_def by (auto simp: RequestVote_reply_def Let_def split: if_splits)
qed

section \<open>Every step keeps the invariant\<close>

lemma net_invD:
  assumes "net_inv n s"
  shows "core_ok n (srv s) (votes s) (won s)" "calls_ok n s"
    "i < n \<Longrightarrow> raft_wf n (srv s i)" "i < n \<Longrightarrow> me (srv s i) = i"
    "i < n \<Longrightarrow> rstate (srv s i) \<noteq> follower \<longrightarrow> voteFor (srv s i) = int i \<and> (i, currentTerm (srv s i), i) \<in> set (votes s)"
    "i < n \<Longrightarrow> rstate (srv s i) = leader \<Longrightarrow> has_won (won s) i (currentTerm (srv s i))"
  using assms unfolding net_inv_def core_ok_def peers_ok_def states_ok_def by blast+

lemma calls_okD:
  assumes "calls_ok n s"
  shows "i \<in> set (elections s) \<Longrightarrow> i < n" "r \<in> set (rounds s) \<Longrightarrow> round_ok n (votes s) r"
    "b \<in> set (beats s) \<Longrightarrow> fst b < n \<and> snd b < n" "a \<in> set (acalls s) \<Longrightarrow> acall_ok n (won s) a"
    "x \<in> set (starts s) \<Longrightarrow> fst x < n"
  using assms unfolding calls_ok_def by (auto simp: case_prod_beta)

text \<open>A step that changes one peer and keeps or adds votes.\<close>

lemma net_inv_peer:
  assumes i: "net_inv n s" "i < n" and a: "allowed n (srv s i) rf' (votes s) V' (won s)" and c: "calls_ok n s'"
    and s': "srv s' = (srv s)(i := rf')" "votes s' = V'" "won s' = won s"
  shows "net_inv n s'"
  using core_ok_step[OF net_invD(1)[OF i(1)] i(2) a] c s' by (simp add: net_inv_def)

lemma inv_Timeout:
  assumes i: "net_inv n s" and e: "exec n s (Timeout k) = Some s'"
  shows "net_inv n s'"
proof -
  have k: "k < n" and l: "rstate (srv s k) \<noteq> leader" and s': "s' = s\<lparr>srv := (srv s)(k := fst (startElection (srv s k))),
      elections := elections s @ [k], votes := (k, currentTerm (fst (startElection (srv s k))), k) # votes s\<rparr>"
    using e by (auto simp: startElection_def split: if_splits)
  have a: "allowed n (srv s k) (fst (startElection (srv s k))) (votes s) (votes s') (won s)"
    using allowed_start[OF net_invD(3)[OF i k] l] net_invD(4)[OF i k] by (simp add: s')
  have "calls_ok n s'" using net_invD(2)[OF i] k round_ok_mono[of n "votes s" _ "votes s'"]
    unfolding calls_ok_def s' by auto
  from net_inv_peer[OF i k a this] show ?thesis by (simp add: s')
qed

lemma inv_Campaign:
  assumes i: "net_inv n s" and e: "exec n s (Campaign k) = Some s'"
  shows "net_inv n s'"
proof -
  let ?i = "elections s ! k"
  have s': "s' = s\<lparr>elections := remove_at k (elections s),
      rounds := rounds s @ [\<lparr>rd_owner = ?i, rd_args = RequestVote_args (srv s ?i), rd_voteNum = 1,
                              rd_calls = (\<lambda>_. VSent), rd_voters = []\<rparr>]\<rparr>" and k: "k < length (elections s)"
    using e by (auto simp: Let_def split: if_splits)
  have n: "?i < n" using calls_okD(1)[OF net_invD(2)[OF i]] k by simp
  have "round_ok n (votes s) \<lparr>rd_owner = ?i, rd_args = RequestVote_args (srv s ?i), rd_voteNum = 1,
        rd_calls = (\<lambda>_. VSent), rd_voters = []\<rparr>"
    using n net_invD(3,4)[OF i n] by (simp add: round_ok_def RequestVote_args_def raft_wf_def)
  then have "calls_ok n s'" using net_invD(2)[OF i] set_remove_at[of k "elections s"] unfolding calls_ok_def s' by auto
  then show ?thesis using net_invD(1)[OF i] by (simp add: net_inv_def s')
qed

lemma inv_VoteRequest:
  assumes i: "net_inv n s" and e: "exec n s (VoteRequest k d) = Some s'"
  shows "net_inv n s'"
proof -
  let ?r = "rounds s ! k"
  obtain rf reply where h: "RequestVoteReply (srv s d) (rd_args ?r) = (rf, reply)" by force
  define V' where "V' = (if rvr_VoteGranted reply then (d, rv_Term (rd_args ?r), rv_CandidateId (rd_args ?r)) # votes s
      else votes s)"
  define r' where "r' = ?r\<lparr>rd_calls := (rd_calls ?r)(d := VHandled reply)\<rparr>"
  have g: "k < length (rounds s)" "d < n" "d \<noteq> rd_owner ?r" "rd_calls ?r d = VSent"
    and s': "s' = s\<lparr>srv := (srv s)(d := rf), rounds := (rounds s)[k := r'], votes := V'\<rparr>"
    using e h unfolding V'_def r'_def by (auto simp: Let_def split: if_splits)
  have r: "round_ok n (votes s) ?r" using calls_okD(2)[OF net_invD(2)[OF i]] g(1) by simp
  then have c: "rv_CandidateId (rd_args ?r) < n" "rv_CandidateId (rd_args ?r) \<noteq> me (srv s d)" "0 \<le> rv_Term (rd_args ?r)"
    using g(3) net_invD(4)[OF i g(2)] by (auto simp: round_ok_def)
  have a: "allowed n (srv s d) rf (votes s) V' (won s)"
    using allowed_vote[OF net_invD(3)[OF i g(2)] _ c h, of "votes s" "won s"] net_invD(4,5)[OF i g(2)]
    unfolding V'_def by (cases "rvr_VoteGranted reply") simp_all
  have sub: "set (votes s) \<subseteq> set V'" by (auto simp: V'_def)
  have "round_ok n V' r'"
    using r g(3,4) sub unfolding round_ok_def r'_def V'_def by auto
  then have "\<forall>x\<in>set ((rounds s)[k := r']). round_ok n V' x"
    using calls_okD(2)[OF net_invD(2)[OF i]] round_ok_mono[OF _ sub] by (intro ball_update) blast+
  then have "calls_ok n s'" using net_invD(2)[OF i] unfolding calls_ok_def s' by simp
  from net_inv_peer[OF i g(2) a this] show ?thesis by (simp add: s')
qed

lemma inv_Beat:
  assumes i: "net_inv n s" and e: "exec n s (Beat k) = Some s'"
  shows "net_inv n s'"
proof -
  have s': "s' = s\<lparr>beats := beats s @ heartbeats n k\<rparr>" "k < n" using e by (auto split: if_splits)
  then have "calls_ok n s'" using net_invD(2)[OF i] heartbeats_ok[OF s'(2)] unfolding calls_ok_def s'(1) by auto
  then show ?thesis using net_invD(1)[OF i] by (simp add: net_inv_def s')
qed

lemma inv_Send:
  assumes i: "net_inv n s" and e: "exec n s (Send k) = Some s'" and t: "timely s (Send k)"
  shows "net_inv n s'"
proof -
  obtain p j where b: "beats s ! k = (p, j)" by force
  have k: "k < length (beats s)" using e by (auto split: if_splits)
  obtain args where h: "RequestHeartBeat_args (srv s p) j = Some args"
      "s' = s\<lparr>beats := remove_at k (beats s),
         acalls := acalls s @ [\<lparr>a_src = p, a_dst = j, a_args = args, a_stage = ASent\<rparr>]\<rparr>"
    using e b k by (auto simp: bind_Some_iff)
  have n: "p < n" "j < n" using calls_okD(3)[OF net_invD(2)[OF i], of "(p, j)"] k b by (metis nth_mem fst_conv snd_conv)+
  have l: "rstate (srv s p) = leader" using t b by simp
  note w = RequestHeartBeat_args_wf[OF net_invD(3)[OF i n(1)] h(1)]
  have "acall_ok n (won s) \<lparr>a_src = p, a_dst = j, a_args = args, a_stage = ASent\<rparr>"
    using w n net_invD(4,6)[OF i n(1)] l net_invD(3)[OF i n(1)] by (simp add: acall_ok_def raft_wf_def)
  then have "calls_ok n s'" using net_invD(2)[OF i] set_remove_at[of k "beats s"] unfolding calls_ok_def h(2) by auto
  then show ?thesis using net_invD(1)[OF i] by (simp add: net_inv_def h(2))
qed

lemma acall_ok_stage [simp]: "acall_ok n W (a\<lparr>a_stage := st\<rparr>) = acall_ok n W a"
  by (simp add: acall_ok_def)

lemma inv_Append:
  assumes i: "net_inv n s" and e: "exec n s (Append k) = Some s'"
  shows "net_inv n s'"
proof -
  let ?a = "acalls s ! k"
  obtain rf reply where h: "RequestAppendEntriesReply (srv s (a_dst ?a)) (a_args ?a) = Some (rf, reply)"
      "k < length (acalls s)"
      "s' = s\<lparr>srv := (srv s)(a_dst ?a := rf), acalls := (acalls s)[k := ?a\<lparr>a_stage := AHandled reply\<rparr>]\<rparr>"
    using e by (auto simp: Let_def bind_Some_iff split: if_splits)
  have a: "acall_ok n (won s) ?a" using calls_okD(4)[OF net_invD(2)[OF i]] h(2) by simp
  then have d: "a_dst ?a < n" by (simp add: acall_ok_def)
  have al: "allowed n (srv s (a_dst ?a)) rf (votes s) (votes s) (won s)"
    using allowed_append[OF net_invD(3)[OF i d] _ _ _ h(1), of "won s" "votes s"] a net_invD(4,5)[OF i d] by (simp add: acall_ok_def)
  have "\<forall>x\<in>set ((acalls s)[k := ?a\<lparr>a_stage := AHandled reply\<rparr>]). acall_ok n (won s) x"
    using calls_okD(4)[OF net_invD(2)[OF i]] a by (intro ball_update) auto
  then have "calls_ok n s'" using net_invD(2)[OF i] unfolding calls_ok_def h(3) by simp
  from net_inv_peer[OF i d al this] show ?thesis by (simp add: h(3))
qed

lemma inv_AppendResult:
  assumes i: "net_inv n s" and e: "exec n s (AppendResult k) = Some s'"
  shows "net_inv n s'"
proof -
  let ?a = "acalls s ! k"
  obtain rf reply where h: "RequestHeartBeat_reply (srv s (a_src ?a)) (a_dst ?a) (a_args ?a) reply = Some rf"
      "k < length (acalls s)"
      "s' = s\<lparr>srv := (srv s)(a_src ?a := rf), acalls := (acalls s)[k := ?a\<lparr>a_stage := ADone\<rparr>]\<rparr>"
    using e by (auto simp: Let_def bind_Some_iff split: if_splits astage.splits)
  have a: "acall_ok n (won s) ?a" using calls_okD(4)[OF net_invD(2)[OF i]] h(2) by simp
  then have d: "a_src ?a < n" by (simp add: acall_ok_def)
  have al: "allowed n (srv s (a_src ?a)) rf (votes s) (votes s) (won s)"
    using allowed_append_reply[OF net_invD(3)[OF i d] _ h(1), of "votes s" "won s"] net_invD(4,5)[OF i d] by simp
  have "\<forall>x\<in>set ((acalls s)[k := ?a\<lparr>a_stage := ADone\<rparr>]). acall_ok n (won s) x"
    using calls_okD(4)[OF net_invD(2)[OF i]] a by (intro ball_update) auto
  then have "calls_ok n s'" using net_invD(2)[OF i] unfolding calls_ok_def h(3) by simp
  from net_inv_peer[OF i d al this] show ?thesis by (simp add: h(3))
qed

lemma inv_Submit:
  assumes i: "net_inv n s" and e: "exec n s (Submit k c) = Some s'"
  shows "net_inv n s'"
proof -
  have s': "s' = s\<lparr>starts := starts s @ [(k, currentTerm (srv s k), c)]\<rparr>" "k < n"
    using e by (auto simp: GetState_def split: if_splits)
  then have "calls_ok n s'" using net_invD(2)[OF i] unfolding calls_ok_def s'(1) by auto
  then show ?thesis using net_invD(1)[OF i] by (simp add: net_inv_def s')
qed

text \<open>Changes that leave term, vote and state of a peer alone.\<close>

lemma allowed_quiet:
  assumes "raft_wf n rf'" "me rf' = me rf" "currentTerm rf' = currentTerm rf" "voteFor rf' = voteFor rf" "rstate rf' = rstate rf"
    and "rstate rf \<noteq> follower \<longrightarrow> voteFor rf = int (me rf) \<and> (me rf, currentTerm rf, me rf) \<in> set V"
  shows "allowed n rf rf' V V W"
  using assms unfolding allowed_def by auto

lemma inv_SubmitAppend:
  assumes i: "net_inv n s" and e: "exec n s (SubmitAppend k) = Some s'"
  shows "net_inv n s'"
proof -
  obtain p t c where b: "starts s ! k = (p, t, c)" by (metis prod_cases3)
  have k: "k < length (starts s)" using e by (auto split: if_splits)
  have s': "s' = s\<lparr>srv := (srv s)(p := fst (Start_append (srv s p) t c)), starts := remove_at k (starts s),
               beats := beats s @ heartbeats n p\<rparr>"
    using e b k by simp
  have p: "p < n" using calls_okD(5)[OF net_invD(2)[OF i], of "(p, t, c)"] k b by (metis nth_mem fst_conv)
  have a: "allowed n (srv s p) (fst (Start_append (srv s p) t c)) (votes s) (votes s) (won s)"
    by (rule allowed_quiet[OF Start_append_wf[OF net_invD(3)[OF i p]]])
      (use net_invD(4,5)[OF i p] in \<open>simp_all add: Start_append_def\<close>)
  have "calls_ok n s'" using net_invD(2)[OF i] set_remove_at[of k "starts s"] heartbeats_ok[OF p]
    unfolding calls_ok_def s' by auto
  from net_inv_peer[OF i p a this] show ?thesis by (simp add: s')
qed

lemma inv_Apply:
  assumes i: "net_inv n s" and e: "exec n s (Apply k) = Some s'"
  shows "net_inv n s'"
proof -
  obtain rf msg where h: "applier_step (srv s k) = Some (rf, msg)" "k < n" "s' = s\<lparr>srv := (srv s)(k := rf)\<rparr>"
    using e by (auto simp: bind_Some_iff split: if_splits)
  have "raft_wf n rf" using applier_step_total[OF net_invD(3)[OF i h(2)]] h(1) by auto
  moreover have "me rf = me (srv s k) \<and> currentTerm rf = currentTerm (srv s k) \<and> voteFor rf = voteFor (srv s k) \<and>
      rstate rf = rstate (srv s k)"
    using h(1) by (auto simp: applier_step_def bind_Some_iff Let_def split: if_splits)
  ultimately have a: "allowed n (srv s k) rf (votes s) (votes s) (won s)"
    using net_invD(4,5)[OF i h(2)] by (intro allowed_quiet) auto
  have "calls_ok n s'" using net_invD(2)[OF i] unfolding calls_ok_def h(3) by simp
  from net_inv_peer[OF i h(2) a this] show ?thesis by (simp add: h(3))
qed

lemma RequestVote_reply_cases:
  assumes "RequestVote_reply rf voteNum args reply = (rf', voteNum', win)"
  obtains (quiet) "\<not> win" "voteNum' = voteNum"
  | (counted) "\<not> win" "voteNum' = voteNum + 1" "rvr_VoteGranted reply" "rf' = rf"
  | (elected) "win" "voteNum' = voteNum + 1" "rvr_VoteGranted reply" "voteNum' > peers rf div 2" "rstate rf = candidate"
    "currentTerm rf = rv_Term args"
    "rf' = rf\<lparr>rstate := leader, nextIndex := map (\<lambda>_. int (length (rlog rf))) (nextIndex rf)\<rparr>"
  using assms by (auto simp: RequestVote_reply_def Let_def split: if_splits)

text \<open>The votes of a round that reaches a majority elect its owner.\<close>

lemma core_ok_win:
  assumes c: "core_ok n S V W" and i: "i < n" and st: "rstate (S i) = candidate" "currentTerm (S i) = T"
    and q: "majority n (set Q)" "\<forall>v\<in>set Q. (v, T, i) \<in> set V"
    and rf: "rf' = (S i)\<lparr>rstate := leader, nextIndex := xs\<rparr>" "length xs = length (nextIndex (S i))"
  shows "core_ok n (S(i := rf')) V ((i, T, Q) # W)"
proof -
  have ok: "peers_ok n S" "votes_ok n S V W" "states_ok n S V W" "won_ok n S V W"
    using c by (simp_all add: core_ok_def)
  have new: "\<not> has_won W L T" for L
  proof
    assume "has_won W L T"
    then obtain R where R: "(L, T, R) \<in> set W" by (auto simp: has_won_def)
    have "\<forall>v\<in>set R. \<forall>c. (v, T, c) \<in> set V \<longrightarrow> c = L" by (intro ballI allI impI) (rule won_okD(6)[OF ok(4) R])
    with q(2) have "L = i" by (rule majority.unique_choice[OF won_okD(2)[OF ok(4) R] q(1), rotated])
    then show False using won_okD(4)[OF ok(4) R] st by simp
  qed
  have same [simp]: "currentTerm ((S(i := rf')) v) = currentTerm (S v)" "voteFor ((S(i := rf')) v) = voteFor (S v)" for v
    by (simp_all add: rf)
  have hw: "has_won ((i, T, Q) # W) L U \<longleftrightarrow> has_won W L U \<or> L = i \<and> U = T" for L U by (auto simp: has_won_def)
  have "peers_ok n (S(i := rf'))" using ok(1) i rf by (auto simp: peers_ok_def raft_wf_def)
  moreover have "votes_ok n (S(i := rf')) V ((i, T, Q) # W)"
    using ok(2) unfolding votes_ok_def same hw by blast
  moreover have "states_ok n (S(i := rf')) V ((i, T, Q) # W)"
    using ok(3) i st unfolding states_ok_def same hw by (auto simp: rf)
  moreover have "won_ok n (S(i := rf')) V ((i, T, Q) # W)"
    unfolding won_ok_def same
  proof (intro allI impI)
    fix L U R assume "(L, U, R) \<in> set ((i, T, Q) # W)"
    then consider "(L, U, R) \<in> set W" | "L = i" "U = T" "R = Q" by auto
    then show "L < n \<and> majority n (set R) \<and> U \<le> currentTerm (S L) \<and>
        (currentTerm (S L) = U \<longrightarrow> rstate ((S(i := rf')) L) \<noteq> candidate) \<and>
        (\<forall>v\<in>set R. (v, U, L) \<in> set V \<and> (\<forall>c. (v, U, c) \<in> set V \<longrightarrow> c = L) \<and>
           (currentTerm (S v) = U \<longrightarrow> voteFor (S v) = int L))"
    proof cases
      case 1
      then show ?thesis using won_okD[OF ok(4) 1] by (auto simp: rf)
    next
      case 2
      have "(\<forall>c. (v, T, c) \<in> set V \<longrightarrow> c = i) \<and> (currentTerm (S v) = T \<longrightarrow> voteFor (S v) = int i)" if "v \<in> set Q" for v
        using votes_okD(4,5)[OF ok(2), of v T i] q(2) that new by blast
      then show ?thesis using 2 i q st(2) by (simp add: rf)
    qed
  qed
  ultimately show ?thesis by (simp add: core_ok_def)
qed

lemma round_ok_voter:
  assumes r: "round_ok n V r" and d: "d < n" "rd_calls r d = VHandled reply"
  shows "round_ok n V (r\<lparr>rd_calls := (rd_calls r)(d := VDone)\<rparr>)"
    and "rvr_VoteGranted reply \<Longrightarrow>
      round_ok n V (r\<lparr>rd_voteNum := rd_voteNum r + 1, rd_calls := (rd_calls r)(d := VDone), rd_voters := d # rd_voters r\<rparr>)"
    and "rvr_VoteGranted reply \<Longrightarrow> (d, rv_Term (rd_args r), rd_owner r) \<in> set V"
    and "d \<noteq> rd_owner r" "d \<notin> set (rd_voters r)"
proof -
  show nd: "d \<noteq> rd_owner r" "d \<notin> set (rd_voters r)" using r d(2) by (auto simp: round_ok_def)
  show v: "rvr_VoteGranted reply \<Longrightarrow> (d, rv_Term (rd_args r), rd_owner r) \<in> set V"
    using r d(2) by (simp add: round_ok_def)
  show "round_ok n V (r\<lparr>rd_calls := (rd_calls r)(d := VDone)\<rparr>)" using r nd by (simp add: round_ok_def)
  show "rvr_VoteGranted reply \<Longrightarrow>
      round_ok n V (r\<lparr>rd_voteNum := rd_voteNum r + 1, rd_calls := (rd_calls r)(d := VDone), rd_voters := d # rd_voters r\<rparr>)"
    using r nd v d(1) by (simp add: round_ok_def)
qed

lemma inv_VoteResult:
  assumes i: "net_inv n s" and e: "exec n s (VoteResult k d) = Some s'"
  shows "net_inv n s'"
proof -
  let ?r = "rounds s ! k" let ?i = "rd_owner ?r"
  obtain reply where g: "k < length (rounds s)" "d < n" "rd_calls ?r d = VHandled reply"
    using e by (auto simp: Let_def split: if_splits vstage.splits)
  obtain rf vn win where h: "RequestVote_reply (srv s ?i) (rd_voteNum ?r) (rd_args ?r) reply = (rf, vn, win)"
    by (metis prod_cases3)
  define voters where "voters = (if vn = rd_voteNum ?r then rd_voters ?r else d # rd_voters ?r)"
  define r' where "r' = ?r\<lparr>rd_voteNum := vn, rd_calls := (rd_calls ?r)(d := VDone), rd_voters := voters\<rparr>"
  have s': "s' = s\<lparr>srv := (srv s)(?i := rf), rounds := (rounds s)[k := r'],
      beats := (if win then beats s @ heartbeats n ?i else beats s),
      won := (if win then (?i, currentTerm rf, ?i # voters) # won s else won s)\<rparr>"
    using e g h unfolding r'_def voters_def by (simp add: Let_def)
  have r: "round_ok n (votes s) ?r" using calls_okD(2)[OF net_invD(2)[OF i]] g(1) by simp
  then have o: "?i < n" by (simp add: round_ok_def)
  note rv = round_ok_voter[OF r g(2,3)]
  have c: "calls_ok n s'" if "round_ok n (votes s) r'"
  proof -
    have "\<forall>x\<in>set ((rounds s)[k := r']). round_ok n (votes s) x"
      using calls_okD(2)[OF net_invD(2)[OF i]] that by (intro ball_update) auto
    moreover have "\<forall>a\<in>set (acalls s). acall_ok n (won s') a"
    proof
      fix a assume "a \<in> set (acalls s)"
      moreover have "set (won s) \<subseteq> set (won s')" by (auto simp: s')
      ultimately show "acall_ok n (won s') a" by (rule acall_ok_mono[OF calls_okD(4)[OF net_invD(2)[OF i]]])
    qed
    ultimately show ?thesis using net_invD(2)[OF i] heartbeats_ok[OF o] unfolding calls_ok_def s' by auto
  qed
  from h show ?thesis
  proof (cases rule: RequestVote_reply_cases)
    case quiet
    then have a: "allowed n (srv s ?i) rf (votes s) (votes s) (won s)"
      using allowed_vote_reply[OF net_invD(3)[OF i o], of "votes s"] net_invD(4,5)[OF i o] h by simp
    have "round_ok n (votes s) r'" using rv(1) quiet by (simp add: r'_def voters_def)
    from net_inv_peer[OF i o a c[OF this]] quiet show ?thesis by (simp add: s')
  next
    case counted
    then have a: "allowed n (srv s ?i) rf (votes s) (votes s) (won s)"
      using allowed_vote_reply[OF net_invD(3)[OF i o], of "votes s"] net_invD(4,5)[OF i o] h by simp
    have "round_ok n (votes s) r'" using rv(2) counted by (simp add: r'_def voters_def)
    from net_inv_peer[OF i o a c[OF this]] counted show ?thesis by (simp add: s')
  next
    case elected
    have vo: "voters = d # rd_voters ?r" using elected by (simp add: voters_def)
    have ok: "round_ok n (votes s) r'" using rv(2) elected by (simp add: r'_def voters_def)
    have "set (?i # voters) \<subseteq> {..<n}" "distinct (?i # voters)" using r o rv(4,5) g(2) vo by (auto simp: round_ok_def)
    moreover have "length (?i # voters) > n div 2"
      using r elected(2,4) vo net_invD(3)[OF i o] by (simp add: round_ok_def raft_wf_def)
    ultimately have q: "majority n (set (?i # voters))" unfolding majority_def using distinct_card by metis
    have "\<forall>v\<in>set (?i # voters). (v, currentTerm rf, ?i) \<in> set (votes s)"
      using r rv(3) elected vo net_invD(5)[OF i o] by (auto simp: round_ok_def)
    from core_ok_win[OF net_invD(1)[OF i] o elected(5) _ q this elected(7)] c[OF ok] elected show ?thesis
      by (simp add: net_inv_def s')
  qed
qed

lemma net_inv_step:
  assumes "net_inv n s" "timely s e" "exec n s e = Some s'"
  shows "net_inv n s'"
  using assms
  by (cases e) (auto intro: inv_Timeout inv_Campaign inv_VoteRequest inv_VoteResult inv_Beat inv_Send inv_Append
      inv_AppendResult inv_Submit inv_SubmitAppend inv_Apply simp del: exec.simps timely.simps)

lemma reachable_inv: "reachable n s \<Longrightarrow> net_inv n s"
  by (induction rule: reachable.induct) (auto intro: net_inv_start net_inv_step)

section \<open>Election safety\<close>

lemma one_leader_per_term:
  assumes "reachable n s" "i < n" "j < n" "rstate (srv s i) = leader" "rstate (srv s j) = leader"
    and "currentTerm (srv s i) = currentTerm (srv s j)"
  shows "i = j"
proof -
  note inv = reachable_inv[OF assms(1)]
  have "won_ok n (srv s) (votes s) (won s)" using net_invD(1)[OF inv] by (simp add: core_ok_def)
  from won_unique[OF this] show ?thesis
    using net_invD(6)[OF inv assms(2,4)] net_invD(6)[OF inv assms(3,5)] assms(6) by (auto simp: has_won_def)
qed

text \<open>
  \<^bold>\<open>C3\<close>. In every reachable state of the peers and their RPC goroutines, with requests and replies lost,
  delayed and reordered, at most one peer leads a term, provided the run is timely: a heartbeat
  goroutine builds its arguments while its peer leads, and the second locked section of Start runs
  while the peer still leads the term read by the first.
\<close>

theorem election_safety:
  assumes "reachable n s" "i < n" "j < n" "rstate (srv s i) = leader" "rstate (srv s j) = leader"
    and "currentTerm (srv s i) = currentTerm (srv s j)"
  shows "i = j"
  by (rule one_leader_per_term[OF assms])

fun timely_run :: "nat \<Rightarrow> 'c sys \<Rightarrow> 'c ev list \<Rightarrow> bool" where
  "timely_run n s [] = True"
| "timely_run n s (e # es) = (timely s e \<and> (case exec n s e of None \<Rightarrow> False | Some s' \<Rightarrow> timely_run n s' es))"

lemma run_reachable:
  "reachable n s \<Longrightarrow> timely_run n s es \<Longrightarrow> \<exists>s'. run_sys n s es = Some s' \<and> reachable n s'"
proof (induction es arbitrary: s)
  case (Cons e es)
  then obtain s1 where "exec n s e = Some s1" "timely s e" "timely_run n s1 es" by (auto split: option.splits)
  with Cons.IH[of s1] Cons.prems(1) reachable_step show ?case by fastforce
qed simp

definition first_election :: "nat ev list" where
  "first_election = [Timeout 0, Campaign 0, VoteRequest 0 1, VoteResult 0 1]"

lemma first_election_run:
  "timely_run 3 (start_sys 3) first_election"
  "map_option (\<lambda>s. (rstate (srv s 0), currentTerm (srv s 0))) (run_sys 3 (start_sys 3) first_election) = Some (leader, 1)"
  unfolding first_election_def by code_simp+

theorem election_safety_witness:
  "\<exists>s :: nat sys. reachable 3 s \<and> rstate (srv s 0) = leader \<and> currentTerm (srv s 0) = 1 \<and>
     (\<forall>j<3. rstate (srv s j) = leader \<longrightarrow> currentTerm (srv s j) = 1 \<longrightarrow> 0 = j)"
proof -
  obtain s :: "nat sys" where s: "run_sys 3 (start_sys 3) first_election = Some s" "reachable 3 s"
    using run_reachable[OF reachable_start first_election_run(1)] by blast
  then have l: "rstate (srv s 0) = leader" "currentTerm (srv s 0) = 1" using first_election_run(2) by simp_all
  have "0 = j" if "j < 3" "rstate (srv s j) = leader" "currentTerm (srv s j) = 1" for j
    using election_safety[OF s(2) _ that(1) l(1) that(2)] l(2) that(3) by simp
  with s l show ?thesis by blast
qed

definition stale_heartbeat :: "nat ev list" where
  "stale_heartbeat = first_election @
     [Timeout 1, Campaign 0, VoteRequest 1 0, Timeout 1, Campaign 0, VoteRequest 2 2, VoteResult 2 2,
      Timeout 0, Send 1, Append 0, Campaign 0, VoteRequest 3 2, VoteResult 3 2]"

text \<open>
  \<^bold>\<open>C36\<close>. A heartbeat goroutine that runs after its peer has lost the leadership sends AppendEntries in a
  term the peer does not lead; a run of three peers ends with two leaders in one term.
\<close>

theorem stale_heartbeat_two_leaders:
  "map_option (\<lambda>s. (rstate (srv s 0), currentTerm (srv s 0), rstate (srv s 1), currentTerm (srv s 1)))
     (run_sys 3 (start_sys 3) stale_heartbeat) = Some (leader, 3, leader, 3)"
  unfolding stale_heartbeat_def first_election_def by code_simp

lemma step_term_mono:
  assumes "exec n s e = Some s'"
  shows "currentTerm (srv s i) \<le> currentTerm (srv s' i)"
proof (cases e)
  case (Timeout k)
  then show ?thesis using assms term_mono(5)[of "srv s k"] by (auto simp: Let_def case_prod_beta split: if_splits)
next
  case (VoteRequest k d)
  then show ?thesis using assms term_mono(3)[of "srv s d" "rd_args (rounds s ! k)"] by (auto simp: Let_def case_prod_beta split: if_splits)
next
  case (VoteResult k d)
  then show ?thesis
    using assms term_mono(4)[of "srv s (rd_owner (rounds s ! k))" "rd_voteNum (rounds s ! k)" "rd_args (rounds s ! k)"]
    by (auto simp: Let_def case_prod_beta split: if_splits vstage.splits)
next
  case (Append k)
  then show ?thesis using assms by (auto simp: Let_def bind_Some_iff split: if_splits dest: term_mono(1))
next
  case (AppendResult k)
  then show ?thesis using assms by (auto simp: Let_def bind_Some_iff split: if_splits astage.splits dest: term_mono(2))
next
  case (Apply k)
  then show ?thesis using assms by (auto simp: Let_def bind_Some_iff applier_step_def split: if_splits)
qed (use assms in \<open>auto simp: Let_def bind_Some_iff case_prod_beta Start_append_def GetState_def split: if_splits\<close>)

theorem terms_never_decrease:
  assumes "exec n s e = Some s'"
  shows "currentTerm (srv s i) \<le> currentTerm (srv s' i)"
  by (rule step_term_mono[OF assms])

theorem terms_never_decrease_witness:
  "\<exists>s'. exec 3 (start_sys 3 :: nat sys) (Timeout 0) = Some s' \<and> currentTerm (srv (start_sys 3 :: nat sys) 1) \<le> currentTerm (srv s' 1)"
proof -
  obtain s' where "exec 3 (start_sys 3 :: nat sys) (Timeout 0) = Some s'"
    by (simp add: start_sys_def startElection_def Make_def readPersist_def)
  with terms_never_decrease[OF this, of 1] show ?thesis by blast
qed

text \<open>
  The retry of a rejected append has no lower bound.  Peer 0 leads term 1 and appends a command that
  nobody else gets; peer 2 reaches term 2 and makes it step down; it wins term 3 with the vote of peer 1, and
  three of its heartbeats are on the way to peer 2 at the same time, each of which is rejected for its previous index 1.
\<close>

definition three_rejections :: "nat ev list" where
  "three_rejections = first_election @
    [Submit 0 7, SubmitAppend 0, Timeout 2, Timeout 2, Campaign 0, VoteRequest 1 0,
     Timeout 0, Campaign 1, VoteRequest 2 1, VoteResult 2 1, Beat 0, Beat 0,
     Send 5, Send 6, Send 7, Append 0, Append 1, Append 2]"

text \<open>
  \<^bold>\<open>C39\<close>. In a timely run of three peers from the initial state, three heartbeats of one leader on the way
  to the same peer are rejected. After two of the rejections nextIndex is zero: the next heartbeat
  sends the dummy entry of the log, the peer stores it as entry 1, and the success reply makes the
  leader panic in its commit loop. After all three nextIndex is -1 and building the next heartbeat
  panics.
\<close>

theorem nextIndex_underflow:
  "timely_run 3 (start_sys 3) (three_rejections @ [AppendResult 0, AppendResult 1, Beat 0, Send 8, Append 3]) \<and>
   map_option (\<lambda>s. (rstate (srv s 0), nextIndex (srv s 0) ! 2, rlog (srv s 0)))
     (run_sys 3 (start_sys 3) (three_rejections @ [AppendResult 0, AppendResult 1])) =
     Some (leader, 0, [\<lparr>Entry = None, LogTerm = 0\<rparr>, \<lparr>Entry = Some 7, LogTerm = 1\<rparr>]) \<and>
   map_option (\<lambda>s. (rlog (srv s 2), map a_stage (drop 3 (acalls s)), exec 3 s (AppendResult 3) = None))
     (run_sys 3 (start_sys 3) (three_rejections @ [AppendResult 0, AppendResult 1, Beat 0, Send 8, Append 3])) =
     Some ([\<lparr>Entry = None, LogTerm = 0\<rparr>, \<lparr>Entry = None, LogTerm = 0\<rparr>, \<lparr>Entry = Some 7, LogTerm = 1\<rparr>],
       [AHandled \<lparr>aer_Term = 3, aer_Success = True\<rparr>], True) \<and>
   timely_run 3 (start_sys 3) (three_rejections @ [AppendResult 0, AppendResult 1, AppendResult 2, Beat 0]) \<and>
   map_option (\<lambda>s. (rstate (srv s 0), nextIndex (srv s 0) ! 2, drop 8 (beats s), exec 3 s (Send 8) = None))
     (run_sys 3 (start_sys 3) (three_rejections @ [AppendResult 0, AppendResult 1, AppendResult 2, Beat 0])) =
     Some (leader, -1, [(0, 2)], True)"
  unfolding three_rejections_def first_election_def by (intro conjI; code_simp)

end
