(* ===== verification/Raft_Log.thy ===== *)
theory Raft_Log
  imports Raft_Net
begin

text \<open>
  The logs of the peers of \<^verbatim>\<open>raft/raft.go\<close> in the system of \<open>Raft_Net\<close>: an entry is identified by its
  index and its term.  The proof carries the log of the leader of every term (\<open>ledger\<close>), which only
  grows; every log is made of prefixes of these.
\<close>

section \<open>Orderly runs\<close>

text \<open>
  A heartbeat with \<^verbatim>\<open>nextIndex\<close> below one sends the dummy entry as if it were a command.  An orderly
  step is timely and does not start from such an index.
\<close>

fun in_range :: "'c sys \<Rightarrow> 'c ev \<Rightarrow> bool" where
  "in_range s (Send k) = (let (i, j) = beats s ! k in 1 \<le> nextIndex (srv s i) ! j)"
| "in_range s e = True"

inductive orderly :: "nat \<Rightarrow> 'c sys \<Rightarrow> bool" for n where
  orderly_start: "orderly n (start_sys n)"
| orderly_step: "orderly n s \<Longrightarrow> timely s e \<Longrightarrow> in_range s e \<Longrightarrow> exec n s e = Some s' \<Longrightarrow> orderly n s'"

lemma orderly_reachable: "orderly n s \<Longrightarrow> reachable n s"
  by (induction rule: orderly.induct) (auto intro: reachable.intros)

section \<open>The logs of the leaders\<close>

definition dummy :: "'c Log" where
  "dummy = \<lparr>Entry = None, LogTerm = 0\<rparr>"

type_synonym 'c ledger = "int \<Rightarrow> 'c Log list option"

definition grows :: "'c ledger \<Rightarrow> 'c ledger \<Rightarrow> bool" where
  "grows G G' \<longleftrightarrow> (\<forall>T g. G T = Some g \<longrightarrow> (\<exists>h. G' T = Some (g @ h) \<and> (\<forall>e\<in>set h. LogTerm e = T)))"

definition traced :: "'c ledger \<Rightarrow> 'c Log list \<Rightarrow> bool" where
  "traced G lg \<longleftrightarrow> lg \<noteq> [] \<and> lg ! 0 = dummy \<and> (\<forall>k. 0 < k \<longrightarrow> k < length lg \<longrightarrow>
     (\<exists>g. G (LogTerm (lg ! k)) = Some g \<and> k < length g \<and> take (Suc k) g = take (Suc k) lg))"

definition call_traced :: "'c ledger \<Rightarrow> 'c RequestAppendEntriesArgs \<Rightarrow> bool" where
  "call_traced G args \<longleftrightarrow> (\<exists>g m. let prev = nat (ae_PrevLogIndex args) in
     G (ae_Term args) = Some g \<and> m \<le> length g \<and> prev < m \<and> ae_Entries args = drop (Suc prev) (take m g) \<and>
     (prev \<noteq> 0 \<longrightarrow> LogTerm (g ! prev) = ae_PrevLogTerm args))"

lemma tracedI:
  assumes "lg \<noteq> []" "lg ! 0 = dummy"
    and "\<And>k. 0 < k \<Longrightarrow> k < length lg \<Longrightarrow> \<exists>g. G (LogTerm (lg ! k)) = Some g \<and> k < length g \<and> take (Suc k) g = take (Suc k) lg"
  shows "traced G lg"
  using assms by (simp add: traced_def)

lemma tracedD:
  assumes "traced G lg"
  shows "lg \<noteq> []" "lg ! 0 = dummy" "take (Suc 0) lg = [dummy]"
    "0 < k \<Longrightarrow> k < length lg \<Longrightarrow> \<exists>g. G (LogTerm (lg ! k)) = Some g \<and> k < length g \<and> take (Suc k) g = take (Suc k) lg"
  using assms by (auto simp: traced_def take_Suc hd_conv_nth)

lemma grows_refl [simp]: "grows G G"
  by (simp add: grows_def)

text \<open>Two traced logs with the same term at an index agree up to there.\<close>

lemma traced_agree:
  assumes "traced G a" "traced G b" "k < length a" "k < length b" "LogTerm (a ! k) = LogTerm (b ! k)"
  shows "take (Suc k) a = take (Suc k) b"
proof (cases "k = 0")
  case True
  then show ?thesis using tracedD(3)[OF assms(1)] tracedD(3)[OF assms(2)] by simp
next
  case False
  then show ?thesis using tracedD(4)[OF assms(1) _ assms(3)] tracedD(4)[OF assms(2) _ assms(4)] assms(5) by force
qed

lemma traced_grows:
  assumes "traced G lg" "grows G G'"
  shows "traced G' lg"
proof (rule tracedI)
  fix k assume "0 < k" "k < length lg"
  from tracedD(4)[OF assms(1) this] obtain g where g: "G (LogTerm (lg ! k)) = Some g" "k < length g" "take (Suc k) g = take (Suc k) lg"
    by blast
  with assms(2) obtain h where "G' (LogTerm (lg ! k)) = Some (g @ h)" unfolding grows_def by blast
  with g show "\<exists>g. G' (LogTerm (lg ! k)) = Some g \<and> k < length g \<and> take (Suc k) g = take (Suc k) lg" by (intro exI[of _ "g @ h"]) simp
qed (use tracedD[OF assms(1)] in simp_all)

lemma traced_take:
  assumes "traced G lg" "0 < m"
  shows "traced G (take m lg)"
proof (rule tracedI)
  fix k assume k: "0 < k" "k < length (take m lg)"
  then have "take (Suc k) (take m lg) = take (Suc k) lg" by (simp add: min_absorb1)
  with tracedD(4)[OF assms(1) k(1)] k show "\<exists>g. G (LogTerm (take m lg ! k)) = Some g \<and> k < length g \<and> take (Suc k) g = take (Suc k) (take m lg)"
    by simp
qed (use tracedD[OF assms(1)] assms(2) in simp_all)

lemma traced_snoc:
  assumes "traced G lg" "G (LogTerm e) = Some (lg @ [e])"
  shows "traced G (lg @ [e])"
proof (rule tracedI)
  fix k assume k: "0 < k" "k < length (lg @ [e])"
  show "\<exists>g. G (LogTerm ((lg @ [e]) ! k)) = Some g \<and> k < length g \<and> take (Suc k) g = take (Suc k) (lg @ [e])"
  proof (cases "k < length lg")
    case True
    with tracedD(4)[OF assms(1) k(1) True] show ?thesis by (simp add: nth_append)
  next
    case False
    with k have "k = length lg" by simp
    with assms(2) show ?thesis by simp
  qed
qed (use tracedD[OF assms(1)] in \<open>simp_all add: nth_append\<close>)

lemma call_traced_grows:
  assumes "call_traced G args" "grows G G'"
  shows "call_traced G' args"
proof -
  obtain g m where g: "G (ae_Term args) = Some g" "m \<le> length g" "nat (ae_PrevLogIndex args) < m"
      "ae_Entries args = drop (Suc (nat (ae_PrevLogIndex args))) (take m g)"
      "nat (ae_PrevLogIndex args) \<noteq> 0 \<longrightarrow> LogTerm (g ! nat (ae_PrevLogIndex args)) = ae_PrevLogTerm args"
    using assms(1) unfolding call_traced_def Let_def by blast
  obtain h where "G' (ae_Term args) = Some (g @ h)" using assms(2) g(1) unfolding grows_def by blast
  with g show ?thesis unfolding call_traced_def Let_def by (intro exI[of _ "g @ h"] exI[of _ m]) (simp add: nth_append)
qed

text \<open>What an append request of a leader leaves behind: the old log, or a prefix of the leader's.\<close>

lemma append_entries_traced:
  assumes lg: "traced G lg" and g: "traced G g" and m: "prev < m" "m \<le> length g"
    and p: "prev < length lg" "LogTerm (lg ! prev) = LogTerm (g ! prev)"
  shows "append_entries lg prev (drop (Suc prev) (take m g)) \<in> {lg, take m g}"
  using p(1)
proof (cases rule: append_entries_cases[of prev lg "drop (Suc prev) (take m g)"])
  case (extended k)
  have "LogTerm (lg ! (prev + k)) = LogTerm (g ! (prev + k)) \<and> prev + k < length lg"
  proof (cases k)
    case (Suc x)
    then show ?thesis using extended(3)[rule_format, of x] extended(1) m by simp
  qed (use p in simp)
  then have "take (Suc (prev + k)) lg = take (Suc (prev + k)) g"
    using extended(1) m by (intro traced_agree[OF lg g]) auto
  moreover have "drop k (drop (Suc prev) (take m g)) = drop (Suc (prev + k)) (take m g)" by (simp add: add.commute)
  moreover have "take (Suc (prev + k)) g = take (Suc (prev + k)) (take m g)" using extended(1) m by (simp add: min_absorb1)
  ultimately show ?thesis using extended(2) by (simp del: take_take drop_drop take_drop)
qed simp

section \<open>What a step does to the logs\<close>

definition sent :: "'c sys \<Rightarrow> (nat \<times> nat \<times> 'c RequestAppendEntriesArgs) set" where
  "sent s = (\<lambda>a. (a_src a, a_dst a, a_args a)) ` set (acalls s)"

lemma sent_stage:
  assumes "k < length (acalls s)" "acalls s' = (acalls s)[k := (acalls s ! k)\<lparr>a_stage := st\<rparr>]"
  shows "sent s' = sent s"
proof -
  let ?f = "\<lambda>a. (a_src a, a_dst a, a_args a)"
  have "map ?f (acalls s') = map ?f (acalls s)"
    using assms list_update_id[of "map ?f (acalls s)" k] by (simp add: map_update)
  then have "set (map ?f (acalls s')) = set (map ?f (acalls s))" by (rule arg_cong)
  then show ?thesis by (simp only: sent_def set_map)
qed

lemma sent_same: "acalls s' = acalls s \<Longrightarrow> sent s' = sent s"
  by (simp add: sent_def)

definition lead_kept :: "nat \<Rightarrow> 'c sys \<Rightarrow> 'c sys \<Rightarrow> bool" where
  "lead_kept n s s' \<longleftrightarrow> won s' = won s \<and> (\<forall>i<n. rstate (srv s' i) = leader \<longrightarrow>
     rstate (srv s i) = leader \<and> currentTerm (srv s' i) = currentTerm (srv s i))"

definition logs_kept :: "nat \<Rightarrow> 'c sys \<Rightarrow> 'c sys \<Rightarrow> bool" where
  "logs_kept n s s' \<longleftrightarrow> (\<forall>i<n. rlog (srv s' i) = rlog (srv s i))"

text \<open>Heartbeats never go from a peer to itself.\<close>

definition apart :: "'c sys \<Rightarrow> bool" where
  "apart s \<longleftrightarrow> (\<forall>i. (i, i) \<notin> set (beats s)) \<and> (\<forall>i args. (i, i, args) \<notin> sent s)"

lemma heartbeats_apart: "(i, i) \<notin> set (heartbeats n j)"
  by (auto simp: heartbeats_def)

lemma apart_step:
  assumes a: "apart s" and e: "exec n s e = Some s'"
  shows "apart s'"
proof -
  have "(i, i) \<notin> set (beats s')" for i
    using a e heartbeats_apart[of i n] contra_subsetD[OF set_remove_at, of "(i, i)" "beats s"]
    by (cases e) (auto simp: apart_def Let_def case_prod_beta bind_Some_iff split: if_splits vstage.splits astage.splits)
  moreover have "sent s' = sent s \<or> (\<exists>i j args. (i, j) \<in> set (beats s) \<and> sent s' = insert (i, j, args) (sent s))"
  proof (cases e)
    case (Send k)
    then have k: "k < length (beats s)" using e by (auto split: if_splits)
    obtain i j where b: "beats s ! k = (i, j)" by force
    then obtain args where "sent s' = insert (i, j, args) (sent s)" using e k Send by (auto simp: bind_Some_iff sent_def)
    then show ?thesis using nth_mem[OF k] b by auto
  next
    case (Append k)
    then show ?thesis using e by (auto simp: bind_Some_iff Let_def split: if_splits intro!: sent_stage)
  next
    case (AppendResult k)
    then show ?thesis using e by (auto simp: bind_Some_iff Let_def split: if_splits astage.splits intro!: sent_stage)
  next
    case (VoteResult k d)
    then show ?thesis using e by (auto simp: Let_def case_prod_beta split: if_splits vstage.splits intro!: sent_same)
  qed (use e in \<open>auto simp: Let_def case_prod_beta bind_Some_iff split: if_splits intro!: sent_same\<close>)
  ultimately show ?thesis using a unfolding apart_def by auto
qed

text \<open>The five kinds of step, as far as logs, leaders and append requests are concerned.\<close>

lemma step_kinds:
  assumes inv: "net_inv n s" and e: "exec n s e = Some s'" and t: "timely s e" "in_range s e"
  obtains (quiet) "lead_kept n s s'" "logs_kept n s s'" "sent s' = sent s"
  | (win) i Q where "i < n" "rstate (srv s i) = candidate" "won s' = (i, currentTerm (srv s i), Q) # won s"
      "logs_kept n s s'" "sent s' = sent s" "rstate (srv s' i) = leader" "currentTerm (srv s' i) = currentTerm (srv s i)"
      "\<And>j. j \<noteq> i \<Longrightarrow> srv s' j = srv s j"
  | (send) i j args where "i < n" "rstate (srv s i) = leader" "RequestHeartBeat_args (srv s i) j = Some args"
      "1 \<le> nextIndex (srv s i) ! j" "srv s' = srv s" "won s' = won s" "sent s' = insert (i, j, args) (sent s)"
  | (append) i j args rf reply where "i < n" "(j, i, args) \<in> sent s" "args_wf args"
      "RequestAppendEntriesReply (srv s i) args = Some (rf, reply)"
      "srv s' = (srv s)(i := rf)" "won s' = won s" "sent s' = sent s"
  | (submit) i c where "i < n" "rstate (srv s i) = leader" "won s' = won s" "sent s' = sent s"
      "srv s' = (srv s)(i := (srv s i)\<lparr>rlog := rlog (srv s i) @ [\<lparr>Entry = Some c, LogTerm = currentTerm (srv s i)\<rparr>]\<rparr>)"
proof (cases e)
  case (Timeout k)
  with e show ?thesis by (intro quiet) (auto simp: lead_kept_def logs_kept_def sent_def startElection_def split: if_splits)
next
  case (Campaign k)
  with e show ?thesis by (intro quiet) (auto simp: lead_kept_def logs_kept_def sent_def Let_def split: if_splits)
next
  case (VoteRequest k d)
  with e show ?thesis
    by (intro quiet) (auto simp: lead_kept_def logs_kept_def sent_def Let_def RequestVoteReply_def resetElectionTimer_def split: if_splits)
next
  case (VoteResult k d)
  let ?r = "rounds s ! k" let ?i = "rd_owner ?r"
  obtain reply where g: "k < length (rounds s)" "d < n" "rd_calls ?r d = VHandled reply"
    using e VoteResult by (auto simp: Let_def split: if_splits vstage.splits)
  obtain rf vn win where h: "RequestVote_reply (srv s ?i) (rd_voteNum ?r) (rd_args ?r) reply = (rf, vn, win)"
    by (metis prod_cases3)
  have o: "?i < n" using calls_okD(2)[OF net_invD(2)[OF inv]] g(1) by (auto simp: round_ok_def)
  have s': "srv s' = (srv s)(?i := rf)" "sent s' = sent s"
      "if win then \<exists>Q. won s' = (?i, currentTerm rf, Q) # won s else won s' = won s"
    using e VoteResult g h by (auto simp: Let_def sent_def)
  show ?thesis
  proof (cases win)
    case True
    with s'(3) obtain Q where Q: "won s' = (?i, currentTerm rf, Q) # won s" by auto
    from h show ?thesis
    proof (cases rule: RequestVote_reply_cases)
      case elected
      then show ?thesis using o Q s'(1,2) by (intro win[of ?i Q]) (auto simp: logs_kept_def)
    qed (use True in simp_all)
  next
    case False
    then show ?thesis using h s' by (intro quiet) (auto simp: lead_kept_def logs_kept_def RequestVote_reply_def Let_def split: if_splits)
  qed
next
  case (Beat k)
  with e show ?thesis by (intro quiet) (auto simp: lead_kept_def logs_kept_def sent_def split: if_splits)
next
  case (Send k)
  then have k: "k < length (beats s)" using e by (auto split: if_splits)
  obtain i j where b: "beats s ! k = (i, j)" by force
  then have "i < n" using calls_okD(3)[OF net_invD(2)[OF inv], of "(i, j)"] k by (metis nth_mem fst_conv)
  with Send e t k b show ?thesis
    by (auto simp: bind_Some_iff sent_def intro!: send)
next
  case (Append k)
  let ?a = "acalls s ! k"
  obtain rf reply where h: "RequestAppendEntriesReply (srv s (a_dst ?a)) (a_args ?a) = Some (rf, reply)"
      "k < length (acalls s)"
      "s' = s\<lparr>srv := (srv s)(a_dst ?a := rf), acalls := (acalls s)[k := ?a\<lparr>a_stage := AHandled reply\<rparr>]\<rparr>"
    using e Append by (auto simp: Let_def bind_Some_iff split: if_splits)
  have "acall_ok n (won s) ?a" using calls_okD(4)[OF net_invD(2)[OF inv]] h(2) by simp
  moreover have "(a_src ?a, a_dst ?a, a_args ?a) \<in> sent s" using h(2) by (auto simp: sent_def)
  moreover have "sent s' = sent s" using h(3) by (intro sent_stage[OF h(2)]) simp
  ultimately show ?thesis using h by (intro append[OF _ _ _ h(1)]) (auto simp: acall_ok_def)
next
  case (AppendResult k)
  let ?a = "acalls s ! k"
  obtain rf reply where h: "RequestHeartBeat_reply (srv s (a_src ?a)) (a_dst ?a) (a_args ?a) reply = Some rf"
      "k < length (acalls s)"
      "s' = s\<lparr>srv := (srv s)(a_src ?a := rf), acalls := (acalls s)[k := ?a\<lparr>a_stage := ADone\<rparr>]\<rparr>"
    using e AppendResult by (auto simp: Let_def bind_Some_iff split: if_splits astage.splits)
  from h(1) have "rlog rf = rlog (srv s (a_src ?a))" "rstate rf = leader \<Longrightarrow> rstate (srv s (a_src ?a)) = leader \<and> currentTerm rf = currentTerm (srv s (a_src ?a))"
    by (auto elim!: RequestHeartBeat_reply_cases)
  then show ?thesis using h(2,3) by (intro quiet) (auto simp: lead_kept_def logs_kept_def intro!: sent_stage)
next
  case (Submit k c)
  with e show ?thesis by (intro quiet) (auto simp: lead_kept_def logs_kept_def sent_def GetState_def split: if_splits)
next
  case (SubmitAppend k)
  then have k: "k < length (starts s)" using e by (auto split: if_splits)
  obtain i T c where b: "starts s ! k = (i, T, c)" by (metis prod_cases3)
  then have "i < n" using calls_okD(5)[OF net_invD(2)[OF inv], of "(i, T, c)"] k by (metis nth_mem fst_conv)
  with SubmitAppend e t k b show ?thesis by (intro submit[of i c]) (auto simp: sent_def Start_append_def)
next
  case (Apply k)
  with e show ?thesis
    by (intro quiet) (auto simp: lead_kept_def logs_kept_def sent_def applier_step_def Let_def bind_Some_iff split: if_splits)
qed

section \<open>The invariant of logs\<close>

definition log_inv :: "nat \<Rightarrow> 'c sys \<Rightarrow> 'c ledger \<Rightarrow> bool" where
  "log_inv n s G \<longleftrightarrow> (\<forall>i<n. traced G (rlog (srv s i))) \<and> (\<forall>T g. G T = Some g \<longrightarrow> traced G g) \<and>
     (\<forall>T. G T \<noteq> None \<longleftrightarrow> (\<exists>L. has_won (won s) L T)) \<and>
     (\<forall>i<n. rstate (srv s i) = leader \<longrightarrow> G (currentTerm (srv s i)) = Some (rlog (srv s i))) \<and>
     (\<forall>i j args. (i, j, args) \<in> sent s \<longrightarrow> call_traced G args)"

lemma log_invD:
  assumes "log_inv n s G"
  shows "i < n \<Longrightarrow> traced G (rlog (srv s i))" "G T = Some g \<Longrightarrow> traced G g"
    "G T \<noteq> None \<longleftrightarrow> (\<exists>L. has_won (won s) L T)"
    "i < n \<Longrightarrow> rstate (srv s i) = leader \<Longrightarrow> G (currentTerm (srv s i)) = Some (rlog (srv s i))"
    "(i, j, args) \<in> sent s \<Longrightarrow> call_traced G args"
  using assms unfolding log_inv_def by blast+

lemma log_inv_start: "log_inv n (start_sys n) (\<lambda>_. None)"
  by (auto simp: log_inv_def start_sys_def traced_def sent_def has_won_def Make_def readPersist_def dummy_def)

lemma log_inv_quiet:
  assumes "log_inv n s G" "lead_kept n s s'" "logs_kept n s s'" "sent s' = sent s"
  shows "log_inv n s' G"
  using assms unfolding log_inv_def lead_kept_def logs_kept_def by simp

text \<open>The leader of a term gets a longer log, or is elected.\<close>

lemma log_inv_lead:
  assumes inv: "log_inv n s G" and g: "traced (G(T \<mapsto> g)) g" "grows G (G(T \<mapsto> g))"
    and w: "\<And>U. (\<exists>L. has_won (won s') L U) \<longleftrightarrow> U = T \<or> (\<exists>L. has_won (won s) L U)"
    and i: "\<And>j. j < n \<Longrightarrow> rlog (srv s' j) = rlog (srv s j) \<or> rlog (srv s' j) = g"
    and l: "\<And>j. j < n \<Longrightarrow> rstate (srv s' j) = leader \<Longrightarrow> currentTerm (srv s' j) = T \<and> rlog (srv s' j) = g \<or>
      currentTerm (srv s' j) \<noteq> T \<and> rstate (srv s j) = leader \<and> currentTerm (srv s' j) = currentTerm (srv s j) \<and>
        rlog (srv s' j) = rlog (srv s j)"
    and c: "sent s' = sent s"
  shows "log_inv n s' (G(T \<mapsto> g))"
  unfolding log_inv_def
proof (intro conjI allI impI)
  fix j assume j: "j < n"
  show "traced (G(T \<mapsto> g)) (rlog (srv s' j))" using i[OF j] traced_grows[OF log_invD(1)[OF inv j] g(2)] g(1) by auto
  show "rstate (srv s' j) = leader \<Longrightarrow> (G(T \<mapsto> g)) (currentTerm (srv s' j)) = Some (rlog (srv s' j))"
    using l[OF j] log_invD(4)[OF inv j] by auto
next
  fix U h assume "(G(T \<mapsto> g)) U = Some h"
  then show "traced (G(T \<mapsto> g)) h" using g(1) traced_grows[OF log_invD(2)[OF inv] g(2)] by (auto split: if_splits)
next
  fix U show "((G(T \<mapsto> g)) U \<noteq> None) = (\<exists>L. has_won (won s') L U)" using w[of U] log_invD(3)[OF inv, of U] by simp
next
  fix i j args assume "(i, j, args) \<in> sent s'"
  then show "call_traced (G(T \<mapsto> g)) args" using c call_traced_grows[OF log_invD(5)[OF inv] g(2)] by auto
qed

lemma grows_fresh: "G T = None \<Longrightarrow> grows G (G(T \<mapsto> g))"
  by (auto simp: grows_def)

lemma grows_snoc: "G T = Some g \<Longrightarrow> LogTerm e = T \<Longrightarrow> grows G (G(T \<mapsto> g @ [e]))"
  by (auto simp: grows_def)

lemma won_candidate:
  assumes "net_inv n s" "i < n" "rstate (srv s i) = candidate" "has_won (won s) L (currentTerm (srv s i))"
  shows "L \<noteq> i"
  using net_invD(1)[OF assms(1)] assms(3,4) unfolding core_ok_def by (auto simp: has_won_def dest: won_okD(4))

lemma won_once:
  assumes inv: "net_inv n s" and "has_won (won s) i T" "has_won (won s) j T"
  shows "i = j"
  using won_unique[of n "srv s" "votes s" "won s"] net_invD(1)[OF inv] assms(2,3) unfolding core_ok_def has_won_def by blast

lemma log_inv_win:
  assumes inv: "log_inv n s G" and net: "net_inv n s" "net_inv n s'"
    and w: "i < n" "rstate (srv s i) = candidate" "won s' = (i, currentTerm (srv s i), Q) # won s"
      "logs_kept n s s'" "sent s' = sent s" "rstate (srv s' i) = leader" "currentTerm (srv s' i) = currentTerm (srv s i)"
      "\<And>j. j \<noteq> i \<Longrightarrow> srv s' j = srv s j"
  shows "\<exists>G'. log_inv n s' G' \<and> grows G G'"
proof (intro exI conjI)
  let ?T = "currentTerm (srv s i)"
  have hw: "has_won (won s') L U \<longleftrightarrow> L = i \<and> U = ?T \<or> has_won (won s) L U" for L U by (auto simp: has_won_def w(3))
  have new: "\<not> has_won (won s) L ?T" for L
    using won_once[OF net(2), of i ?T L] won_candidate[OF net(1) w(1,2), of L] hw by blast
  then have "G ?T = None" using log_invD(3)[OF inv, of ?T] by auto
  then show gr: "grows G (G(?T \<mapsto> rlog (srv s i)))" by (rule grows_fresh)
  have "rlog (srv s' j) = rlog (srv s j)" if "j < n" for j using w(4) that by (simp add: logs_kept_def)
  moreover have "currentTerm (srv s j) \<noteq> ?T" if "j < n" "rstate (srv s j) = leader" for j
    using net_invD(6)[OF net(1) that] new by metis
  ultimately show "log_inv n s' (G(?T \<mapsto> rlog (srv s i)))"
    by (intro log_inv_lead[OF inv traced_grows[OF log_invD(1)[OF inv w(1)] gr] gr _ _ _ w(5)])
      (use w hw in \<open>auto, metis+\<close>)
qed

lemma log_inv_submit:
  assumes inv: "log_inv n s G" and net: "net_inv n s"
    and w: "i < n" "rstate (srv s i) = leader" "won s' = won s" "sent s' = sent s"
      "srv s' = (srv s)(i := (srv s i)\<lparr>rlog := rlog (srv s i) @ [e]\<rparr>)" "LogTerm e = currentTerm (srv s i)"
  shows "\<exists>G'. log_inv n s' G' \<and> grows G G'"
proof (intro exI conjI)
  let ?T = "currentTerm (srv s i)"
  note g = log_invD(4)[OF inv w(1,2)]
  show gr: "grows G (G(?T \<mapsto> rlog (srv s i) @ [e]))" by (rule grows_snoc[where G = G, OF g w(6)])
  have "traced (G(?T \<mapsto> rlog (srv s i) @ [e])) (rlog (srv s i) @ [e])"
    by (rule traced_snoc[OF traced_grows[OF log_invD(1)[OF inv w(1)] gr]]) (simp add: w(6))
  moreover have "j = i" if "j < n" "rstate (srv s j) = leader" "currentTerm (srv s j) = ?T" for j
    using won_once[OF net, of j ?T i] net_invD(6)[OF net that(1,2)] net_invD(6)[OF net w(1,2)] that(3) by simp
  moreover have "\<exists>L. has_won (won s) L ?T" using net_invD(6)[OF net w(1,2)] by blast
  ultimately show "log_inv n s' (G(?T \<mapsto> rlog (srv s i) @ [e]))"
    by (intro log_inv_lead[OF inv _ gr]) (use w in \<open>auto split: if_splits\<close>)
qed

lemma heartbeat_traced:
  assumes g: "G (currentTerm rf) = Some (rlog rf)" and a: "RequestHeartBeat_args rf j = Some args" "1 \<le> nextIndex rf ! j"
    and ne: "rlog rf \<noteq> []"
  shows "call_traced G args"
proof -
  have *: "\<exists>m. m \<le> length (rlog rf) \<and> nat (ae_PrevLogIndex args) < m \<and>
      ae_Entries args = drop (Suc (nat (ae_PrevLogIndex args))) (take m (rlog rf)) \<and>
      (nat (ae_PrevLogIndex args) \<noteq> 0 \<longrightarrow> LogTerm (rlog rf ! nat (ae_PrevLogIndex args)) = ae_PrevLogTerm args) \<and> ae_Term args = currentTerm rf"
    using a ne by (intro exI[of _ "length (rlog rf)"])
      (auto simp: RequestHeartBeat_args_def Let_def bind_Some_iff slice_simps nat_diff_distrib Suc_nat_eq_nat_zadd1 split: if_splits)
  with g show ?thesis unfolding call_traced_def Let_def by auto
qed

lemma log_inv_send:
  assumes inv: "log_inv n s G" and w: "i < n" "rstate (srv s i) = leader" "RequestHeartBeat_args (srv s i) j = Some args"
      "1 \<le> nextIndex (srv s i) ! j" "srv s' = srv s" "won s' = won s" "sent s' = insert (i, j, args) (sent s)"
  shows "log_inv n s' G"
  using inv heartbeat_traced[where G = G, OF log_invD(4)[OF inv w(1,2)] w(3,4) tracedD(1)[OF log_invD(1)[OF inv w(1)]]] w(5-7)
  unfolding log_inv_def by auto

text \<open>An append request leaves the old log or a prefix of the log of its leader.\<close>

lemma append_result:
  assumes t: "traced G (rlog rf)" "call_traced G args" "\<And>g. G (ae_Term args) = Some g \<Longrightarrow> traced G g" and a: "args_wf args"
    and r: "RequestAppendEntriesReply rf args = Some (rf', reply)"
  shows "rlog rf' = rlog rf \<or> (\<exists>g m. G (ae_Term args) = Some g \<and> 0 < m \<and> rlog rf' = take m g)"
  using r a
proof (cases rule: RequestAppendEntriesReply_cases)
  case (appended lg)
  let ?p = "nat (ae_PrevLogIndex args)"
  obtain g m where g: "G (ae_Term args) = Some g" "m \<le> length g" "?p < m" "ae_Entries args = drop (Suc ?p) (take m g)"
      "?p \<noteq> 0 \<longrightarrow> LogTerm (g ! ?p) = ae_PrevLogTerm args"
    using t(2) unfolding call_traced_def Let_def by blast
  have p: "?p < length (rlog rf) \<and> LogTerm (rlog rf ! ?p) = LogTerm (g ! ?p)"
  proof (cases "?p = 0")
    case True
    then show ?thesis using tracedD(1,2)[OF t(1)] tracedD(2)[OF t(3)[OF g(1)]] by simp
  next
    case False
    then show ?thesis using appended(3) g(5) by (auto simp: entry_matches_def)
  qed
  then have "rlog rf' \<in> {rlog rf, take m g}"
    using append_entries_traced[OF t(1) t(3)[OF g(1)] g(3,2)] appended(4,5) g(4) by simp
  moreover have "0 < m" using g(3) by simp
  ultimately show ?thesis using g(1) by blast
qed simp_all

lemma log_inv_append:
  assumes inv: "log_inv n s G" and w: "i < n" "(j, i, args) \<in> sent s" "args_wf args"
      "RequestAppendEntriesReply (srv s i) args = Some (rf, reply)"
      "srv s' = (srv s)(i := rf)" "won s' = won s" "sent s' = sent s"
  shows "log_inv n s' G"
proof -
  have "traced G (rlog rf)"
    using append_result[OF log_invD(1)[OF inv w(1)] log_invD(5)[OF inv w(2)] log_invD(2)[OF inv, of "ae_Term args"] w(3,4)]
      log_invD(1)[OF inv w(1)] log_invD(2)[OF inv, of "ae_Term args"] traced_take[of G] by auto
  moreover have "rstate rf = leader \<Longrightarrow> rf = srv s i"
    using w(4,3) by (cases rule: RequestAppendEntriesReply_cases) auto
  ultimately show ?thesis using inv w(5-7) unfolding log_inv_def by auto
qed

lemma log_inv_step:
  assumes inv: "log_inv n s G" and net: "net_inv n s" and t: "timely s e" "in_range s e" and e: "exec n s e = Some s'"
  shows "\<exists>G'. log_inv n s' G' \<and> grows G G'"
  using net e t
proof (cases rule: step_kinds)
  case quiet
  with log_inv_quiet[OF inv] grows_refl show ?thesis by blast
next
  case (win i Q)
  with log_inv_win[OF inv net net_inv_step[OF net t(1) e]] show ?thesis by blast
next
  case (send i j args)
  with log_inv_send[OF inv] grows_refl show ?thesis by blast
next
  case (append i j args rf reply)
  with log_inv_append[OF inv] grows_refl show ?thesis by blast
next
  case (submit i c)
  from log_inv_submit[OF inv net submit] show ?thesis by auto
qed

lemma orderly_log_inv:
  assumes "orderly n s"
  shows "\<exists>G. log_inv n s G"
  using assms
proof (induction rule: orderly.induct)
  case orderly_start
  show ?case using log_inv_start by blast
next
  case (orderly_step s e s')
  then show ?case using log_inv_step reachable_inv[OF orderly_reachable] by blast
qed

section \<open>Log matching\<close>

text \<open>
  \<^bold>\<open>C5\<close>. Log matching: in every state of an orderly run (timely steps, heartbeats only from a nextIndex of
  at least one), if the logs of two peers have an entry of the same term at an index, they are equal
  up to and including that index.
\<close>

theorem log_matching:
  assumes "orderly n s" "i < n" "j < n" "k < length (rlog (srv s i))" "k < length (rlog (srv s j))"
    and "LogTerm (rlog (srv s i) ! k) = LogTerm (rlog (srv s j) ! k)"
  shows "take (Suc k) (rlog (srv s i)) = take (Suc k) (rlog (srv s j))"
  using orderly_log_inv[OF assms(1)] log_invD(1) traced_agree assms(2-6) by metis

fun orderly_run :: "nat \<Rightarrow> 'c sys \<Rightarrow> 'c ev list \<Rightarrow> bool" where
  "orderly_run n s [] = True"
| "orderly_run n s (e # es) = (timely s e \<and> in_range s e \<and> (case exec n s e of None \<Rightarrow> False | Some s' \<Rightarrow> orderly_run n s' es))"

lemma run_orderly:
  "orderly n s \<Longrightarrow> orderly_run n s es \<Longrightarrow> \<exists>s'. run_sys n s es = Some s' \<and> orderly n s'"
proof (induction es arbitrary: s)
  case (Cons e es)
  then obtain s1 where "exec n s e = Some s1" "timely s e" "in_range s e" "orderly_run n s1 es" by (auto split: option.splits)
  with Cons.IH[of s1] Cons.prems(1) orderly_step show ?case by fastforce
qed simp

text \<open>Peer 0 is elected, takes a command and replicates it to peer 1.\<close>

definition first_command :: "nat ev list" where
  "first_command = first_election @ [Submit 0 7, SubmitAppend 0, Send 2, Append 0, AppendResult 0]"

lemma first_command_run:
  "orderly_run 3 (start_sys 3) first_command"
  "map_option (\<lambda>s. map (\<lambda>i. rlog (srv s i)) [0, 1]) (run_sys 3 (start_sys 3) first_command) =
     Some [[dummy, \<lparr>Entry = Some 7, LogTerm = 1\<rparr>], [dummy, \<lparr>Entry = Some 7, LogTerm = 1\<rparr>]]"
  unfolding first_command_def first_election_def by code_simp+

theorem log_matching_witness:
  "\<exists>s :: nat sys. orderly 3 s \<and> length (rlog (srv s 0)) = 2 \<and> take 2 (rlog (srv s 0)) = take 2 (rlog (srv s 1))"
proof -
  obtain s :: "nat sys" where s: "run_sys 3 (start_sys 3) first_command = Some s" "orderly 3 s"
    using run_orderly[OF orderly_start first_command_run(1)] by blast
  then have l: "rlog (srv s 0) = [dummy, \<lparr>Entry = Some 7, LogTerm = 1\<rparr>]" "rlog (srv s 1) = [dummy, \<lparr>Entry = Some 7, LogTerm = 1\<rparr>]"
    using first_command_run(2) by simp_all
  from log_matching[OF s(2), of 0 1 1] l s(2) show ?thesis by (auto simp: numeral_2_eq_2)
qed

text \<open>
  \<^bold>\<open>C23\<close>. A leader never overwrites or deletes entries: in an orderly run (timely steps, heartbeats only
  from a nextIndex of at least one), a further step of that kind that leaves it the leader keeps its
  log as a prefix.
\<close>

theorem leader_append_only:
  assumes "orderly n s" "timely s e" "in_range s e" "exec n s e = Some s'"
    and "i < n" "rstate (srv s i) = leader" "rstate (srv s' i) = leader"
  shows "take (length (rlog (srv s i))) (rlog (srv s' i)) = rlog (srv s i)"
  using reachable_inv[OF orderly_reachable[OF assms(1)]] assms(4,2,3)
proof (cases rule: step_kinds)
  case (append k j args rf reply)
  have "rstate rf = leader \<Longrightarrow> rf = srv s k"
    using append(4,3) by (cases rule: RequestAppendEntriesReply_cases) auto
  with append(5) assms(7) show ?thesis by (cases "k = i") auto
qed (use assms(5) in \<open>auto simp: logs_kept_def\<close>)

theorem leader_append_only_witness:
  "\<exists>s s' :: nat sys. orderly 3 s \<and> exec 3 s (SubmitAppend 0) = Some s' \<and> rstate (srv s 0) = leader \<and>
     take (length (rlog (srv s 0))) (rlog (srv s' 0)) = rlog (srv s 0)"
proof -
  have r: "orderly_run 3 (start_sys 3) (first_election @ [Submit 0 (7 :: nat)])"
      "map_option (\<lambda>s. (rstate (srv s 0), currentTerm (srv s 0), map_option (\<lambda>s. rstate (srv s 0)) (exec 3 s (SubmitAppend 0)), starts s))
        (run_sys 3 (start_sys 3) (first_election @ [Submit 0 (7 :: nat)])) = Some (leader, 1, Some leader, [(0, 1, 7)])"
    unfolding first_election_def by code_simp+
  obtain s :: "nat sys" where s: "run_sys 3 (start_sys 3) (first_election @ [Submit 0 7]) = Some s" "orderly 3 s"
    using run_orderly[OF orderly_start r(1)] by blast
  with r(2) have l: "rstate (srv s 0) = leader" "currentTerm (srv s 0) = 1" "starts s = [(0, 1, 7)]"
    and "map_option (\<lambda>s. rstate (srv s 0)) (exec 3 s (SubmitAppend 0)) = Some leader" by (simp_all only: option.map option.inject prod.inject)
  then obtain s' where s': "exec 3 s (SubmitAppend 0) = Some s'" "rstate (srv s' 0) = leader" by blast
  have "timely s (SubmitAppend 0)" using l by simp
  from leader_append_only[OF s(2) this _ s'(1) _ l(1) s'(2)] s(2) s'(1) l(1) show ?thesis by auto
qed

end
