(* ===== verification/Raft_Commit.thy ===== *)
theory Raft_Commit
  imports Raft_Log
begin

text \<open>
  Commitment in the system of \<open>Raft_Net\<close>: which runs are proper, what it means that an entry is
  acknowledged and committed, and the invariant of the peers of \<^verbatim>\<open>raft/raft.go\<close> from which leader
  completeness follows.  Beside the ledger of \<open>Raft_Log\<close> the invariant carries the set of
  acknowledgements: \<open>(v, T, k)\<close> says that peer \<open>v\<close> has held the entry of term \<open>T\<close> at index \<open>k\<close> while it
  was in term \<open>T\<close>.
\<close>

section \<open>Proper runs\<close>

text \<open>
  A new leader keeps the \<^verbatim>\<open>matchIndex\<close> of an earlier leadership; the end of \<open>Raft_Safety\<close> shows
  what can follow.  A step is fresh when it does not elect a peer with such values left over.
\<close>

fun fresh :: "'c sys \<Rightarrow> 'c ev \<Rightarrow> bool" where
  "fresh s (VoteResult k d) =
    (let r = rounds s ! k; rf = srv s (rd_owner r) in
     case rd_calls r d of
       VHandled reply \<Rightarrow> \<not> snd (snd (RequestVote_reply rf (rd_voteNum r) (rd_args r) reply)) \<or> list_all (\<lambda>m. m = 0) (matchIndex rf)
     | _ \<Rightarrow> True)"
| "fresh s e = True"

definition proper :: "'c sys \<Rightarrow> 'c ev \<Rightarrow> bool" where
  "proper s e \<longleftrightarrow> timely s e \<and> in_range s e \<and> fresh s e"

inductive steps :: "nat \<Rightarrow> 'c sys \<Rightarrow> 'c sys \<Rightarrow> bool" for n s where
  steps_refl: "steps n s s"
| steps_next: "steps n s s' \<Longrightarrow> proper s' e \<Longrightarrow> exec n s' e = Some s'' \<Longrightarrow> steps n s s''"

section \<open>Entries\<close>

definition has :: "'c Log list \<Rightarrow> nat \<Rightarrow> int \<Rightarrow> bool" where
  "has lg k T \<longleftrightarrow> 0 < k \<and> k < length lg \<and> LogTerm (lg ! k) = T"

definition missed :: "'c ledger \<Rightarrow> nat \<Rightarrow> int \<Rightarrow> int \<Rightarrow> bool" where
  "missed G k T hi \<longleftrightarrow> (\<exists>U g. T < U \<and> U \<le> hi \<and> G U = Some g \<and> \<not> has g k T)"

lemma missedI: "T < U \<Longrightarrow> U \<le> hi \<Longrightarrow> G U = Some g \<Longrightarrow> \<not> has g k T \<Longrightarrow> missed G k T hi"
  unfolding missed_def by blast

lemma has_append: "has g k T \<Longrightarrow> has (g @ h) k T"
  by (auto simp: has_def nth_append)

lemma has_append_other: "\<not> has g k T \<Longrightarrow> \<forall>e\<in>set h. LogTerm e \<noteq> T \<Longrightarrow> \<not> has (g @ h) k T"
  by (auto simp: has_def nth_append dest: bspec[where x = "h ! (k - length g)"])

lemma has_grows:
  assumes "grows G G'" "G U = Some g" "has g k T"
  shows "\<exists>g'. G' U = Some g' \<and> has g' k T"
proof -
  obtain h where "G' U = Some (g @ h)" using assms(1,2) unfolding grows_def by blast
  with has_append[OF assms(3)] show ?thesis by blast
qed

lemma missed_grows:
  assumes "missed G k T hi" "grows G G'" "hi \<le> hi'"
  shows "missed G' k T hi'"
proof -
  obtain U g where U: "T < U" "U \<le> hi" "G U = Some g" "\<not> has g k T" using assms(1) unfolding missed_def by blast
  obtain h where h: "G' U = Some (g @ h)" "\<forall>e\<in>set h. LogTerm e = U" using assms(2) U(3) unfolding grows_def by blast
  have "\<not> has (g @ h) k T" using has_append_other[OF U(4)] h(2) U(1) by auto
  with U h(1) assms(3) show ?thesis by (intro missedI[of T U hi' G' "g @ h"]) auto
qed

lemma has_take: "take (Suc m) a = take (Suc m) b \<Longrightarrow> k \<le> m \<Longrightarrow> has a k T \<Longrightarrow> has b k T"
  unfolding has_def by (metis le_imp_less_Suc length_take min_less_iff_conj nth_take)

lemma has_traced:
  assumes "traced G lg" "has lg k T"
  shows "\<exists>g. G T = Some g \<and> has g k T \<and> take (Suc k) g = take (Suc k) lg"
proof -
  from assms(2) have k: "0 < k" "k < length lg" "LogTerm (lg ! k) = T" by (auto simp: has_def)
  from tracedD(4)[OF assms(1) k(1,2)] obtain g where g: "G T = Some g" "k < length g" "take (Suc k) g = take (Suc k) lg"
    using k(3) by auto
  from has_take[OF g(3)[symmetric] order_refl assms(2)] g show ?thesis by blast
qed

lemma has_agree:
  assumes "traced G a" "traced G b" "has a k T" "has b k T"
  shows "take (Suc k) a = take (Suc k) b"
  using traced_agree[OF assms(1,2)] assms(3,4) by (auto simp: has_def)

text \<open>An append request keeps what the log shares with the log of the leader, and adds what was sent.\<close>

lemma append_entries_keeps:
  assumes lg: "traced G lg" and g: "traced G g" and m: "prev < m" "m \<le> length g"
    and p: "prev < length lg" "LogTerm (lg ! prev) = LogTerm (g ! prev)"
  shows "has lg k T \<Longrightarrow> has g k T \<Longrightarrow> has (append_entries lg prev (drop (Suc prev) (take m g))) k T"
    and "take m (append_entries lg prev (drop (Suc prev) (take m g))) = take m g"
proof -
  let ?es = "drop (Suc prev) (take m g)"
  show "take m (append_entries lg prev ?es) = take m g"
  proof (cases "append_entries lg prev ?es = take m g")
    case False
    then have e: "append_entries lg prev ?es = lg" using append_entries_traced[OF lg g m p] by simp
    have l: "m \<le> length lg" using append_entries_length[OF p(1), of ?es] m e by simp
    have "LogTerm (lg ! (m - 1)) = LogTerm (g ! (m - 1))"
    proof (cases "m - 1 = prev")
      case False
      then have x: "m - 1 = prev + 1 + (m - 2 - prev)" "m - 2 - prev < length ?es" using m by auto
      have "LogTerm (lg ! (prev + 1 + (m - 2 - prev))) = LogTerm (?es ! (m - 2 - prev))"
        using append_entries_terms[OF p(1) x(2)] e by simp
      also have "?es ! (m - 2 - prev) = g ! (m - 1)" using x m by simp
      finally show ?thesis using x(1) by simp
    qed (use p in simp)
    then have "take (Suc (m - 1)) lg = take (Suc (m - 1)) g" using l m by (intro traced_agree[OF lg g]) auto
    with e m show ?thesis by simp
  qed simp
  show "has (append_entries lg prev ?es) k T" if h: "has lg k T" "has g k T"
    using p(1)
  proof (cases rule: append_entries_cases[of prev lg ?es])
    case (extended x)
    have "k < prev + 1 + x"
    proof (rule ccontr)
      assume "\<not> k < prev + 1 + x"
      then have k: "prev + 1 + x \<le> k" by simp
      have "take (Suc k) lg = take (Suc k) g" by (rule has_agree[OF lg g h])
      then have "lg ! (prev + 1 + x) = g ! (prev + 1 + x)" using k by (metis le_imp_less_Suc nth_take)
      moreover have "?es ! x = g ! (prev + 1 + x)" using extended(1) m by simp
      moreover have "prev + 1 + x < length lg" using k h(1) by (simp add: has_def)
      ultimately show False using extended(5) by simp
    qed
    then show ?thesis using extended(2,4) h(1) by (simp add: has_def nth_append)
  qed (use h in simp)
qed

section \<open>The invariant\<close>

definition tidy :: "int \<Rightarrow> 'c Log list \<Rightarrow> bool" where
  "tidy T lg \<longleftrightarrow> sorted (map LogTerm lg) \<and> (\<forall>e\<in>set lg. LogTerm e \<le> T)"

definition tidy_inv :: "nat \<Rightarrow> 'c sys \<Rightarrow> 'c ledger \<Rightarrow> bool" where
  "tidy_inv n s G \<longleftrightarrow> (\<forall>T g. G T = Some g \<longrightarrow> tidy T g) \<and> (\<forall>i<n. tidy (currentTerm (srv s i)) (rlog (srv s i))) \<and>
     (\<forall>i<n. rstate (srv s i) = candidate \<longrightarrow> (\<forall>e\<in>set (rlog (srv s i)). LogTerm e < currentTerm (srv s i))) \<and>
     (\<forall>i<n. has_won (won s) i (currentTerm (srv s i)) \<longrightarrow> rstate (srv s i) = leader)"

text \<open>What is acknowledged now, and what the acknowledgements are worth: unless the leader of a later term misses the entry, it is still there.\<close>

definition now :: "nat \<Rightarrow> 'c sys \<Rightarrow> (nat \<times> int \<times> nat) set" where
  "now n s = {(v, T, k). v < n \<and> T = currentTerm (srv s v) \<and> has (rlog (srv s v)) k T}"

definition ack_inv :: "nat \<Rightarrow> 'c sys \<Rightarrow> 'c ledger \<Rightarrow> (nat \<times> int \<times> nat) set \<Rightarrow> bool" where
  "ack_inv n s G A \<longleftrightarrow> now n s \<subseteq> A \<and> (\<forall>v T k. (v, T, k) \<in> A \<longrightarrow> v < n \<and> T \<le> currentTerm (srv s v) \<and>
     (\<exists>g. G T = Some g \<and> has g k T) \<and> (has (rlog (srv s v)) k T \<or> missed G k T (currentTerm (srv s v))))"

text \<open>Elections: who may still win a term, and who has won one, holds what its voters had acknowledged.\<close>

definition running :: "'c sys \<Rightarrow> nat \<Rightarrow> int \<Rightarrow> bool" where
  "running s c T \<longleftrightarrow> rstate (srv s c) = candidate \<and> currentTerm (srv s c) = T"

definition vote_inv :: "nat \<Rightarrow> 'c sys \<Rightarrow> 'c ledger \<Rightarrow> (nat \<times> int \<times> nat) set \<Rightarrow> bool" where
  "vote_inv n s G A \<longleftrightarrow> (\<forall>v U c. (v, U, c) \<in> set (votes s) \<longrightarrow> U \<le> currentTerm (srv s c)) \<and>
     (\<forall>r\<in>set (rounds s). rv_Term (rd_args r) \<le> currentTerm (srv s (rd_owner r)) \<and>
        (running s (rd_owner r) (rv_Term (rd_args r)) \<longrightarrow> rd_args r = RequestVote_args (srv s (rd_owner r)))) \<and>
     (\<forall>v U c T k. (v, U, c) \<in> set (votes s) \<longrightarrow> running s c U \<longrightarrow> G U = None \<longrightarrow> (v, T, k) \<in> A \<longrightarrow> T < U \<longrightarrow>
        has (rlog (srv s c)) k T \<or> missed G k T (U - 1))"

definition won_inv :: "'c sys \<Rightarrow> 'c ledger \<Rightarrow> (nat \<times> int \<times> nat) set \<Rightarrow> bool" where
  "won_inv s G A \<longleftrightarrow> (\<forall>L U Q v T k. (L, U, Q) \<in> set (won s) \<longrightarrow> v \<in> set Q \<longrightarrow> (v, T, k) \<in> A \<longrightarrow> T < U \<longrightarrow>
     (\<exists>g. G U = Some g \<and> has g k T) \<or> missed G k T (U - 1))"

text \<open>Replication: what a leader counts has been acknowledged.\<close>

definition acked :: "(nat \<times> int \<times> nat) set \<Rightarrow> nat \<Rightarrow> int \<Rightarrow> 'c Log list \<Rightarrow> int \<Rightarrow> bool" where
  "acked A j T lg m \<longleftrightarrow> m < int (length lg) \<and> (\<forall>k. int k \<le> m \<longrightarrow> has lg k T \<longrightarrow> (j, T, k) \<in> A)"

definition match_inv :: "nat \<Rightarrow> 'c sys \<Rightarrow> 'c ledger \<Rightarrow> (nat \<times> int \<times> nat) set \<Rightarrow> bool" where
  "match_inv n s G A \<longleftrightarrow> (\<forall>i<n. \<forall>j<n. rstate (srv s i) = leader \<longrightarrow>
       acked A j (currentTerm (srv s i)) (rlog (srv s i)) (matchIndex (srv s i) ! j)) \<and>
     (\<forall>a\<in>set (acalls s). \<forall>reply. a_stage a = AHandled reply \<longrightarrow> aer_Success reply \<longrightarrow>
       (\<exists>g. G (ae_Term (a_args a)) = Some g \<and>
         acked A (a_dst a) (ae_Term (a_args a)) g (ae_PrevLogIndex (a_args a) + int (length (ae_Entries (a_args a))))))"

definition committed :: "nat \<Rightarrow> (nat \<times> int \<times> nat) set \<Rightarrow> int \<Rightarrow> nat \<Rightarrow> bool" where
  "committed n A T k \<longleftrightarrow> (\<exists>Q. majority n Q \<and> (\<forall>v\<in>Q. (v, T, k) \<in> A))"

text \<open>The log up to an index is part of what a committed entry of a term up to \<open>B\<close> stands on.\<close>

definition settled :: "nat \<Rightarrow> 'c ledger \<Rightarrow> (nat \<times> int \<times> nat) set \<Rightarrow> int \<Rightarrow> 'c Log list \<Rightarrow> int \<Rightarrow> bool" where
  "settled n G A B lg c \<longleftrightarrow> 0 \<le> c \<and> c < int (length lg) \<and> (c = 0 \<or> (\<exists>T k g. T \<le> B \<and> committed n A T k \<and> c \<le> int k \<and> G T = Some g \<and> has g k T \<and>
     take (Suc (nat c)) lg = take (Suc (nat c)) g))"

definition commit_inv :: "nat \<Rightarrow> 'c sys \<Rightarrow> 'c ledger \<Rightarrow> (nat \<times> int \<times> nat) set \<Rightarrow> bool" where
  "commit_inv n s G A \<longleftrightarrow> (\<forall>i<n. settled n G A (currentTerm (srv s i)) (rlog (srv s i)) (commitIndex (srv s i))) \<and>
     (\<forall>i j args. (i, j, args) \<in> sent s \<longrightarrow> ae_LeaderCommit args \<le> ae_PrevLogIndex args + int (length (ae_Entries args)) \<and>
       (\<exists>g. G (ae_Term args) = Some g \<and> settled n G A (ae_Term args) g (ae_LeaderCommit args)))"

definition safe_inv :: "nat \<Rightarrow> 'c sys \<Rightarrow> 'c ledger \<Rightarrow> (nat \<times> int \<times> nat) set \<Rightarrow> bool" where
  "safe_inv n s G A \<longleftrightarrow> net_inv n s \<and> apart s \<and> log_inv n s G \<and> tidy_inv n s G \<and> ack_inv n s G A \<and> vote_inv n s G A \<and>
     won_inv s G A \<and> match_inv n s G A \<and> commit_inv n s G A"

lemma safe_invD:
  assumes "safe_inv n s G A"
  shows "net_inv n s" "apart s" "log_inv n s G" "tidy_inv n s G" "ack_inv n s G A" "vote_inv n s G A" "won_inv s G A"
    "match_inv n s G A" "commit_inv n s G A"
  using assms by (simp_all add: safe_inv_def)

lemma ack_invD:
  assumes "ack_inv n s G A" "(v, T, k) \<in> A"
  shows "v < n" "T \<le> currentTerm (srv s v)" "\<exists>g. G T = Some g \<and> has g k T"
    "has (rlog (srv s v)) k T \<or> missed G k T (currentTerm (srv s v))"
  using assms unfolding ack_inv_def by blast+

text \<open>Leader completeness: the leader of a later term has every committed entry.\<close>

lemma leader_completeness:
  assumes inv: "safe_inv n s G A" and c: "committed n A T k" and g: "G U = Some g" "T < U"
  shows "has g k T"
  using g
proof (induction "nat (U - T)" arbitrary: U g rule: less_induct)
  case less
  obtain Q where Q: "majority n Q" "\<forall>v\<in>Q. (v, T, k) \<in> A" using c unfolding committed_def by blast
  obtain L R where R: "(L, U, R) \<in> set (won s)"
    using log_invD(3)[OF safe_invD(3)[OF inv], of U] less.prems(1) by (auto simp: has_won_def)
  have "majority n (set R)" using net_invD(1)[OF safe_invD(1)[OF inv]] R unfolding core_ok_def by (auto dest: won_okD(2))
  from majority.intersect[OF Q(1) this] obtain v where v: "v \<in> Q" "v \<in> set R" by blast
  from safe_invD(7)[OF inv] R v Q(2) less.prems(2) have "(\<exists>g. G U = Some g \<and> has g k T) \<or> missed G k T (U - 1)"
    unfolding won_inv_def by blast
  moreover have "\<not> missed G k T (U - 1)"
  proof
    assume "missed G k T (U - 1)"
    then obtain W h where "T < W" "W \<le> U - 1" "G W = Some h" "\<not> has h k T" unfolding missed_def by blast
    with less.hyps[of W h] show False by simp
  qed
  ultimately show ?case using less.prems(1) by auto
qed

lemma committed_ledger:
  assumes inv: "safe_inv n s G A" and c: "committed n A T k" and g: "G T = Some g" "G U = Some h" "T \<le> U"
  shows "take (Suc k) g = take (Suc k) h"
proof (cases "T = U")
  case False
  then have "has h k T" using leader_completeness[OF inv c g(2)] g(3) by simp
  from has_traced[OF log_invD(2)[OF safe_invD(3)[OF inv] g(2)] this] g(1) show ?thesis by auto
qed (use g in simp)

lemma take_le: "take b x = take b y \<Longrightarrow> a \<le> b \<Longrightarrow> take a x = take a y"
  by (metis min_absorb1 take_take)

lemma settled_agree:
  assumes inv: "safe_inv n s G A" and t: "traced G a" "traced G b"
    and s: "settled n G A B a c" "settled n G A C b c"
  shows "take (Suc (nat c)) a = take (Suc (nat c)) b"
proof (cases "c = 0")
  case True
  then show ?thesis using tracedD(3)[OF t(1)] tracedD(3)[OF t(2)] by simp
next
  case False
  obtain T k g where 1: "committed n A T k" "c \<le> int k" "G T = Some g" "take (Suc (nat c)) a = take (Suc (nat c)) g"
    using s(1) False unfolding settled_def by blast
  obtain U l h where 2: "committed n A U l" "c \<le> int l" "G U = Some h" "take (Suc (nat c)) b = take (Suc (nat c)) h"
    using s(2) False unfolding settled_def by blast
  have "take (Suc (nat c)) g = take (Suc (nat c)) h"
  proof (cases "T \<le> U")
    case True
    show ?thesis by (rule take_le[OF committed_ledger[OF inv 1(1,3) 2(3) True]]) (use 1(2) in simp)
  next
    case False
    then have "take (Suc l) h = take (Suc l) g" by (intro committed_ledger[OF inv 2(1,3) 1(3)]) simp
    then show ?thesis using 2(2) by (auto dest: take_le[of "Suc l" h g "Suc (nat c)"])
  qed
  with 1(4) 2(4) show ?thesis by simp
qed

text \<open>The leader of a term that is not older holds what is settled.\<close>

lemma settled_in_leader:
  assumes inv: "safe_inv n s G A" and s: "settled n G A U lg (int k)" and g: "G U = Some h" and t: "traced G lg" "traced G h"
  shows "k < length h \<and> take (Suc k) h = take (Suc k) lg"
proof (cases "k = 0")
  case True
  then show ?thesis using tracedD(1,3)[OF t(1)] tracedD(1,3)[OF t(2)] by simp
next
  case False
  then obtain T l g' where 1: "T \<le> U" "committed n A T l" "k \<le> l" "G T = Some g'" "has g' l T" "take (Suc k) lg = take (Suc k) g'"
    using s unfolding settled_def by auto
  have e: "take (Suc l) g' = take (Suc l) h" by (rule committed_ledger[OF inv 1(2,4) g 1(1)])
  then have "take (Suc k) g' = take (Suc k) h" using 1(3) by (intro take_le[OF e]) simp
  moreover have "k < length h" using has_take[OF e order_refl 1(5)] 1(3) by (simp add: has_def)
  ultimately show ?thesis using 1(6) by simp
qed

lemma settled_le:
  assumes "settled n G A B lg c" "0 \<le> d" "d \<le> c"
  shows "settled n G A B lg d"
proof (cases "d = 0")
  case True
  then show ?thesis using assms by (auto simp: settled_def)
next
  case False
  then have "c \<noteq> 0" using assms(2,3) by simp
  then obtain T k g where 1: "committed n A T k" "c \<le> int k" "G T = Some g" "has g k T" "take (Suc (nat c)) lg = take (Suc (nat c)) g" "T \<le> B"
    using assms(1) unfolding settled_def by blast
  have "take (Suc (nat d)) lg = take (Suc (nat d)) g" by (rule take_le[OF 1(5)]) (use assms(3) in simp)
  moreover have "d < int (length lg)" using assms(1,3) by (simp add: settled_def)
  moreover have "d \<le> int k" using 1(2) assms(3) by simp
  ultimately show ?thesis using 1(1,3,4,6) assms(2) unfolding settled_def by blast
qed

lemma settled_transfer:
  assumes "settled n G A B lg c" "take (Suc (nat c)) lg = take (Suc (nat c)) lg'"
  shows "settled n G A B lg' c"
proof -
  have "c < int (length lg')" using assms unfolding settled_def by (metis (no_types, lifting) length_take min_less_iff_conj nat_less_iff lessI)
  with assms show ?thesis unfolding settled_def by simp
qed

lemma settled_mono:
  assumes "settled n G A B lg c" "grows G G'" "A \<subseteq> A'" "B \<le> B'"
  shows "settled n G' A' B' lg c"
proof (cases "c = 0")
  case False
  then obtain T k g where 1: "committed n A T k" "c \<le> int k" "G T = Some g" "has g k T" "take (Suc (nat c)) lg = take (Suc (nat c)) g" "T \<le> B"
    and c: "0 \<le> c" "c < int (length lg)" using assms(1) unfolding settled_def by blast
  obtain h where h: "G' T = Some (g @ h)" using assms(2) 1(3) unfolding grows_def by blast
  have "nat c < length g" using 1(2,4) by (auto simp: has_def)
  then have "take (Suc (nat c)) lg = take (Suc (nat c)) (g @ h)" using 1(5) by simp
  moreover have "committed n A' T k" using 1(1) assms(3) unfolding committed_def by blast
  moreover have "T \<le> B'" using 1(6) assms(4) by simp
  ultimately show ?thesis using has_append[OF 1(4)] h 1(2) c unfolding settled_def by blast
qed (use assms(1) in \<open>simp add: settled_def\<close>)

end
