(* ===== verification/Raft_Safety.thy ===== *)
theory Raft_Safety
  imports Raft_Commit
begin

text \<open>
  Every proper step of the system of \<open>Raft_Net\<close> keeps the invariant of \<open>Raft_Commit\<close>.  So leaders hold
  what has been committed, and no two peers of \<^verbatim>\<open>raft/raft.go\<close> ever apply different commands at the
  same index.
\<close>

section \<open>One proper step\<close>

definition moves :: "nat \<Rightarrow> 'c sys \<Rightarrow> 'c ev \<Rightarrow> 'c sys \<Rightarrow> 'c ledger \<Rightarrow> 'c ledger \<Rightarrow> bool" where
  "moves n s e s' G G' \<longleftrightarrow> net_inv n s \<and> net_inv n s' \<and> apart s \<and> apart s' \<and> log_inv n s G \<and> log_inv n s' G' \<and> grows G G' \<and>
     proper s e \<and> exec n s e = Some s'"

lemma movesD:
  assumes "moves n s e s' G G'"
  shows "net_inv n s" "net_inv n s'" "apart s" "log_inv n s G" "log_inv n s' G'" "grows G G'"
    "timely s e" "in_range s e" "fresh s e" "exec n s e = Some s'"
    "currentTerm (srv s i) \<le> currentTerm (srv s' i)"
  using assms step_term_mono unfolding moves_def proper_def by blast+

text \<open>A candidate either was one with the same log, or has just started an election.\<close>

lemma candidate_step:
  assumes "exec n s e = Some s'" "rstate (srv s' i) = candidate" "calls_ok n s" "timely s e"
  shows "rstate (srv s i) = candidate \<and> currentTerm (srv s' i) = currentTerm (srv s i) \<and> rlog (srv s' i) = rlog (srv s i) \<or>
    e = Timeout i \<and> currentTerm (srv s' i) = currentTerm (srv s i) + 1 \<and> rlog (srv s' i) = rlog (srv s i)"
proof (cases e)
  case (Timeout k)
  then show ?thesis using assms(1,2) by (auto simp: startElection_def split: if_splits)
next
  case (VoteRequest k d)
  then show ?thesis using assms(1,2)
    by (auto simp: Let_def RequestVoteReply_def resetElectionTimer_def split: if_splits)
next
  case (VoteResult k d)
  then show ?thesis using assms(1,2)
    by (auto simp: Let_def RequestVote_reply_def split: if_splits vstage.splits)
next
  case (Append k)
  let ?a = "acalls s ! k"
  obtain rf reply where h: "RequestAppendEntriesReply (srv s (a_dst ?a)) (a_args ?a) = Some (rf, reply)"
      "k < length (acalls s)" "srv s' = (srv s)(a_dst ?a := rf)"
    using assms(1) Append by (auto simp: Let_def bind_Some_iff split: if_splits)
  have "args_wf (a_args ?a)" using calls_okD(4)[OF assms(3)] h(2) by (auto simp: acall_ok_def)
  with h(1) have "rf = srv s (a_dst ?a) \<or> rstate rf = follower" by (auto elim!: RequestAppendEntriesReply_cases)
  with h(3) assms(2) show ?thesis by (cases "i = a_dst ?a") auto
next
  case (AppendResult k)
  then show ?thesis using assms(1,2)
    by (auto simp: Let_def bind_Some_iff split: if_splits astage.splits elim!: RequestHeartBeat_reply_cases)
next
  case (Apply k)
  then show ?thesis using assms(1,2) by (auto simp: Let_def bind_Some_iff applier_step_def split: if_splits)
next
  case (SubmitAppend k)
  then show ?thesis using assms(1,2,4) by (auto simp: Start_append_def split: if_splits prod.splits)
qed (use assms in \<open>auto simp: Let_def bind_Some_iff case_prod_beta GetState_def split: if_splits\<close>)

lemma moves_candidate:
  assumes m: "moves n s e s' G G'" and c: "rstate (srv s' i) = candidate"
  obtains (stays) "rstate (srv s i) = candidate" "currentTerm (srv s' i) = currentTerm (srv s i)" "rlog (srv s' i) = rlog (srv s i)"
  | (starts) "e = Timeout i" "currentTerm (srv s' i) = currentTerm (srv s i) + 1" "rlog (srv s' i) = rlog (srv s i)"
  using candidate_step[OF movesD(10)[OF m] c net_invD(2)[OF movesD(1)[OF m]] movesD(7)[OF m]] stays starts by blast

text \<open>A leader leaves the lead only for a later term.\<close>

lemma leader_step:
  assumes m: "moves n s e s' G G'" and i: "i < n" "rstate (srv s i) = leader" "currentTerm (srv s' i) = currentTerm (srv s i)"
  shows "rstate (srv s' i) = leader"
proof (cases e)
  case (Append k)
  let ?a = "acalls s ! k"
  obtain rf reply where h: "RequestAppendEntriesReply (srv s (a_dst ?a)) (a_args ?a) = Some (rf, reply)"
      "k < length (acalls s)" "srv s' = (srv s)(a_dst ?a := rf)"
    using movesD(10)[OF m] Append by (auto simp: Let_def bind_Some_iff split: if_splits)
  have a: "acall_ok n (won s) ?a" using calls_okD(4)[OF net_invD(2)[OF movesD(1)[OF m]]] h(2) by simp
  have "(a_src ?a, a_dst ?a, a_args ?a) \<in> sent s" using h(2) by (auto simp: sent_def)
  then have ne: "a_src ?a \<noteq> a_dst ?a" using movesD(3)[OF m] unfolding apart_def by metis
  show ?thesis
  proof (cases "a_dst ?a = i")
    case True
    have "ae_Term (a_args ?a) \<noteq> currentTerm (srv s i)"
      using won_once[OF movesD(1)[OF m], of "a_src ?a" _ i] a net_invD(6)[OF movesD(1)[OF m] i(1,2)] ne True
      by (auto simp: acall_ok_def)
    moreover have "args_wf (a_args ?a)" using a by (simp add: acall_ok_def)
    ultimately have "rf = srv s i" using h(1,3) True i(3) by (auto elim!: RequestAppendEntriesReply_cases)
    with h(3) i(2) True show ?thesis by simp
  qed (use h(3) i(2) in simp)
next
  case (AppendResult k)
  then show ?thesis using movesD(10)[OF m] i
    by (auto simp: Let_def bind_Some_iff split: if_splits astage.splits elim!: RequestHeartBeat_reply_cases)
qed (use movesD(10)[OF m] i in \<open>auto simp: Let_def bind_Some_iff case_prod_beta GetState_def startElection_def RequestVoteReply_def
    RequestVote_reply_def resetElectionTimer_def applier_step_def Start_append_def split: if_splits vstage.splits\<close>)

text \<open>The three outcomes of an append request that a leader has sent.\<close>

lemma ledger_traced: "log_inv n s G \<Longrightarrow> \<forall>g. G T = Some g \<longrightarrow> traced G g"
  using log_invD(2) by blast

lemma append_effect:
  assumes t: "traced G (rlog rf)" "call_traced G args" "\<forall>g. G (ae_Term args) = Some g \<longrightarrow> traced G g" and a: "args_wf args"
    and r: "RequestAppendEntriesReply rf args = Some (rf', reply)"
  obtains (old) "rf' = rf" "\<not> aer_Success reply"
  | (refused) "rf' = heard rf args" "\<not> aer_Success reply" "currentTerm rf \<le> ae_Term args"
  | (accepted) g m where "G (ae_Term args) = Some g" "m \<le> length g" "int m = ae_PrevLogIndex args + 1 + int (length (ae_Entries args))"
      "take m (rlog rf') = take m g" "rlog rf' \<in> {rlog rf, take m g}" "0 < m"
      "\<And>k T. has (rlog rf) k T \<Longrightarrow> has g k T \<Longrightarrow> has (rlog rf') k T"
      "rlog rf' = rlog rf \<and> commitIndex rf' = commitIndex rf \<or> commitIndex rf' = min (ae_LeaderCommit args) (int (length (rlog rf')) - 1)"
      "currentTerm rf' = ae_Term args" "currentTerm rf \<le> ae_Term args" "rstate rf' = follower"
proof -
  let ?p = "nat (ae_PrevLogIndex args)"
  obtain g m where g: "G (ae_Term args) = Some g" "m \<le> length g" "?p < m" "ae_Entries args = drop (Suc ?p) (take m g)"
      "?p \<noteq> 0 \<longrightarrow> LogTerm (g ! ?p) = ae_PrevLogTerm args"
    using t(2) unfolding call_traced_def Let_def by blast
  note tg = t(3)[rule_format, OF g(1)]
  have m: "int m = ae_PrevLogIndex args + 1 + int (length (ae_Entries args))" using g(2-4) a by (simp add: args_wf_def)
  have p: "?p < length (rlog rf) \<and> LogTerm (rlog rf ! ?p) = LogTerm (g ! ?p)"
    if "ae_PrevLogIndex args = 0 \<or> entry_matches (rlog rf) (ae_PrevLogIndex args) (ae_PrevLogTerm args)"
  proof (cases "?p = 0")
    case True
    then show ?thesis using tracedD(1,2)[OF t(1)] tracedD(2)[OF tg] by simp
  next
    case False
    then show ?thesis using that g(5) by (auto simp: entry_matches_def)
  qed
  from r a show thesis
  proof (cases rule: RequestAppendEntriesReply_cases)
    case old
    then show ?thesis by (intro that(1)) simp_all
  next
    case (kept ok c)
    show ?thesis
    proof (cases ok)
      case True
      then have e: "ae_Entries args = []" "entry_matches (rlog rf) (ae_PrevLogIndex args) (ae_PrevLogTerm args)" using kept by auto
      then have "int m = int (Suc ?p)" using m a by (simp add: args_wf_def)
      then have "m = Suc ?p" by (simp only: of_nat_eq_iff)
      moreover have "take (Suc ?p) (rlog rf) = take (Suc ?p) g" using p[OF disjI2[OF e(2)]] g(2,3) by (intro traced_agree[OF t(1) tg]) auto
      ultimately show ?thesis using kept g(1-3) m True
        by (intro that(3)[of g m]) auto
    next
      case False
      then have "c = commitIndex rf" using kept(4) by simp
      then have "rf' = heard rf args" using kept(2) by (cases rf) (simp add: heard_def)
      with False kept show ?thesis by (intro that(2)) simp_all
    qed
  next
    case (appended lg)
    note q = p[OF appended(3)]
    have lg: "lg = append_entries (rlog rf) ?p (drop (Suc ?p) (take m g))" using appended(4) g(4) by simp
    show ?thesis
      using appended g(1-3) m append_entries_traced[OF t(1) tg g(3,2)] append_entries_keeps[OF t(1) tg g(3,2)] q
      by (intro that(3)[of g m]) (auto simp: lg)
  qed
qed

lemma moves_ledger:
  assumes m: "moves n s e s' G G'" and g: "G' U = Some g'"
  obtains (older) g h where "G U = Some g" "g' = g @ h" "\<forall>e\<in>set h. LogTerm e = U"
  | (newer) i Q where "G U = None" "i < n" "running s i U" "rstate (srv s' i) = leader" "currentTerm (srv s' i) = U"
      "g' = rlog (srv s i)" "won s' = (i, U, Q) # won s"
proof (cases "G U")
  case (Some g)
  with movesD(6)[OF m] obtain h where "G' U = Some (g @ h)" "\<forall>e\<in>set h. LogTerm e = U" unfolding grows_def by blast
  with g Some show ?thesis by (intro older[of g h]) auto
next
  case None
  then have n: "\<not> has_won (won s) L U" for L using log_invD(3)[OF movesD(4)[OF m], of U] by auto
  from g obtain L where L: "has_won (won s') L U" using log_invD(3)[OF movesD(5)[OF m], of U] by auto
  from movesD(1,10,7,8)[OF m] show ?thesis
  proof (cases rule: step_kinds)
    case (win i Q)
    have "L = i \<and> U = currentTerm (srv s i)" using L n[of L] win(3) by (auto simp: has_won_def)
    moreover have "G' (currentTerm (srv s' i)) = Some (rlog (srv s' i))" using log_invD(4)[OF movesD(5)[OF m] win(1,6)] .
    ultimately show ?thesis using win g None by (intro newer[of i Q]) (auto simp: running_def logs_kept_def)
  qed (use L n in \<open>auto simp: lead_kept_def\<close>)
qed

lemma moves_log:
  assumes m: "moves n s e s' G G'" and i: "i < n"
  obtains (same) "rlog (srv s' i) = rlog (srv s i)"
  | (prefix) g l where "G (currentTerm (srv s' i)) = Some g" "0 < l" "rlog (srv s' i) = take l g" "rstate (srv s' i) = follower"
      "\<And>k T. has (rlog (srv s i)) k T \<Longrightarrow> has g k T \<Longrightarrow> has (rlog (srv s' i)) k T"
  | (longer) x where "rlog (srv s' i) = rlog (srv s i) @ [x]" "LogTerm x = currentTerm (srv s i)"
      "currentTerm (srv s' i) = currentTerm (srv s i)" "rstate (srv s i) = leader" "rstate (srv s' i) = leader"
      "matchIndex (srv s' i) = matchIndex (srv s i)"
  using movesD(1,10,7,8)[OF m]
proof (cases rule: step_kinds)
  case (append k j args rf reply)
  note inv = movesD(4)[OF m]
  show ?thesis
  proof (cases "k = i")
    case True
    from log_invD(1)[OF inv append(1)] log_invD(5)[OF inv append(2)] ledger_traced[OF inv] append(3,4)
    show ?thesis
    proof (cases rule: append_effect)
      case (accepted g l)
      show ?thesis
      proof (cases "rlog rf = rlog (srv s k)")
        case False
        then show ?thesis using accepted True append(5) by (intro prefix[of g l]) auto
      qed (use True append(5) same in simp)
    qed (use True append(5) same in simp_all)
  qed (use append(5) same in simp)
next
  case (submit k c)
  then show ?thesis by (cases "k = i") (auto intro: same longer)
qed (use i same in \<open>auto simp: logs_kept_def\<close>)

section \<open>Every proper step keeps the invariant\<close>

lemma tidy_append:
  assumes "tidy T g" "\<forall>e\<in>set h. LogTerm e = T"
  shows "tidy T (g @ h)"
proof -
  have "map LogTerm h = replicate (length h) T" using assms(2) by (induction h) auto
  then have "sorted (map LogTerm h)" by simp
  with assms show ?thesis by (auto simp: tidy_def sorted_append)
qed

lemma tidy_take: "tidy T g \<Longrightarrow> tidy T (take m g)"
  unfolding tidy_def by (auto simp: take_map[symmetric] sorted_wrt_take dest: in_set_takeD)

lemma tidy_le: "tidy T g \<Longrightarrow> T \<le> U \<Longrightarrow> tidy U g"
  unfolding tidy_def by force

lemma tidy_invD:
  assumes "tidy_inv n s G"
  shows "G T = Some g \<Longrightarrow> tidy T g" "i < n \<Longrightarrow> tidy (currentTerm (srv s i)) (rlog (srv s i))"
    "i < n \<Longrightarrow> rstate (srv s i) = candidate \<Longrightarrow> e \<in> set (rlog (srv s i)) \<Longrightarrow> LogTerm e < currentTerm (srv s i)"
    "i < n \<Longrightarrow> has_won (won s) i (currentTerm (srv s i)) \<Longrightarrow> rstate (srv s i) = leader"
  using assms unfolding tidy_inv_def by blast+

lemma moves_won:
  assumes m: "moves n s e s' G G'"
  obtains (same) "won s' = won s"
  | (elected) i Q where "i < n" "running s i (currentTerm (srv s' i))" "won s' = (i, currentTerm (srv s' i), Q) # won s"
      "rstate (srv s' i) = leader" "rlog (srv s' i) = rlog (srv s i)"
  using movesD(1,10,7,8)[OF m]
proof (cases rule: step_kinds)
  case (win i Q)
  then show ?thesis by (intro elected[of i Q]) (auto simp: running_def logs_kept_def)
qed (auto simp: lead_kept_def intro: same)

lemma has_won_term: "net_inv n s \<Longrightarrow> has_won (won s) i T \<Longrightarrow> T \<le> currentTerm (srv s i)"
  unfolding net_inv_def core_ok_def has_won_def by (auto dest: won_okD(3))

lemma tidy_step:
  assumes m: "moves n s e s' G G'" and inv: "tidy_inv n s G"
  shows "tidy_inv n s' G'"
  unfolding tidy_inv_def
proof (intro conjI allI impI ballI)
  fix U g' assume "G' U = Some g'"
  with m show "tidy U g'"
  proof (cases rule: moves_ledger)
    case (older g h)
    with tidy_invD(1)[OF inv older(1)] show ?thesis by (simp add: tidy_append)
  next
    case (newer i Q)
    with tidy_invD(2)[OF inv newer(2)] show ?thesis by (auto simp: running_def)
  qed
next
  fix i assume i: "i < n"
  from m i show "tidy (currentTerm (srv s' i)) (rlog (srv s' i))"
  proof (cases rule: moves_log)
    case same
    with tidy_le[OF tidy_invD(2)[OF inv i] movesD(11)[OF m]] show ?thesis by simp
  next
    case (prefix g l)
    with tidy_take[OF tidy_invD(1)[OF inv prefix(1)]] show ?thesis by simp
  next
    case (longer x)
    with tidy_append[OF tidy_invD(2)[OF inv i], of "[x]"] show ?thesis by simp
  qed
next
  fix i x assume i: "i < n" "rstate (srv s' i) = candidate" "x \<in> set (rlog (srv s' i))"
  from m i(2) show "LogTerm x < currentTerm (srv s' i)"
  proof (cases rule: moves_candidate)
    case stays
    with tidy_invD(3)[OF inv i(1) stays(1)] i(3) show ?thesis by simp
  next
    case starts
    with tidy_invD(2)[OF inv i(1)] i(3) show ?thesis by (auto simp: tidy_def)
  qed
next
  fix i assume i: "i < n" "has_won (won s') i (currentTerm (srv s' i))"
  have old: "rstate (srv s' i) = leader" if w: "has_won (won s) i (currentTerm (srv s' i))"
  proof -
    have t: "currentTerm (srv s' i) = currentTerm (srv s i)" using has_won_term[OF movesD(1)[OF m] w] movesD(11)[OF m, of i] by simp
    then show ?thesis using leader_step[OF m i(1) _ t] tidy_invD(4)[OF inv i(1)] w by simp
  qed
  from m show "rstate (srv s' i) = leader"
  proof (cases rule: moves_won)
    case same
    with old i(2) show ?thesis by simp
  next
    case (elected j Q)
    with old i(2) show ?thesis by (auto simp: has_won_def)
  qed
qed

text \<open>The new acknowledgements are those of peers in their present term.\<close>

lemma ack_step:
  assumes m: "moves n s e s' G G'" and inv: "ack_inv n s G A"
  shows "ack_inv n s' G' (A \<union> now n s')"
  unfolding ack_inv_def
proof (intro conjI allI impI)
  fix v T k assume a: "(v, T, k) \<in> A \<union> now n s'"
  note gr = movesD(6)[OF m]
  have new: "v < n \<and> T \<le> currentTerm (srv s' v) \<and> (\<exists>g. G' T = Some g \<and> has g k T) \<and> has (rlog (srv s' v)) k T" if "(v, T, k) \<in> now n s'"
    using that has_traced[OF log_invD(1)[OF movesD(5)[OF m]]] by (fastforce simp: now_def)
  have old: "v < n \<and> T \<le> currentTerm (srv s' v) \<and> (\<exists>g. G' T = Some g \<and> has g k T) \<and>
      (has (rlog (srv s' v)) k T \<or> missed G' k T (currentTerm (srv s' v)))" if A: "(v, T, k) \<in> A"
  proof (intro conjI)
    show v: "v < n" by (rule ack_invD(1)[OF inv A])
    show T: "T \<le> currentTerm (srv s' v)" using ack_invD(2)[OF inv A] movesD(11)[OF m, of v] by simp
    obtain g where g: "G T = Some g" "has g k T" using ack_invD(3)[OF inv A] by blast
    show "\<exists>g. G' T = Some g \<and> has g k T" by (rule has_grows[where G = G, OF gr g])
    have missed: "missed G' k T (currentTerm (srv s' v))" if "missed G k T (currentTerm (srv s v))"
      by (rule missed_grows[OF that gr movesD(11)[OF m]])
    from m v show "has (rlog (srv s' v)) k T \<or> missed G' k T (currentTerm (srv s' v))"
    proof (cases rule: moves_log)
      case same
      with ack_invD(4)[OF inv A] missed show ?thesis by auto
    next
      case (longer x)
      with ack_invD(4)[OF inv A] missed show ?thesis by (auto simp: has_append)
    next
      case (prefix h l)
      show ?thesis
      proof (cases "has h k T")
        case True
        with ack_invD(4)[OF inv A] missed prefix(5) show ?thesis by auto
      next
        case False
        then have "T \<noteq> currentTerm (srv s' v)" using g prefix(1) by auto
        then have "missed G k T (currentTerm (srv s' v))" using False prefix(1) T by (intro missedI) auto
        from missed_grows[OF this gr order_refl] show ?thesis by simp
      qed
    qed
  qed
  from a new old show "v < n" "T \<le> currentTerm (srv s' v)" "\<exists>g. G' T = Some g \<and> has g k T"
    "has (rlog (srv s' v)) k T \<or> missed G' k T (currentTerm (srv s' v))" by auto
qed simp

text \<open>An acknowledgement made now is not older than any vote of the peer.\<close>

lemma vote_not_now:
  assumes "net_inv n s" "(v, U, c) \<in> set (votes s)" "(v, T, k) \<in> now n s"
  shows "U \<le> T"
  using assms unfolding net_inv_def core_ok_def by (auto simp: now_def dest: votes_okD(3))

lemma voters_voted:
  assumes "net_inv n s" "(L, U, Q) \<in> set (won s)" "v \<in> set Q"
  shows "(v, U, L) \<in> set (votes s)"
  using assms unfolding net_inv_def core_ok_def by (auto dest: won_okD(5))

lemma elected_votes:
  assumes "exec n s e = Some s'" "won s' \<noteq> won s"
  shows "votes s' = votes s"
  using assms by (cases e) (auto simp: Let_def case_prod_beta bind_Some_iff split: if_splits vstage.splits astage.splits)

lemma vote_invD:
  assumes "vote_inv n s G A"
  shows "(v, U, c) \<in> set (votes s) \<Longrightarrow> U \<le> currentTerm (srv s c)"
    "r \<in> set (rounds s) \<Longrightarrow> rv_Term (rd_args r) \<le> currentTerm (srv s (rd_owner r))"
    "r \<in> set (rounds s) \<Longrightarrow> running s (rd_owner r) (rv_Term (rd_args r)) \<Longrightarrow> rd_args r = RequestVote_args (srv s (rd_owner r))"
    "(v, U, c) \<in> set (votes s) \<Longrightarrow> running s c U \<Longrightarrow> G U = None \<Longrightarrow> (v, T, k) \<in> A \<Longrightarrow> T < U \<Longrightarrow>
        has (rlog (srv s c)) k T \<or> missed G k T (U - 1)"
  using assms unfolding vote_inv_def by blast+

lemma won_step:
  assumes m: "moves n s e s' G G'" and v: "vote_inv n s G A" and inv: "won_inv s G A"
  shows "won_inv s' G' (A \<union> now n s')"
  unfolding won_inv_def
proof (intro allI impI)
  fix L U Q v T k assume w: "(L, U, Q) \<in> set (won s')" "v \<in> set Q" and a: "(v, T, k) \<in> A \<union> now n s'" and T: "T < U"
  note gr = movesD(6)[OF m] and vo = voters_voted[OF movesD(2)[OF m] w]
  from a vote_not_now[OF movesD(2)[OF m] vo, of T k] T have A: "(v, T, k) \<in> A" by auto
  have old: "(\<exists>g. G' U = Some g \<and> has g k T) \<or> missed G' k T (U - 1)" if "(L, U, Q) \<in> set (won s)"
  proof -
    from inv that w(2) A T have "(\<exists>g. G U = Some g \<and> has g k T) \<or> missed G k T (U - 1)" unfolding won_inv_def by blast
    then show ?thesis using has_grows[OF gr] missed_grows[OF _ gr order_refl] by blast
  qed
  from m show "(\<exists>g. G' U = Some g \<and> has g k T) \<or> missed G' k T (U - 1)"
  proof (cases rule: moves_won)
    case same
    with old w(1) show ?thesis by simp
  next
    case (elected i R)
    show ?thesis
    proof (cases "(L, U, Q) \<in> set (won s)")
      case False
      then have e: "L = i" "U = currentTerm (srv s' i)" "Q = R" using elected(3) w(1) by auto
      have "G U = None"
      proof (rule ccontr)
        assume "G U \<noteq> None"
        then obtain K where K: "has_won (won s) K U" using log_invD(3)[OF movesD(4)[OF m], of U] by blast
        then have "K = i" using won_once[OF movesD(2)[OF m], of K U i] w(1) e elected(3) by (auto simp: has_won_def)
        with K won_candidate[OF movesD(1)[OF m] elected(1)] elected(2) e show False by (auto simp: running_def)
      qed
      moreover have "votes s' = votes s" using elected_votes[OF movesD(10)[OF m]] elected(3) by simp
      ultimately have "has (rlog (srv s i)) k T \<or> missed G k T (U - 1)"
        using vote_invD(4)[OF v, of v U i T k] vo e elected(2) A T by simp
      moreover have "G' U = Some (rlog (srv s i))" using log_invD(4)[OF movesD(5)[OF m] elected(1,4)] e elected(5) by simp
      ultimately show ?thesis using missed_grows[OF _ gr order_refl] by blast
    qed (rule old)
  qed
qed

text \<open>A log that is at least as up to date as one with an entry has the entry, or some leader in between missed it.\<close>

lemma up_to_date_has:
  assumes t: "traced G v" "traced G c" "sorted (map LogTerm v)" and h: "has v k T"
    and g: "\<And>W g. G W = Some g \<Longrightarrow> sorted (map LogTerm g)" and b: "\<forall>e\<in>set c. LogTerm e < U"
    and u: "l > last_term rv \<or> l = last_term rv \<and> length v \<le> length c" and l: "l = last_term rc" and r: "rlog rv = v" "rlog rc = c"
  shows "has c k T \<or> missed G k T (U - 1)"
proof -
  from h have k: "0 < k" "k < length v" "LogTerm (v ! k) = T" by (auto simp: has_def)
  have lv: "last_term rv = LogTerm (v ! (length v - 1))" using k r(1) by (simp add: last_term_def)
  have T: "T \<le> last_term rv" using sorted_nth_mono[OF t(3), of k "length v - 1"] k lv by simp
  have "0 \<le> T" using sorted_nth_mono[OF t(3), of 0 k] k tracedD(1,2)[OF t(1)] by (simp add: dummy_def)
  then have lc: "1 < length c" "l = LogTerm (c ! (length c - 1))" using u T l r(2) by (auto simp: last_term_def split: if_splits)
  define j where "j = length c - 1"
  have j: "has c j l" using lc by (simp add: has_def j_def)
  obtain h where h': "G l = Some h" "has h j l" "take (Suc j) h = take (Suc j) c" using has_traced[OF t(2) j] by blast
  show ?thesis
  proof (cases "l = T")
    case True
    then have "k \<le> j" using u T k(2) by (auto simp: j_def)
    moreover have "has h k T" using has_traced[OF t(1) h] h'(1) True by auto
    ultimately show ?thesis using has_take[OF h'(3)] by blast
  next
    case False
    then have lt: "T < l" using u T by auto
    show ?thesis
    proof (cases "has h k T")
      case True
      have "k \<le> j"
      proof (rule ccontr)
        assume "\<not> k \<le> j"
        then have "LogTerm (h ! j) \<le> LogTerm (h ! k)" using sorted_nth_mono[OF g[OF h'(1)], of j k] True by (simp add: has_def)
        with True h'(2) lt show False by (simp add: has_def)
      qed
      with has_take[OF h'(3)] True show ?thesis by blast
    next
      case False
      have "l < U" using b lc by (auto simp: j_def)
      with False lt h'(1) show ?thesis by (intro disjI2 missedI[of T l]) auto
    qed
  qed
qed

lemma granted_vote:
  assumes "rvr_VoteGranted (snd (RequestVoteReply rf args))"
  shows "currentTerm rf \<le> rv_Term args"
    "length (rlog rf) = 1 \<or> rv_LastLogTerm args > last_term rf \<or>
      rv_LastLogTerm args = last_term rf \<and> rv_LastLogIndex args \<ge> int (length (rlog rf)) - 1"
  using assms by (auto simp: RequestVoteReply_def Let_def last_term_def split: if_splits)

lemma new_votes:
  assumes e: "exec n s e = Some s'" and v: "(v, U, c) \<in> set (votes s')" "(v, U, c) \<notin> set (votes s)"
  obtains (own) "e = Timeout v" "c = v"
  | (granted) k where "e = VoteRequest k v" "k < length (rounds s)" "v < n" "U = rv_Term (rd_args (rounds s ! k))"
      "c = rv_CandidateId (rd_args (rounds s ! k))"
      "rvr_VoteGranted (snd (RequestVoteReply (srv s v) (rd_args (rounds s ! k))))"
proof (cases e)
  case (Timeout i)
  with e v show ?thesis by (intro own) (auto simp: case_prod_beta split: if_splits)
next
  case (VoteRequest k d)
  with e v have "d = v" by (auto simp: Let_def case_prod_beta split: if_splits)
  with VoteRequest e v show ?thesis by (intro granted[of k]) (auto simp: Let_def case_prod_beta split: if_splits)
qed (use e v in \<open>auto simp: Let_def case_prod_beta bind_Some_iff split: if_splits vstage.splits astage.splits\<close>)

lemma updated_round:
  assumes "r \<in> set rs'" "\<exists>q. rs' = rs[k := q] \<and> rd_owner q = rd_owner (rs ! k) \<and> rd_args q = rd_args (rs ! k)" "k < length rs"
  shows "(\<exists>q\<in>set rs. rd_owner r = rd_owner q \<and> rd_args r = rd_args q) \<or> P"
proof -
  obtain q where q: "rs' = rs[k := q]" "rd_owner q = rd_owner (rs ! k)" "rd_args q = rd_args (rs ! k)" using assms(2) by blast
  have "r = q \<or> r \<in> set rs" using assms(1) set_update_subset_insert[of rs k q] q(1) by blast
  with q(2,3) nth_mem[OF assms(3)] show ?thesis by auto
qed

lemma new_rounds:
  assumes e: "exec n s e = Some s'" and r: "r \<in> set (rounds s')"
  shows "(\<exists>q\<in>set (rounds s). rd_owner r = rd_owner q \<and> rd_args r = rd_args q) \<or>
    srv s' = srv s \<and> rd_args r = RequestVote_args (srv s (rd_owner r))"
proof (cases e)
  case (Campaign k)
  with e r show ?thesis by (auto simp: Let_def split: if_splits)
next
  case (VoteRequest k d)
  then have "\<exists>q. rounds s' = (rounds s)[k := q] \<and> rd_owner q = rd_owner (rounds s ! k) \<and> rd_args q = rd_args (rounds s ! k)"
      "k < length (rounds s)"
    using e by (auto simp: Let_def case_prod_beta split: if_splits)
  with r show ?thesis by (rule updated_round)
next
  case (VoteResult k d)
  then have "\<exists>q. rounds s' = (rounds s)[k := q] \<and> rd_owner q = rd_owner (rounds s ! k) \<and> rd_args q = rd_args (rounds s ! k)"
      "k < length (rounds s)"
    using e by (auto simp: Let_def case_prod_beta split: if_splits vstage.splits)
  with r show ?thesis by (rule updated_round)
qed (use e r in \<open>auto simp: Let_def case_prod_beta bind_Some_iff split: if_splits vstage.splits astage.splits\<close>)

text \<open>A vote for a candidate that may still win its term.\<close>

lemma vote_covers:
  assumes m: "moves n s e s' G G'" and ti: "tidy_inv n s G" and ai: "ack_inv n s G A" and vi: "vote_inv n s G A"
    and v: "(v, U, c) \<in> set (votes s')" and c: "c < n" "running s' c U" "G U = None" and a: "(v, T, k) \<in> A" "T < U"
  shows "has (rlog (srv s' c)) k T \<or> missed G k T (U - 1)"
proof (cases "(v, U, c) \<in> set (votes s)")
  case True
  from m c(2)[unfolded running_def, THEN conjunct1] show ?thesis
  proof (cases rule: moves_candidate)
    case stays
    with vote_invD(4)[OF vi True _ c(3) a] c(2) show ?thesis by (simp add: running_def)
  next
    case starts
    then show ?thesis using vote_invD(1)[OF vi True] c(2) by (simp add: running_def)
  qed
next
  case False
  from movesD(10)[OF m] v False show ?thesis
  proof (cases rule: new_votes)
    case own
    from m c(2)[unfolded running_def, THEN conjunct1] show ?thesis
    proof (cases rule: moves_candidate)
      case stays
      then show ?thesis using own movesD(10)[OF m] by (auto simp: startElection_def split: if_splits)
    next
      case starts
      then have "U - 1 = currentTerm (srv s c)" using c(2) by (simp add: running_def)
      then show ?thesis using ack_invD(4)[OF ai a(1)] own starts(3) by simp
    qed
  next
    case (granted q)
    let ?r = "rounds s ! q"
    have r: "?r \<in> set (rounds s)" "rd_owner ?r = c"
      using granted calls_okD(2)[OF net_invD(2)[OF movesD(1)[OF m]]] by (auto simp: round_ok_def)
    have st: "running s c U" "rlog (srv s' c) = rlog (srv s c)"
      using c(2) granted(1) by (auto simp: running_def elim!: moves_candidate[OF m])
    note args = vote_invD(3)[OF vi r(1), unfolded r(2) granted(4)[symmetric], OF st(1)]
    note gv = granted_vote[OF granted(6)]
    from ack_invD(4)[OF ai a(1)] show ?thesis
    proof
      assume h: "has (rlog (srv s v)) k T"
      have "last_term (srv s c) > last_term (srv s v) \<or> last_term (srv s c) = last_term (srv s v) \<and> length (rlog (srv s v)) \<le> length (rlog (srv s c))"
        using gv(2) h unfolding args by (auto simp: RequestVote_args_def has_def)
      moreover have "sorted (map LogTerm (rlog (srv s v)))" using tidy_invD(2)[OF ti granted(3)] by (simp add: tidy_def)
      moreover have "sorted (map LogTerm g)" if "G W = Some g" for W g using tidy_invD(1)[OF ti that] by (simp add: tidy_def)
      moreover have "\<forall>e\<in>set (rlog (srv s c)). LogTerm e < U" using tidy_invD(3)[OF ti c(1)] st(1) by (auto simp: running_def)
      ultimately have "has (rlog (srv s c)) k T \<or> missed G k T (U - 1)" using h
        by (intro up_to_date_has[OF log_invD(1)[OF movesD(4)[OF m] granted(3)] log_invD(1)[OF movesD(4)[OF m] c(1)], where rv = "srv s v" and rc = "srv s c"]) auto
      with st(2) show ?thesis by simp
    next
      assume "missed G k T (currentTerm (srv s v))"
      then obtain W g where W: "T < W" "W \<le> currentTerm (srv s v)" "G W = Some g" "\<not> has g k T" unfolding missed_def by blast
      moreover have "W \<noteq> U" using W(3) c(3) by auto
      ultimately show ?thesis using gv(1) granted(4) by (intro disjI2 missedI[of T W]) auto
    qed
  qed
qed

lemma vote_step:
  assumes m: "moves n s e s' G G'" and ti: "tidy_inv n s G" and ai: "ack_inv n s G A" and inv: "vote_inv n s G A"
  shows "vote_inv n s' G' (A \<union> now n s')"
  unfolding vote_inv_def
proof (intro conjI allI impI ballI)
  fix v U c assume v: "(v, U, c) \<in> set (votes s')"
  show "U \<le> currentTerm (srv s' c)"
  proof (cases "(v, U, c) \<in> set (votes s)")
    case True
    with vote_invD(1)[OF inv True] movesD(11)[OF m, of c] show ?thesis by simp
  next
    case False
    from movesD(10)[OF m] v False show ?thesis
    proof (cases rule: new_votes)
      case own
      then show ?thesis using v False movesD(10)[OF m] by (auto simp: case_prod_beta split: if_splits)
    next
      case (granted k)
      then have "rd_owner (rounds s ! k) = c" using calls_okD(2)[OF net_invD(2)[OF movesD(1)[OF m]]] by (auto simp: round_ok_def)
      with vote_invD(2)[OF inv, of "rounds s ! k"] granted movesD(11)[OF m, of c] show ?thesis by auto
    qed
  qed
  fix T k assume c: "running s' c U" "G' U = None" and a: "(v, T, k) \<in> A \<union> now n s'" and T: "T < U"
  have "G U = None" using c(2) movesD(6)[OF m] unfolding grows_def by (metis not_None_eq)
  moreover have "c < n" using movesD(2)[OF m] v unfolding net_inv_def core_ok_def by (auto dest: votes_okD(2))
  moreover have "(v, T, k) \<in> A" using a vote_not_now[OF movesD(2)[OF m] v, of T k] T by auto
  ultimately have "has (rlog (srv s' c)) k T \<or> missed G k T (U - 1)" using vote_covers[OF m ti ai inv v _ c(1)] T by blast
  then show "has (rlog (srv s' c)) k T \<or> missed G' k T (U - 1)" using missed_grows[OF _ movesD(6)[OF m] order_refl] by blast
next
  fix r assume r: "r \<in> set (rounds s')"
  let ?o = "rd_owner r"
  have o: "?o < n" using calls_okD(2)[OF net_invD(2)[OF movesD(2)[OF m]] r] by (simp add: round_ok_def)
  have old: "rv_Term (rd_args r) \<le> currentTerm (srv s ?o)" "running s ?o (rv_Term (rd_args r)) \<longrightarrow> rd_args r = RequestVote_args (srv s ?o)"
    using new_rounds[OF movesD(10)[OF m] r] vote_invD(2,3)[OF inv] by (auto simp: RequestVote_args_def)
  then show "rv_Term (rd_args r) \<le> currentTerm (srv s' ?o)" using movesD(11)[OF m, of ?o] by simp
  assume ru: "running s' ?o (rv_Term (rd_args r))"
  from m ru[unfolded running_def, THEN conjunct1] show "rd_args r = RequestVote_args (srv s' ?o)"
  proof (cases rule: moves_candidate)
    case stays
    have "RequestVote_args (srv s' ?o) = RequestVote_args (srv s ?o)"
      using stays net_invD(4)[OF movesD(1)[OF m] o] net_invD(4)[OF movesD(2)[OF m] o] by (simp add: RequestVote_args_def last_term_def)
    with old(2) ru stays show ?thesis by (simp add: running_def)
  next
    case starts
    with old(1) ru show ?thesis by (simp add: running_def)
  qed
qed

section \<open>Replication and commitment\<close>

text \<open>What the loop over \<^verbatim>\<open>matchIndex\<close> has counted when it commits.\<close>

lemma commit_loop_quorum:
  assumes "commit_loop rf cmt i cnt mis = Some rf'" "rf' \<noteq> rf"
  shows "\<exists>Q. Q \<subseteq> {i..<i + length mis} \<and> me rf \<notin> Q \<and> cnt + card Q > peers rf div 2 \<and> (\<forall>j\<in>Q. cmt \<le> mis ! (j - i))"
  using assms
proof (induction mis arbitrary: i cnt)
  case (Cons mi mis)
  let ?here = "i \<noteq> me rf \<and> mi \<ge> cmt"
  have later: "\<exists>Q. Q \<subseteq> {i..<i + length (mi # mis)} \<and> me rf \<notin> Q \<and> cnt + card Q > peers rf div 2 \<and> (\<forall>j\<in>Q. cmt \<le> (mi # mis) ! (j - i))"
    if l: "commit_loop rf cmt (i + 1) (if ?here then cnt + 1 else cnt) mis = Some rf'"
  proof -
    from Cons.IH[OF l Cons.prems(2)] obtain Q where Q: "Q \<subseteq> {i + 1..<i + 1 + length mis}" "me rf \<notin> Q"
        "(if ?here then cnt + 1 else cnt) + card Q > peers rf div 2" "\<forall>j\<in>Q. cmt \<le> mis ! (j - (i + 1))" by blast
    have nth: "(mi # mis) ! (j - i) = mis ! (j - (i + 1))" if "j \<in> Q" for j
    proof -
      have "i + 1 \<le> j" using Q(1) that by auto
      then show ?thesis by (simp add: nth_Cons')
    qed
    have f: "finite Q" "i \<notin> Q" using Q(1) finite_subset by auto
    show ?thesis
      by (rule exI[of _ "if ?here then insert i Q else Q"]) (use Q nth f in \<open>auto split: if_splits\<close>)
  qed
  show ?case
  proof (cases "?here \<and> cnt + 1 > peers rf div 2")
    case True
    then obtain x where "at (rlog rf) cmt = Some x" using Cons.prems(1) by (auto simp: Let_def bind_Some_iff)
    then show ?thesis using True by (intro exI[of _ "{i}"]) auto
  next
    case False
    with Cons.prems(1) show ?thesis by (intro later) (auto simp: Let_def split: if_splits)
  qed
qed simp

text \<open>The part of a reply that counts: it sets the match index of the sender, and may commit.\<close>

lemma reply_effect:
  assumes r: "RequestHeartBeat_reply rf server args reply = Some rf'"
  defines "cmt \<equiv> ae_PrevLogIndex args + int (length (ae_Entries args))"
  obtains (same) "matchIndex rf' = matchIndex rf" "commitIndex rf' = commitIndex rf"
  | (matched) "ae_Term args = currentTerm rf" "currentTerm rf' = currentTerm rf" "aer_Success reply" "server < length (matchIndex rf)"
      "matchIndex rf' = (matchIndex rf)[server := cmt]" "commitIndex rf' = commitIndex rf"
  | (counted) Q where "ae_Term args = currentTerm rf" "currentTerm rf' = currentTerm rf" "aer_Success reply" "server < length (matchIndex rf)"
      "matchIndex rf' = (matchIndex rf)[server := cmt]" "commitIndex rf' = cmt" "commitIndex rf < cmt" "cmt < int (length (rlog rf))"
      "LogTerm (rlog rf ! nat cmt) = currentTerm rf" "Q \<subseteq> {..<length (matchIndex rf)}" "me rf \<notin> Q" "1 + card Q > peers rf div 2"
      "\<forall>j\<in>Q. cmt \<le> matchIndex rf' ! j"
proof (cases "ae_Term args = currentTerm rf \<and> \<not> currentTerm rf < aer_Term reply \<and> ae_Entries args \<noteq> [] \<and> aer_Success reply")
  case True
  define rf1 where "rf1 = rf\<lparr>nextIndex := (nextIndex rf)[server := cmt + 1], matchIndex := (matchIndex rf)[server := cmt]\<rparr>"
  have s: "server < length (matchIndex rf)" and l: "(if commitIndex rf < cmt then commit_loop rf1 cmt 0 1 (matchIndex rf1) else Some rf1) = Some rf'"
    using True r by (auto simp: RequestHeartBeat_reply_def Let_def bind_Some_iff upd_at_Some_iff cmt_def rf1_def)
  show ?thesis
  proof (cases "rf' = rf1")
    case True
    with \<open>ae_Term args = currentTerm rf \<and> _\<close> s show ?thesis by (intro matched) (simp_all add: rf1_def)
  next
    case False
    then have c: "commitIndex rf < cmt" "commit_loop rf1 cmt 0 1 (matchIndex rf1) = Some rf'" using l by (auto split: if_splits)
    from commit_loop_result[OF c(2)] False have e: "0 \<le> cmt" "cmt < int (length (rlog rf))" "LogTerm (rlog rf ! nat cmt) = currentTerm rf"
        "rf' = rf1\<lparr>commitIndex := cmt\<rparr>" by (auto simp: rf1_def)
    from commit_loop_quorum[OF c(2) False] obtain Q where "Q \<subseteq> {..<length (matchIndex rf)}" "me rf \<notin> Q" "1 + card Q > peers rf div 2"
        "\<forall>j\<in>Q. cmt \<le> matchIndex rf1 ! j" by (auto simp: rf1_def atLeast0LessThan)
    with \<open>ae_Term args = currentTerm rf \<and> _\<close> s c(1) e show ?thesis by (intro counted[of Q]) (simp_all add: rf1_def)
  qed
next
  case False
  then show ?thesis using r
    by (intro same) (auto simp: RequestHeartBeat_reply_def Let_def bind_Some_iff upd_at_Some_iff split: if_splits)
qed

lemma acked_mono:
  assumes "acked A j T g m" "A \<subseteq> A'"
  shows "acked A' j T (g @ h) m"
  unfolding acked_def
proof (intro conjI allI impI)
  fix k assume k: "int k \<le> m" "has (g @ h) k T"
  then have "has g k T" using assms(1) by (auto simp: acked_def has_def nth_append)
  then show "(j, T, k) \<in> A'" using assms k(1) by (auto simp: acked_def)
qed (use assms in \<open>auto simp: acked_def\<close>)

lemma acked_zero: "lg \<noteq> [] \<Longrightarrow> acked A j T lg 0"
  by (simp add: acked_def has_def)

text \<open>How the match indices of a leader come about.\<close>

lemma moves_match:
  assumes m: "moves n s e s' G G'" and i: "i < n" "rstate (srv s' i) = leader"
  obtains (same) "rstate (srv s i) = leader" "matchIndex (srv s' i) = matchIndex (srv s i)"
  | (reply) a reply where "rstate (srv s i) = leader" "a \<in> set (acalls s)" "a_stage a = AHandled reply" "aer_Success reply"
      "ae_Term (a_args a) = currentTerm (srv s' i)" "a_dst a < length (matchIndex (srv s i))"
      "matchIndex (srv s' i) = (matchIndex (srv s i))[a_dst a := ae_PrevLogIndex (a_args a) + int (length (ae_Entries (a_args a)))]"
  | (new) "\<forall>m\<in>set (matchIndex (srv s' i)). m = 0"
proof -
  have other: "rstate (srv s i) = leader \<and> matchIndex (srv s' i) = matchIndex (srv s i)"
    if "\<nexists>k d. e = VoteResult k d" "\<nexists>k. e = Append k" "\<nexists>k. e = AppendResult k"
    using that movesD(10)[OF m] i(2)
    by (cases e) (auto simp: Let_def bind_Some_iff case_prod_beta GetState_def startElection_def RequestVoteReply_def
      resetElectionTimer_def applier_step_def Start_append_def split: if_splits)
  show thesis
  proof (cases e)
    case (VoteResult k d)
    let ?r = "rounds s ! k" let ?o = "rd_owner ?r"
    obtain reply where g: "k < length (rounds s)" "d < n" "rd_calls ?r d = VHandled reply"
      using movesD(10)[OF m] VoteResult by (auto simp: Let_def split: if_splits vstage.splits)
    obtain rf vn win where h: "RequestVote_reply (srv s ?o) (rd_voteNum ?r) (rd_args ?r) reply = (rf, vn, win)"
      by (metis prod_cases3)
    have s': "srv s' = (srv s)(?o := rf)" using movesD(10)[OF m] VoteResult g h by (auto simp: Let_def)
    have f: "win \<Longrightarrow> \<forall>m\<in>set (matchIndex (srv s ?o)). m = 0"
      using movesD(9)[OF m] VoteResult g h by (simp add: Let_def list_all_iff)
    have q: "matchIndex rf = matchIndex (srv s ?o)" "\<not> win \<Longrightarrow> rstate rf = leader \<Longrightarrow> rstate (srv s ?o) = leader"
      using h by (auto simp: RequestVote_reply_def Let_def split: if_splits)
    show ?thesis
    proof (cases "?o = i")
      case True
      show ?thesis
      proof (cases win)
        case True
        with f q(1) s' \<open>?o = i\<close> show ?thesis by (intro new) simp
      next
        case False
        with i(2) q s' True show ?thesis by (intro same) simp_all
      qed
    qed (use i(2) s' same in simp)
  next
    case (Append k)
    let ?a = "acalls s ! k"
    obtain rf reply where h: "RequestAppendEntriesReply (srv s (a_dst ?a)) (a_args ?a) = Some (rf, reply)"
        "k < length (acalls s)" "srv s' = (srv s)(a_dst ?a := rf)"
      using movesD(10)[OF m] Append by (auto simp: Let_def bind_Some_iff split: if_splits)
    have "args_wf (a_args ?a)" using calls_okD(4)[OF net_invD(2)[OF movesD(1)[OF m]]] h(2) by (auto simp: acall_ok_def)
    with h(1) have "rf = srv s (a_dst ?a) \<or> rstate rf = follower" by (auto elim!: RequestAppendEntriesReply_cases)
    with h(3) i(2) show ?thesis by (intro same) (auto split: if_splits)
  next
    case (AppendResult k)
    let ?a = "acalls s ! k"
    obtain rf r where h: "RequestHeartBeat_reply (srv s (a_src ?a)) (a_dst ?a) (a_args ?a) r = Some rf"
        "k < length (acalls s)" "srv s' = (srv s)(a_src ?a := rf)" "a_stage ?a = AHandled r"
      using movesD(10)[OF m] AppendResult by (auto simp: Let_def bind_Some_iff split: if_splits astage.splits)
    have l: "rstate rf = leader \<Longrightarrow> rstate (srv s (a_src ?a)) = leader" using h(1) by (auto elim!: RequestHeartBeat_reply_cases)
    show ?thesis
    proof (cases "a_src ?a = i")
      case True
      from h(1) show ?thesis
        by (cases rule: reply_effect) (use True l h(2-4) i(2) in \<open>auto intro: same reply[of ?a r]\<close>)
    qed (use i(2) h(3) same in simp)
  qed (use other same in blast)+
qed

lemma match_invD:
  assumes "match_inv n s G A"
  shows "i < n \<Longrightarrow> j < n \<Longrightarrow> rstate (srv s i) = leader \<Longrightarrow> acked A j (currentTerm (srv s i)) (rlog (srv s i)) (matchIndex (srv s i) ! j)"
    "a \<in> set (acalls s) \<Longrightarrow> a_stage a = AHandled reply \<Longrightarrow> aer_Success reply \<Longrightarrow>
       \<exists>g. G (ae_Term (a_args a)) = Some g \<and>
         acked A (a_dst a) (ae_Term (a_args a)) g (ae_PrevLogIndex (a_args a) + int (length (ae_Entries (a_args a))))"
  using assms unfolding match_inv_def by blast+

text \<open>The log of a leader that led before has only grown.\<close>

lemma leader_log_grows:
  assumes m: "moves n s e s' G G'" and i: "i < n" "rstate (srv s i) = leader" "rstate (srv s' i) = leader"
  shows "currentTerm (srv s' i) = currentTerm (srv s i)" "\<exists>h. rlog (srv s' i) = rlog (srv s i) @ h"
proof -
  from movesD(1,10,7,8)[OF m] show t: "currentTerm (srv s' i) = currentTerm (srv s i)"
  proof (cases rule: step_kinds)
    case (append k j args rf reply)
    then show ?thesis using i by (cases "k = i") (auto elim!: RequestAppendEntriesReply_cases)
  next
    case (win k Q)
    then show ?thesis by (cases "k = i") auto
  qed (use i in \<open>auto simp: lead_kept_def\<close>)
  from m i(1) show "\<exists>h. rlog (srv s' i) = rlog (srv s i) @ h" by (cases rule: moves_log) (use i in auto)
qed

lemma acked_grows:
  assumes "G U = Some g" "acked A j T g c" "grows G G'" "A \<subseteq> A'"
  shows "\<exists>g. G' U = Some g \<and> acked A' j T g c"
proof -
  obtain h where "G' U = Some (g @ h)" using assms(1,3) unfolding grows_def by blast
  with acked_mono[OF assms(2,4)] show ?thesis by blast
qed

lemma handled_step:
  assumes m: "moves n s e s' G G'" and inv: "match_inv n s G A"
    and a: "a \<in> set (acalls s')" "a_stage a = AHandled reply" "aer_Success reply"
  shows "\<exists>g. G' (ae_Term (a_args a)) = Some g \<and>
    acked (A \<union> now n s') (a_dst a) (ae_Term (a_args a)) g (ae_PrevLogIndex (a_args a) + int (length (ae_Entries (a_args a))))"
proof -
  have old: ?thesis if "a \<in> set (acalls s)"
    using match_invD(2)[OF inv that a(2,3)] acked_grows[OF _ _ movesD(6)[OF m], of _ _ A _ _ _ "A \<union> now n s'"] by blast
  show ?thesis
  proof (cases "a \<in> set (acalls s)")
    case False
    show ?thesis
    proof (cases e)
      case (Append k)
      let ?a = "acalls s ! k"
      obtain rf r where h: "RequestAppendEntriesReply (srv s (a_dst ?a)) (a_args ?a) = Some (rf, r)"
          "k < length (acalls s)" "srv s' = (srv s)(a_dst ?a := rf)" "acalls s' = (acalls s)[k := ?a\<lparr>a_stage := AHandled r\<rparr>]"
        using movesD(10)[OF m] Append by (auto simp: Let_def bind_Some_iff split: if_splits)
      have eq: "a = ?a\<lparr>a_stage := AHandled r\<rparr>" using False a(1) h(4) set_update_subset_insert[of "acalls s" k] by fastforce
      have ok: "acall_ok n (won s) ?a" using calls_okD(4)[OF net_invD(2)[OF movesD(1)[OF m]]] h(2) by simp
      then have d: "a_dst ?a < n" "args_wf (a_args ?a)" by (simp_all add: acall_ok_def)
      have c: "call_traced G (a_args ?a)" using log_invD(5)[OF movesD(4)[OF m]] h(2) by (force simp: sent_def)
      from log_invD(1)[OF movesD(4)[OF m] d(1)] c ledger_traced[OF movesD(4)[OF m]] d(2) h(1) show ?thesis
      proof (cases rule: append_effect)
        case (accepted g l)
        have "acked (A \<union> now n s') (a_dst ?a) (ae_Term (a_args ?a)) g (int l - 1)"
          unfolding acked_def
        proof (intro conjI allI impI)
          fix k assume k: "int k \<le> int l - 1" "has g k (ae_Term (a_args ?a))"
          have "has (rlog rf) k (ae_Term (a_args ?a))" using accepted(4,6) k by (intro has_take[of "l - 1" g, OF _ _ k(2)]) auto
          then show "(a_dst ?a, ae_Term (a_args ?a), k) \<in> A \<union> now n s'" using accepted(9) h(3) d(1) by (simp add: now_def)
        qed (use accepted(2) in simp)
        then have "acked (A \<union> now n s') (a_dst a) (ae_Term (a_args a)) g (ae_PrevLogIndex (a_args a) + int (length (ae_Entries (a_args a))))"
          using accepted(3) eq by simp
        from acked_grows[OF _ this movesD(6)[OF m] order_refl] accepted(1) eq show ?thesis by simp
      qed (use eq a in simp_all)
    next
      case (AppendResult k)
      then have "acalls s' = (acalls s)[k := (acalls s ! k)\<lparr>a_stage := ADone\<rparr>]"
        using movesD(10)[OF m] by (auto simp: Let_def bind_Some_iff split: if_splits astage.splits)
      then have "a = (acalls s ! k)\<lparr>a_stage := ADone\<rparr>" using False a(1) set_update_subset_insert[of "acalls s" k] by fastforce
      with a(2) show ?thesis by simp
    qed (use False a movesD(10)[OF m] in \<open>auto simp: Let_def bind_Some_iff case_prod_beta split: if_splits vstage.splits\<close>)
  qed (rule old)
qed

lemma match_step:
  assumes m: "moves n s e s' G G'" and inv: "match_inv n s G A"
  shows "match_inv n s' G' (A \<union> now n s')"
  unfolding match_inv_def
proof (intro conjI allI impI ballI)
  fix i j assume i: "i < n" "j < n" "rstate (srv s' i) = leader"
  let ?A = "A \<union> now n s'" let ?T = "currentTerm (srv s' i)"
  have kept: "acked ?A j ?T (rlog (srv s' i)) c"
    if l: "rstate (srv s i) = leader" and c: "acked A j (currentTerm (srv s i)) (rlog (srv s i)) c" for c
    using leader_log_grows[OF m i(1) l i(3)] acked_mono[OF c, of ?A] by auto
  from m i(1,3) show "acked ?A j ?T (rlog (srv s' i)) (matchIndex (srv s' i) ! j)"
  proof (cases rule: moves_match)
    case same
    with kept[OF same(1) match_invD(1)[OF inv i(1,2) same(1)]] show ?thesis by simp
  next
    case (reply a r)
    show ?thesis
    proof (cases "a_dst a = j")
      case True
      from match_invD(2)[OF inv reply(2,3,4)] obtain g where "G ?T = Some g"
          "acked A j ?T g (ae_PrevLogIndex (a_args a) + int (length (ae_Entries (a_args a))))" using reply(5) True by auto
      from acked_grows[OF this movesD(6)[OF m], of ?A] log_invD(4)[OF movesD(5)[OF m] i(1,3)] show ?thesis using reply(6,7) True by auto
    next
      case False
      with kept[OF reply(1) match_invD(1)[OF inv i(1,2) reply(1)]] reply(7) show ?thesis by simp
    qed
  next
    case new
    have "j < length (matchIndex (srv s' i))" using net_invD(3)[OF movesD(2)[OF m] i(1)] i(2) by (simp add: raft_wf_def)
    then have "matchIndex (srv s' i) ! j = 0" using new by simp
    then show ?thesis using acked_zero[OF tracedD(1)[OF log_invD(1)[OF movesD(5)[OF m] i(1)]]] by metis
  qed
next
  fix a reply assume "a \<in> set (acalls s')" "a_stage a = AHandled reply" "aer_Success reply"
  from handled_step[OF m inv this] show "\<exists>g. G' (ae_Term (a_args a)) = Some g \<and>
    acked (A \<union> now n s') (a_dst a) (ae_Term (a_args a)) g (ae_PrevLogIndex (a_args a) + int (length (ae_Entries (a_args a))))" .
qed

text \<open>How the commit index of a peer comes about.\<close>

lemma moves_commit:
  assumes m: "moves n s e s' G G'" and i: "i < n"
  obtains (same) h where "commitIndex (srv s' i) = commitIndex (srv s i)" "rlog (srv s' i) = rlog (srv s i) @ h"
  | (told) j args g l where "(j, i, args) \<in> sent s" "G (ae_Term args) = Some g" "l \<le> length g"
      "int l = ae_PrevLogIndex args + 1 + int (length (ae_Entries args))" "take l (rlog (srv s' i)) = take l g"
      "commitIndex (srv s' i) = min (ae_LeaderCommit args) (int (length (rlog (srv s' i))) - 1)" "ae_Term args = currentTerm (srv s' i)"
  | (counted) Q where "has_won (won s') i (currentTerm (srv s' i))" "commitIndex (srv s i) < commitIndex (srv s' i)"
      "has (rlog (srv s' i)) (nat (commitIndex (srv s' i))) (currentTerm (srv s' i))"
      "Q \<subseteq> {..<n}" "i \<notin> Q" "1 + card Q > n div 2" "\<forall>j\<in>Q. commitIndex (srv s' i) \<le> matchIndex (srv s' i) ! j"
proof -
  note inv = movesD(4)[OF m] and net = movesD(1)[OF m]
  have other: "commitIndex (srv s' i) = commitIndex (srv s i) \<and> (\<exists>h. rlog (srv s' i) = rlog (srv s i) @ h)"
    if "\<nexists>k. e = Append k" "\<nexists>k. e = AppendResult k"
    using that movesD(10)[OF m]
    by (cases e) (auto simp: Let_def bind_Some_iff case_prod_beta startElection_def RequestVoteReply_def RequestVote_reply_def
      resetElectionTimer_def applier_step_def Start_append_def split: if_splits vstage.splits)
  show thesis
  proof (cases e)
    case (Append k)
    let ?a = "acalls s ! k"
    obtain rf r where h: "RequestAppendEntriesReply (srv s (a_dst ?a)) (a_args ?a) = Some (rf, r)"
        "k < length (acalls s)" "srv s' = (srv s)(a_dst ?a := rf)"
      using movesD(10)[OF m] Append by (auto simp: Let_def bind_Some_iff split: if_splits)
    have d: "a_dst ?a < n" "args_wf (a_args ?a)" using calls_okD(4)[OF net_invD(2)[OF net]] h(2) by (auto simp: acall_ok_def)
    have sent: "(a_src ?a, a_dst ?a, a_args ?a) \<in> sent s" using h(2) by (auto simp: sent_def)
    show ?thesis
    proof (cases "a_dst ?a = i")
      case True
      from log_invD(1)[OF inv d(1)] log_invD(5)[OF inv sent] ledger_traced[OF inv] d(2) h(1) show ?thesis
      proof (cases rule: append_effect)
        case (accepted g l)
        from accepted(8) show ?thesis
          using accepted(1-5,9) sent h(3) True by (auto intro: same[of "[]"] told[of "a_src ?a" "a_args ?a" g l])
      qed (use True h(3) in \<open>auto intro: same[of "[]"]\<close>)
    qed (use h(3) in \<open>auto intro: same[of "[]"]\<close>)
  next
    case (AppendResult k)
    let ?a = "acalls s ! k"
    obtain rf r where h: "RequestHeartBeat_reply (srv s (a_src ?a)) (a_dst ?a) (a_args ?a) r = Some rf"
        "k < length (acalls s)" "srv s' = (srv s)(a_src ?a := rf)" "won s' = won s"
      using movesD(10)[OF m] AppendResult by (auto simp: Let_def bind_Some_iff split: if_splits astage.splits)
    have rl: "rlog rf = rlog (srv s (a_src ?a))" using h(1) by (auto elim!: RequestHeartBeat_reply_cases)
    show ?thesis
    proof (cases "a_src ?a = i")
      case True
      note wf = net_invD(3)[OF net i] and me = net_invD(4)[OF net i]
      have hw: "has_won (won s) i (ae_Term (a_args ?a))"
        using calls_okD(4)[OF net_invD(2)[OF net]] h(2) True by (auto simp: acall_ok_def)
      from h(1) show ?thesis
      proof (cases rule: reply_effect)
        case (counted Q)
        then show ?thesis using True h(3,4) hw wf me rl by (intro that(3)[of Q]) (auto simp: raft_wf_def has_def)
      qed (use True h(3) rl in \<open>auto intro: same[of "[]"]\<close>)
    qed (use h(3) in \<open>auto intro: same[of "[]"]\<close>)
  qed (use other same in blast)+
qed

lemma commit_invD:
  assumes "commit_inv n s G A"
  shows "i < n \<Longrightarrow> settled n G A (currentTerm (srv s i)) (rlog (srv s i)) (commitIndex (srv s i))"
    "(i, j, args) \<in> sent s \<Longrightarrow> ae_LeaderCommit args \<le> ae_PrevLogIndex args + int (length (ae_Entries args))"
    "(i, j, args) \<in> sent s \<Longrightarrow> \<exists>g. G (ae_Term args) = Some g \<and> settled n G A (ae_Term args) g (ae_LeaderCommit args)"
  using assms unfolding commit_inv_def by blast+

lemma settled_append: "settled n G A B lg c \<Longrightarrow> settled n G A B (lg @ h) c"
  by (rule settled_transfer) (auto simp: settled_def Suc_le_eq)

lemma heartbeat_reaches_end:
  assumes "RequestHeartBeat_args rf j = Some args" "1 \<le> nextIndex rf ! j" "commitIndex rf < int (length (rlog rf))"
  shows "ae_LeaderCommit args = commitIndex rf" "ae_Term args = currentTerm rf"
    "ae_LeaderCommit args \<le> ae_PrevLogIndex args + int (length (ae_Entries args))"
  using assms by (auto simp: RequestHeartBeat_args_def Let_def bind_Some_iff slice_simps split: if_splits)

lemma commit_peer:
  assumes m: "moves n s e s' G G'" and inv: "commit_inv n s G A" and ti: "tidy_inv n s' G'" and mi: "match_inv n s' G' A'"
    and A': "A' = A \<union> now n s'" and i: "i < n"
  shows "settled n G' A' (currentTerm (srv s' i)) (rlog (srv s' i)) (commitIndex (srv s' i))"
proof -
  have sub: "A \<subseteq> A'" by (simp add: A')
  note gr = movesD(6)[OF m]
  from m i show ?thesis
  proof (cases rule: moves_commit)
    case (same h)
    with settled_append[OF settled_mono[OF commit_invD(1)[OF inv i] gr sub movesD(11)[OF m]], of h] show ?thesis by simp
  next
    case (told j args g l)
    let ?c = "commitIndex (srv s' i)"
    have lc: "settled n G A (ae_Term args) g (ae_LeaderCommit args)" using commit_invD(3)[OF inv told(1)] told(2) by auto
    have "0 \<le> ?c" using net_invD(3)[OF movesD(2)[OF m] i] by (simp add: raft_wf_def)
    have s: "settled n G A (currentTerm (srv s' i)) g ?c" unfolding told(7)[symmetric] by (rule settled_le[OF lc \<open>0 \<le> ?c\<close>]) (simp add: told(6))
    have "Suc (nat ?c) \<le> l" using commit_invD(2)[OF inv told(1)] told(4,6) \<open>0 \<le> ?c\<close> by linarith
    then have "take (Suc (nat ?c)) g = take (Suc (nat ?c)) (rlog (srv s' i))" by (rule take_le[OF told(5)[symmetric]])
    from settled_transfer[OF settled_mono[OF s gr sub order_refl] this] show ?thesis .
  next
    case (counted Q)
    let ?T = "currentTerm (srv s' i)" let ?c = "commitIndex (srv s' i)"
    have l: "rstate (srv s' i) = leader" by (rule tidy_invD(4)[OF ti i counted(1)])
    have c: "0 \<le> ?c" using net_invD(3)[OF movesD(2)[OF m] i] by (simp add: raft_wf_def)
    have "(j, ?T, nat ?c) \<in> A'" if "j \<in> Q" for j
      using match_invD(1)[OF mi i _ l, of j] counted(3,4,7) that c by (auto simp: acked_def)
    moreover have "(i, ?T, nat ?c) \<in> A'" using counted(3) i by (simp add: A' now_def)
    moreover have "majority n (insert i Q)"
      using counted(4-6) i finite_subset[OF counted(4)] by (auto simp: majority_def)
    ultimately have "committed n A' ?T (nat ?c)" unfolding committed_def by blast
    moreover have "?c < int (length (rlog (srv s' i)))" using counted(3) by (auto simp: has_def)
    moreover have "?c \<le> int (nat ?c)" "?T \<le> ?T" by simp_all
    ultimately show ?thesis unfolding settled_def using counted(3) c log_invD(4)[OF movesD(5)[OF m] i l] by blast
  qed
qed

lemma commit_step:
  assumes m: "moves n s e s' G G'" and inv: "commit_inv n s G A" and ti: "tidy_inv n s' G'" and mi: "match_inv n s' G' (A \<union> now n s')"
  shows "commit_inv n s' G' (A \<union> now n s')"
  unfolding commit_inv_def
proof (intro conjI allI impI)
  fix i assume "i < n"
  with commit_peer[OF m inv ti mi refl] show "settled n G' (A \<union> now n s') (currentTerm (srv s' i)) (rlog (srv s' i)) (commitIndex (srv s' i))" by blast
next
  fix i j args assume a: "(i, j, args) \<in> sent s'"
  have "ae_LeaderCommit args \<le> ae_PrevLogIndex args + int (length (ae_Entries args)) \<and>
      (\<exists>g. G' (ae_Term args) = Some g \<and> settled n G' (A \<union> now n s') (ae_Term args) g (ae_LeaderCommit args))"
  proof (cases "(i, j, args) \<in> sent s")
    case True
    obtain g where g: "G (ae_Term args) = Some g" "settled n G A (ae_Term args) g (ae_LeaderCommit args)" using commit_invD(3)[OF inv True] by blast
    obtain h where "G' (ae_Term args) = Some (g @ h)" using g(1) movesD(6)[OF m] unfolding grows_def by blast
    with settled_append[OF settled_mono[OF g(2) movesD(6)[OF m] _ order_refl, of "A \<union> now n s'"], of h] commit_invD(2)[OF inv True] show ?thesis by blast
  next
    case False
    from movesD(1,10,7,8)[OF m] show ?thesis
    proof (cases rule: step_kinds)
      case (send p q args')
      then have e: "p = i" "q = j" "args' = args" using a False by auto
      note i = send(1)[unfolded e] and l = send(2)[unfolded e]
      have "commitIndex (srv s i) < int (length (rlog (srv s i)))" using net_invD(3)[OF movesD(1)[OF m] i] by (simp add: raft_wf_def)
      from heartbeat_reaches_end[OF send(3,4)[unfolded e] this] have h: "ae_LeaderCommit args = commitIndex (srv s i)"
          "ae_Term args = currentTerm (srv s i)" "ae_LeaderCommit args \<le> ae_PrevLogIndex args + int (length (ae_Entries args))" .
      have "G' (currentTerm (srv s i)) = Some (rlog (srv s i))" using log_invD(4)[OF movesD(5)[OF m] i] l send(5) by simp
      with settled_mono[OF commit_invD(1)[OF inv i] movesD(6)[OF m] _ order_refl, of "A \<union> now n s'"] h show ?thesis by simp
    qed (use a False in simp_all)
  qed
  then show "ae_LeaderCommit args \<le> ae_PrevLogIndex args + int (length (ae_Entries args))"
    "\<exists>g. G' (ae_Term args) = Some g \<and> settled n G' (A \<union> now n s') (ae_Term args) g (ae_LeaderCommit args)" by blast+
qed

section \<open>Proper runs keep the invariant\<close>

lemma safe_step:
  assumes inv: "safe_inv n s G A" and p: "proper s e" and e: "exec n s e = Some s'"
  shows "\<exists>G' A'. safe_inv n s' G' A' \<and> grows G G' \<and> A \<subseteq> A'"
proof -
  note d = safe_invD[OF inv]
  from log_inv_step[OF d(3,1) _ _ e] p obtain G' where G': "log_inv n s' G'" "grows G G'" by (auto simp: proper_def)
  have m: "moves n s e s' G G'" unfolding moves_def
    using d(1-3) G' p e net_inv_step[OF d(1) _ e] apart_step[OF d(2) e] by (simp add: proper_def)
  have "safe_inv n s' G' (A \<union> now n s')" unfolding safe_inv_def
    using m d tidy_step[OF m d(4)] ack_step[OF m d(5)] vote_step[OF m d(4-6)] won_step[OF m d(6,7)] match_step[OF m d(8)]
      commit_step[OF m d(9) tidy_step[OF m d(4)] match_step[OF m d(8)]] by (simp add: moves_def)
  with G'(2) show ?thesis by blast
qed

lemma grows_trans: "grows G G' \<Longrightarrow> grows G' G'' \<Longrightarrow> grows G G''"
  unfolding grows_def by (metis (no_types, lifting) UnE append.assoc set_append)

lemma safe_steps:
  assumes "steps n s s'" "safe_inv n s G A"
  shows "\<exists>G' A'. safe_inv n s' G' A' \<and> grows G G' \<and> A \<subseteq> A'"
  using assms(1)
proof (induction rule: steps.induct)
  case steps_refl
  with assms(2) grows_refl show ?case by blast
next
  case (steps_next s1 e s2)
  then obtain G1 A1 where 1: "safe_inv n s1 G1 A1" "grows G G1" "A \<subseteq> A1" by blast
  from safe_step[OF 1(1) steps_next(2,3)] obtain G2 A2 where "safe_inv n s2 G2 A2" "grows G1 G2" "A1 \<subseteq> A2" by blast
  with 1 grows_trans show ?case by blast
qed

lemma safe_start: "safe_inv n (start_sys n) (\<lambda>_. None) {}"
proof -
  have "now n (start_sys n) = {}" by (auto simp: now_def start_sys_def has_def Make_def readPersist_def)
  then show ?thesis
    using net_inv_start[of n] log_inv_start[of n]
    by (simp add: safe_inv_def apart_def sent_def tidy_inv_def ack_inv_def vote_inv_def won_inv_def match_inv_def commit_inv_def
        start_sys_def tidy_def has_won_def settled_def Make_def readPersist_def)
qed

section \<open>State machine safety\<close>

text \<open>Logs agree on what has ever been committed, at the same peer or at another, at the same time or later.\<close>

lemma committed_prefix:
  assumes r: "steps n (start_sys n) s" "steps n s s'" and i: "i < n" "j < n"
    and c: "0 \<le> c" "c \<le> commitIndex (srv s i)" "c \<le> commitIndex (srv s' j)"
  shows "take (Suc (nat c)) (rlog (srv s i)) = take (Suc (nat c)) (rlog (srv s' j))" "nat c < length (rlog (srv s i))"
proof -
  from safe_steps[OF r(1) safe_start] obtain G A where 1: "safe_inv n s G A" by blast
  from safe_steps[OF r(2) 1] obtain G' A' where 2: "safe_inv n s' G' A'" "grows G G'" "A \<subseteq> A'" by blast
  have s: "settled n G A (currentTerm (srv s i)) (rlog (srv s i)) c" by (rule settled_le[OF commit_invD(1)[OF safe_invD(9)[OF 1] i(1)] c(1,2)])
  have s': "settled n G' A' (currentTerm (srv s' j)) (rlog (srv s' j)) c" by (rule settled_le[OF commit_invD(1)[OF safe_invD(9)[OF 2(1)] i(2)] c(1,3)])
  have "traced G' (rlog (srv s i))" by (rule traced_grows[OF log_invD(1)[OF safe_invD(3)[OF 1] i(1)] 2(2)])
  from settled_agree[OF 2(1) this log_invD(1)[OF safe_invD(3)[OF 2(1)] i(2)] settled_mono[OF s 2(2,3) order_refl] s']
  show "take (Suc (nat c)) (rlog (srv s i)) = take (Suc (nat c)) (rlog (srv s' j))" .
  show "nat c < length (rlog (srv s i))" using s by (auto simp: settled_def)
qed

lemma steps_reachable: "steps n (start_sys n) s \<Longrightarrow> reachable n s"
  by (induction rule: steps.induct) (auto intro: reachable.intros simp: proper_def)

lemma applied_command:
  assumes "raft_wf n rf" "applier_step rf = Some (rf', Some msg)"
  shows "0 \<le> CommandIndex msg" "CommandIndex msg \<le> commitIndex rf" "Command msg = Entry (rlog rf ! nat (CommandIndex msg))"
  using assms applier_step_total[OF assms(1)] by (auto simp: raft_wf_def)

text \<open>
  \<^bold>\<open>C2\<close>. State machine safety: over any run of the peers in which requests and replies are lost, delayed
  and reordered, whatever command the applier of one peer delivers at an index, the applier of every
  peer delivers the same one there, at that time or later; the run must be timely, keep nextIndex
  above zero, and elect no peer with match indices left over from an earlier lead.
\<close>

theorem state_machine_safety:
  assumes "steps n (start_sys n) s" "steps n s s'" "i < n" "j < n"
    and "applier_step (srv s i) = Some (rf1, Some msg1)" "applier_step (srv s' j) = Some (rf2, Some msg2)"
    and "CommandIndex msg1 = CommandIndex msg2"
  shows "Command msg1 = Command msg2"
proof -
  have "steps n (start_sys n) s'" using assms(2,1) by (induction rule: steps.induct) (auto intro: steps.intros)
  note wf = net_invD(3)[OF reachable_inv[OF steps_reachable[OF assms(1)]] assms(3)]
    net_invD(3)[OF reachable_inv[OF steps_reachable[OF this]] assms(4)]
  note a = applied_command[OF wf(1) assms(5)] applied_command[OF wf(2) assms(6)]
  let ?c = "nat (CommandIndex msg1)"
  have "take (Suc ?c) (rlog (srv s i)) = take (Suc ?c) (rlog (srv s' j))"
    by (rule committed_prefix(1)[OF assms(1-4) a(1,2)]) (use a(5) assms(7) in simp)
  then have "rlog (srv s i) ! ?c = rlog (srv s' j) ! ?c" by (metis lessI nth_take)
  with a(3,6) assms(7) show ?thesis by simp
qed

fun proper_run :: "nat \<Rightarrow> 'c sys \<Rightarrow> 'c ev list \<Rightarrow> bool" where
  "proper_run n s [] = True"
| "proper_run n s (e # es) = (timely s e \<and> in_range s e \<and> fresh s e \<and>
     (case exec n s e of None \<Rightarrow> False | Some s' \<Rightarrow> proper_run n s' es))"

lemma steps_trans: "steps n s' s'' \<Longrightarrow> steps n s s' \<Longrightarrow> steps n s s''"
  by (induction rule: steps.induct) (auto intro: steps.intros)

lemma run_steps:
  "proper_run n s es \<Longrightarrow> \<exists>s'. run_sys n s es = Some s' \<and> steps n s s'"
proof (induction es arbitrary: s)
  case (Cons e es)
  then obtain s1 where s1: "exec n s e = Some s1" "proper s e" "proper_run n s1 es" by (auto simp: proper_def split: option.splits)
  from Cons.IH[OF s1(3)] obtain s' where "run_sys n s1 es = Some s'" "steps n s1 s'" by blast
  then show ?case using s1(1) steps_trans[OF _ steps_next[OF steps_refl s1(2,1)]] by auto
qed (auto intro: steps_refl)

lemma run_sys_append: "run_sys n s (es @ fs) = Option.bind (run_sys n s es) (\<lambda>s. run_sys n s fs)"
  by (induction es arbitrary: s) (auto split: bind_splits)

lemma proper_run_append: "proper_run n s (es @ fs) \<longleftrightarrow> proper_run n s es \<and>
    (case run_sys n s es of None \<Rightarrow> False | Some s' \<Rightarrow> proper_run n s' fs)"
  by (induction es arbitrary: s) (auto split: option.splits bind_splits)

text \<open>Peer 0 has committed and applies; after the next heartbeat peer 1 applies the same.\<close>

lemma first_commit_run:
  "proper_run 3 (start_sys 3) (first_command @ [Send 0, Append 1])"
  "map_option (\<lambda>s. map_option snd (applier_step (srv s 0))) (run_sys 3 (start_sys 3) first_command) =
     Some (Some (Some \<lparr>CommandValid = True, Command = Some 7, CommandIndex = 1\<rparr>))"
  "map_option (\<lambda>s. map_option snd (applier_step (srv s 1))) (run_sys 3 (start_sys 3) (first_command @ [Send 0, Append 1])) =
     Some (Some (Some \<lparr>CommandValid = True, Command = Some 7, CommandIndex = 1\<rparr>))"
  unfolding first_command_def first_election_def by code_simp+

theorem state_machine_safety_witness:
  "\<exists>(s :: nat sys) s' rf1 rf2 msg1 msg2. steps 3 (start_sys 3) s \<and> steps 3 s s' \<and>
     applier_step (srv s 0) = Some (rf1, Some msg1) \<and> applier_step (srv s' 1) = Some (rf2, Some msg2) \<and>
     CommandIndex msg1 = 1 \<and> CommandIndex msg2 = 1 \<and> Command msg1 = Command msg2"
proof -
  obtain s :: "nat sys" where s: "run_sys 3 (start_sys 3) first_command = Some s" "steps 3 (start_sys 3) s"
      "proper_run 3 s [Send 0, Append 1]"
    using first_commit_run(1) run_steps[of 3 "start_sys 3" first_command] unfolding proper_run_append by (auto split: option.splits)
  from run_steps[OF s(3)] obtain s' where s': "run_sys 3 s [Send 0, Append 1] = Some s'" "steps 3 s s'" by blast
  have r: "run_sys 3 (start_sys 3) (first_command @ [Send 0, Append 1]) = Some s'" using s(1) s'(1) by (simp add: run_sys_append)
  obtain rf1 msg1 where 1: "applier_step (srv s 0) = Some (rf1, Some msg1)" "CommandIndex msg1 = 1"
    using first_commit_run(2) s(1) by auto
  obtain rf2 msg2 where 2: "applier_step (srv s' 1) = Some (rf2, Some msg2)" "CommandIndex msg2 = 1"
    using first_commit_run(3) r by auto
  from state_machine_safety[OF s(2) s'(2) _ _ 1(1) 2(1)] 1(2) 2(2) have "Command msg1 = Command msg2" by simp
  with s(2) s'(2) 1 2 show ?thesis by blast
qed

text \<open>
  \<^bold>\<open>C4\<close>. Leader completeness, over runs from the initial state that are timely, send heartbeats only from a
  nextIndex of at least one, and elect no peer with match indices left over from an earlier lead: a
  peer that leads a term at least as high as the term in which another peer has a commit index holds
  the committed entries of that peer, in the same places, at that time and in every later state of
  such a run.
\<close>

theorem leaders_have_committed:
  assumes "steps n (start_sys n) s" "steps n s s'" "i < n" "j < n"
    and "int k \<le> commitIndex (srv s i)" "rstate (srv s' j) = leader" "currentTerm (srv s i) \<le> currentTerm (srv s' j)"
  shows "k < length (rlog (srv s' j)) \<and> take (Suc k) (rlog (srv s' j)) = take (Suc k) (rlog (srv s i))"
proof -
  from safe_steps[OF assms(1) safe_start] obtain G A where 1: "safe_inv n s G A" by blast
  from safe_steps[OF assms(2) 1] obtain G' A' where 2: "safe_inv n s' G' A'" "grows G G'" "A \<subseteq> A'" by blast
  let ?U = "currentTerm (srv s' j)"
  have "settled n G' A' ?U (rlog (srv s i)) (int k)"
    by (rule settled_mono[OF settled_le[OF commit_invD(1)[OF safe_invD(9)[OF 1] assms(3)] _ assms(5)] 2(2,3) assms(7)]) simp
  moreover note log_invD(4)[OF safe_invD(3)[OF 2(1)] assms(4,6)]
  moreover have "traced G' (rlog (srv s i))" "traced G' (rlog (srv s' j))"
    using traced_grows[OF log_invD(1)[OF safe_invD(3)[OF 1] assms(3)] 2(2)] log_invD(1)[OF safe_invD(3)[OF 2(1)] assms(4)] by simp_all
  ultimately show ?thesis by (rule settled_in_leader[OF 2(1)])
qed

theorem leaders_have_committed_witness:
  "\<exists>s s' :: nat sys. steps 3 (start_sys 3) s \<and> steps 3 s s' \<and> commitIndex (srv s 0) = 1 \<and> rstate (srv s' 1) = leader \<and>
     currentTerm (srv s' 1) = 2 \<and> take 2 (rlog (srv s' 1)) = take 2 (rlog (srv s 0))"
proof -
  have r: "proper_run 3 (start_sys 3) (first_command @ [Timeout 1, Campaign 0, VoteRequest 1 2, VoteResult 1 2])"
      "map_option (\<lambda>s. (commitIndex (srv s 0), currentTerm (srv s 0))) (run_sys 3 (start_sys 3) first_command) = Some (1, 1)"
      "map_option (\<lambda>s. (rstate (srv s 1), currentTerm (srv s 1)))
        (run_sys 3 (start_sys 3) (first_command @ [Timeout 1, Campaign 0, VoteRequest 1 2, VoteResult 1 2])) = Some (leader, 2)"
    unfolding first_command_def first_election_def by code_simp+
  obtain s :: "nat sys" where s: "run_sys 3 (start_sys 3) first_command = Some s" "steps 3 (start_sys 3) s"
      "proper_run 3 s [Timeout 1, Campaign 0, VoteRequest 1 2, VoteResult 1 2]"
    using r(1) run_steps[of 3 "start_sys 3" first_command] unfolding proper_run_append by (auto split: option.splits)
  from run_steps[OF s(3)] obtain s' where s': "run_sys 3 s [Timeout 1, Campaign 0, VoteRequest 1 2, VoteResult 1 2] = Some s'" "steps 3 s s'" by blast
  have c: "commitIndex (srv s 0) = 1" "currentTerm (srv s 0) = 1" using r(2) s(1) by simp_all
  have l: "rstate (srv s' 1) = leader" "currentTerm (srv s' 1) = 2"
    using r(3) s(1) s'(1) unfolding run_sys_append by simp_all
  from leaders_have_committed[OF s(2) s'(2), of 0 1 1] c l have "take 2 (rlog (srv s' 1)) = take 2 (rlog (srv s 0))"
    by (simp add: numeral_2_eq_2)
  with s(2) s'(2) c(1) l show ?thesis by blast
qed

text \<open>
  A peer that leads for the second time counts match indices of its first leadership: peer 1 has
  acknowledged index 2 in term 1 and lost it since, and peer 0 commits index 2 in term 3 with it.
\<close>

definition stale_match :: "nat ev list" where
  "stale_match =
     [Timeout 0, Campaign 0, VoteRequest 0 1, VoteRequest 0 2, VoteResult 0 1, VoteResult 0 2, Submit 0 10,
      SubmitAppend 0, Submit 0 11, SubmitAppend 0, Send 0, Append 0, AppendResult 0, Timeout 2, Campaign 0,
      VoteRequest 1 3, VoteRequest 1 4, VoteResult 1 3, VoteResult 1 4, Submit 2 20, SubmitAppend 0, Send 11,
      Append 1, Timeout 0, Campaign 0, VoteRequest 2 3, VoteRequest 2 2, VoteResult 2 3, VoteResult 2 2, Submit
      0 30, SubmitAppend 0, Send 1, Append 2, AppendResult 2, Send 4, Append 3, AppendResult 3, Timeout 2,
      Campaign 0, VoteRequest 3 1, VoteRequest 3 4, VoteResult 3 1, VoteResult 3 4, Submit 2 40, SubmitAppend
      0, Send 9, Append 4, AppendResult 4, Send 12, Append 5, AppendResult 5, Send 10, Append 6, AppendResult
      6, Send 12, Append 7, AppendResult 7]"

text \<open>
  \<^bold>\<open>C38\<close>. A new leader keeps the match indices of its earlier lead: a timely run of five peers, with
  nextIndex in range, ends with two peers that have committed different commands at index 2.
\<close>

theorem stale_match_two_values:
  "orderly_run 5 (start_sys 5) stale_match \<and>
   map_option (\<lambda>s. (commitIndex (srv s 0), rlog (srv s 0) ! 2, commitIndex (srv s 2), rlog (srv s 2) ! 2))
     (run_sys 5 (start_sys 5) stale_match) =
     Some (2, \<lparr>Entry = Some 30, LogTerm = 3\<rparr>, 2, \<lparr>Entry = Some 40, LogTerm = 4\<rparr>)"
  unfolding stale_match_def by code_simp

end
