(* ===== verification/LabRPC.thy ===== *)
theory LabRPC
  imports Persister
begin

text \<open>
  The simulated network of \<^verbatim>\<open>labrpc/labrpc.go\<close>.  Names of ends and servers are values of a type \<open>'n\<close>
  (\<^verbatim>\<open>interface{}\<close> in the source).  A \<^verbatim>\<open>*Server\<close> is an address: \<^verbatim>\<open>isServerDead\<close> compares pointers, and
  \<^verbatim>\<open>AddServer\<close> can put a new server under an old name.  The servers themselves are the store
  \<open>addr \<Rightarrow> 'o server\<close>, with \<open>'o\<close> the state of the object behind the services.

  \<^verbatim>\<open>processReq\<close> runs in a goroutine and looks at the network at several moments: once at the
  start, at every tick of its 100 ms timer, and once before it replies.  Each of these is a
  function of the network as it is then.  Random numbers are arguments: \<open>rand_Int\<close> stands for the
  non-negative value of \<^verbatim>\<open>rand.Int()\<close>, and \<open>Intn n d\<close> for \<^verbatim>\<open>rand.Intn(n)\<close>.  A call of \<^verbatim>\<open>log.Fatalf\<close> or a
  panic is \<open>None\<close>.  The encoding of arguments and replies happens inside the handlers of a service.
\<close>

section \<open>Messages, services and servers\<close>

type_synonym saddr = nat

record 'n reqMsg =
  req_endname :: 'n
  req_svcMeth :: string
  req_args :: "byte list"

record replyMsg =
  rep_ok :: bool
  rep_reply :: "byte list"

definition no_reply :: replyMsg where
  "no_reply = \<lparr>rep_ok = False, rep_reply = []\<rparr>"

text \<open>
  A handler decodes its argument, runs the method on the object and encodes the reply; \<open>None\<close> when
  the method panics.
\<close>

type_synonym 'o handler = "'o \<Rightarrow> byte list \<Rightarrow> ('o \<times> byte list) option"

record 'o service =
  svc_name :: string
  svc_methods :: "string \<rightharpoonup> 'o handler"

text \<open>What \<^verbatim>\<open>reflect\<close> tells of a method of the receiver; \<open>m_in\<close> says of each parameter whether it is a pointer.\<close>

record 'o rmethod =
  m_Name :: string
  m_PkgPath :: string
  m_in :: "bool list"
  m_NumOut :: nat
  m_Func :: "'o handler"

definition suitable :: "'o rmethod \<Rightarrow> bool" where
  "suitable m = (\<not> (m_PkgPath m \<noteq> '''' \<or> length (m_in m) \<noteq> 3 \<or> \<not> (m_in m ! 2) \<or> m_NumOut m \<noteq> 0))"

definition MakeService :: "string \<Rightarrow> 'o rmethod list \<Rightarrow> 'o service" where
  "MakeService typename ms = \<lparr>svc_name = typename,
     svc_methods = foldl (\<lambda>mm m. if suitable m then mm(m_Name m \<mapsto> m_Func m) else mm) Map.empty ms\<rparr>"

definition Service_dispatch :: "'o service \<Rightarrow> string \<Rightarrow> 'n reqMsg \<Rightarrow> 'o \<Rightarrow> ('o \<times> replyMsg) option" where
  "Service_dispatch svc methname req obj = do {
     method \<leftarrow> svc_methods svc methname;
     (obj, reply) \<leftarrow> method obj (req_args req);
     Some (obj, \<lparr>rep_ok = True, rep_reply = reply\<rparr>) }"

record 'o server =
  srv_services :: "string \<rightharpoonup> 'o service"
  srv_count :: int
  srv_obj :: 'o

definition MakeServer :: "'o \<Rightarrow> 'o server" where
  "MakeServer obj = \<lparr>srv_services = Map.empty, srv_count = 0, srv_obj = obj\<rparr>"

definition AddService :: "'o server \<Rightarrow> 'o service \<Rightarrow> 'o server" where
  "AddService rs svc = rs\<lparr>srv_services := (srv_services rs)(svc_name svc \<mapsto> svc)\<rparr>"

definition Server_GetCount :: "'o server \<Rightarrow> int" where
  "Server_GetCount rs = srv_count rs"

text \<open>\<^verbatim>\<open>strings.LastIndex(s, ".")\<close>, and the two slices of \<^verbatim>\<open>dispatch\<close>; without a dot the slice \<^verbatim>\<open>[:-1]\<close> panics.\<close>

fun LastIndex_dot :: "nat \<Rightarrow> string \<Rightarrow> int \<Rightarrow> int" where
  "LastIndex_dot i [] idx = idx"
| "LastIndex_dot i (c # s) idx = LastIndex_dot (i + 1) s (if c = CHR ''.'' then int i else idx)"

definition split_svcMeth :: "string \<Rightarrow> (string \<times> string) option" where
  "split_svcMeth s = do {
     let dot = LastIndex_dot 0 s (-1);
     serviceName \<leftarrow> slice_to s dot;
     methodName \<leftarrow> slice_from s (dot + 1);
     Some (serviceName, methodName) }"

definition Server_dispatch :: "'o server \<Rightarrow> 'n reqMsg \<Rightarrow> ('o server \<times> replyMsg) option" where
  "Server_dispatch rs req = do {
     let rs = rs\<lparr>srv_count := srv_count rs + 1\<rparr>;
     (serviceName, methodName) \<leftarrow> split_svcMeth (req_svcMeth req);
     service \<leftarrow> srv_services rs serviceName;
     (obj, reply) \<leftarrow> Service_dispatch service methodName req (srv_obj rs);
     Some (rs\<lparr>srv_obj := obj\<rparr>, reply) }"

section \<open>The network\<close>

record 'n network =
  net_reliable :: bool
  net_longDelays :: bool
  net_longReordering :: bool
  net_ends :: "'n set"
  net_enabled :: "'n \<Rightarrow> bool"
  net_servers :: "'n \<Rightarrow> saddr option"
  net_connections :: "'n \<Rightarrow> 'n option"
  net_done :: bool
  net_count :: "32 word"
  net_bytes :: "64 word"

definition MakeNetwork :: "'n network" where
  "MakeNetwork = \<lparr>net_reliable = True, net_longDelays = False, net_longReordering = False, net_ends = {},
     net_enabled = (\<lambda>_. False), net_servers = (\<lambda>_. None), net_connections = (\<lambda>_. None), net_done = False,
     net_count = 0, net_bytes = 0\<rparr>"

text \<open>The body of the goroutine that receives from \<^verbatim>\<open>endCh\<close>, up to the start of \<^verbatim>\<open>processReq\<close>.\<close>

definition receive :: "'n network \<Rightarrow> 'n reqMsg \<Rightarrow> 'n network" where
  "receive rn xreq =
    rn\<lparr>net_count := net_count rn + 1, net_bytes := net_bytes rn + of_nat (length (req_args xreq))\<rparr>"

text \<open>Closing a closed channel panics.\<close>

definition Cleanup :: "'n network \<Rightarrow> 'n network option" where
  "Cleanup rn = (if net_done rn then None else Some (rn\<lparr>net_done := True\<rparr>))"

definition Reliable :: "'n network \<Rightarrow> bool \<Rightarrow> 'n network" where
  "Reliable rn yes = rn\<lparr>net_reliable := yes\<rparr>"

definition LongReordering :: "'n network \<Rightarrow> bool \<Rightarrow> 'n network" where
  "LongReordering rn yes = rn\<lparr>net_longReordering := yes\<rparr>"

definition LongDelays :: "'n network \<Rightarrow> bool \<Rightarrow> 'n network" where
  "LongDelays rn yes = rn\<lparr>net_longDelays := yes\<rparr>"

definition MakeEnd :: "'n network \<Rightarrow> 'n \<Rightarrow> 'n network option" where
  "MakeEnd rn endname = (if endname \<in> net_ends rn then None
     else Some (rn\<lparr>net_ends := insert endname (net_ends rn), net_enabled := (net_enabled rn)(endname := False),
                   net_connections := (net_connections rn)(endname := None)\<rparr>))"

definition AddServer :: "'n network \<Rightarrow> 'n \<Rightarrow> saddr \<Rightarrow> 'n network" where
  "AddServer rn servername rs = rn\<lparr>net_servers := (net_servers rn)(servername := Some rs)\<rparr>"

definition DeleteServer :: "'n network \<Rightarrow> 'n \<Rightarrow> 'n network" where
  "DeleteServer rn servername = rn\<lparr>net_servers := (net_servers rn)(servername := None)\<rparr>"

definition Connect :: "'n network \<Rightarrow> 'n \<Rightarrow> 'n \<Rightarrow> 'n network" where
  "Connect rn endname servername = rn\<lparr>net_connections := (net_connections rn)(endname := Some servername)\<rparr>"

definition Enable :: "'n network \<Rightarrow> 'n \<Rightarrow> bool \<Rightarrow> 'n network" where
  "Enable rn endname enabled = rn\<lparr>net_enabled := (net_enabled rn)(endname := enabled)\<rparr>"

text \<open>A deleted server is a nil pointer, on which \<^verbatim>\<open>GetCount\<close> panics.\<close>

definition GetCount :: "'n network \<Rightarrow> (saddr \<Rightarrow> 'o server) \<Rightarrow> 'n \<Rightarrow> int option" where
  "GetCount rn store servername = map_option (\<lambda>a. Server_GetCount (store a)) (net_servers rn servername)"

definition GetTotalCount :: "'n network \<Rightarrow> int" where
  "GetTotalCount rn = sint (net_count rn)"

definition GetTotalBytes :: "'n network \<Rightarrow> int" where
  "GetTotalBytes rn = sint (net_bytes rn)"

section \<open>One request\<close>

record 'n endinfo =
  ei_enabled :: bool
  ei_servername :: "'n option"
  ei_server :: "saddr option"
  ei_reliable :: bool
  ei_longreordering :: bool

definition readEndnameInfo :: "'n network \<Rightarrow> 'n \<Rightarrow> 'n endinfo" where
  "readEndnameInfo rn endname = \<lparr>ei_enabled = net_enabled rn endname, ei_servername = net_connections rn endname,
     ei_server = Option.bind (net_connections rn endname) (net_servers rn), ei_reliable = net_reliable rn,
     ei_longreordering = net_longReordering rn\<rparr>"

definition isServerDead :: "'n network \<Rightarrow> 'n \<Rightarrow> 'n \<Rightarrow> saddr \<Rightarrow> bool" where
  "isServerDead rn endname servername server =
    (\<not> net_enabled rn endname \<or> net_servers rn servername \<noteq> Some server)"

definition Intn :: "nat \<Rightarrow> nat \<Rightarrow> nat" where
  "Intn n d = d mod n"

text \<open>The random draws of one request, in the order of the source; each is any natural number.\<close>

record draws =
  d_delay :: nat
  d_drop :: nat
  d_dropreply :: nat
  d_reorder :: nat
  d_spread :: nat
  d_long :: nat
  d_lost :: nat

text \<open>A reply that goes out after \<open>dv_ms\<close> milliseconds, and how much it adds to the byte count then.\<close>

record delivery =
  dv_msg :: replyMsg
  dv_ms :: nat
  dv_bytes :: nat

text \<open>
  The part of \<^verbatim>\<open>processReq\<close> before the handler is started: a failure to deliver, or the server to
  run it on with the sleep before.
\<close>

definition processReq_begin :: "'n network \<Rightarrow> 'n reqMsg \<Rightarrow> draws \<Rightarrow> delivery + (nat \<times> 'n \<times> saddr \<times> bool \<times> bool)" where
  "processReq_begin rn req d =
    (let ei = readEndnameInfo rn (req_endname req)
     in case (ei_enabled ei, ei_servername ei, ei_server ei) of
          (True, Some servername, Some server) \<Rightarrow>
            (let ms = (if \<not> ei_reliable ei then d_delay d mod 27 else 0)
             in if \<not> ei_reliable ei \<and> d_drop d mod 1000 < 100
                then Inl \<lparr>dv_msg = no_reply, dv_ms = ms, dv_bytes = 0\<rparr>
                else Inr (ms, servername, server, ei_reliable ei, ei_longreordering ei))
        | _ \<Rightarrow> Inl \<lparr>dv_msg = no_reply, dv_ms = (if net_longDelays rn then d_lost d mod 7000 else d_lost d mod 100),
                    dv_bytes = 0\<rparr>)"

text \<open>
  The loop that waits for the handler: it sees the result, or a tick of its timer with the
  network at that moment.  \<open>None\<close> says that it still waits, \<open>Some None\<close> that it has given up.  The
  handler runs in a goroutine of its own; the reply in \<open>Returned\<close> is what \<open>Server_dispatch\<close> gives for the
  server at the time it runs, and is left open here.
\<close>

datatype 'n wait = Returned replyMsg | Tick "'n network"

fun wait_loop :: "'n \<Rightarrow> 'n \<Rightarrow> saddr \<Rightarrow> 'n wait list \<Rightarrow> replyMsg option option" where
  "wait_loop endname servername server [] = None"
| "wait_loop endname servername server (Returned r # ws) = Some (Some r)"
| "wait_loop endname servername server (Tick rn # ws) =
    (if isServerDead rn endname servername server then Some None else wait_loop endname servername server ws)"

definition processReq_end :: "'n network \<Rightarrow> 'n reqMsg \<Rightarrow> draws \<Rightarrow> 'n \<Rightarrow> saddr \<Rightarrow> bool \<Rightarrow> bool \<Rightarrow> replyMsg option \<Rightarrow> delivery" where
  "processReq_end rn req d servername server reliable longreordering replied =
    (let serverDead = isServerDead rn (req_endname req) servername server
     in case replied of
          None \<Rightarrow> \<lparr>dv_msg = no_reply, dv_ms = 0, dv_bytes = 0\<rparr>
        | Some reply \<Rightarrow>
            if serverDead then \<lparr>dv_msg = no_reply, dv_ms = 0, dv_bytes = 0\<rparr>
            else if \<not> reliable \<and> d_dropreply d mod 1000 < 100 then \<lparr>dv_msg = no_reply, dv_ms = 0, dv_bytes = 0\<rparr>
            else if longreordering \<and> Intn 900 (d_reorder d) < 600
              then \<lparr>dv_msg = reply, dv_ms = 200 + Intn (1 + Intn 2000 (d_spread d)) (d_long d), dv_bytes = length (rep_reply reply)\<rparr>
            else \<lparr>dv_msg = reply, dv_ms = 0, dv_bytes = length (rep_reply reply)\<rparr>)"

text \<open>
  \<^verbatim>\<open>processReq\<close> as a whole, given what it sees: the network at the start, the events of its wait, the
  network at the end.  \<open>None\<close> says that it has not finished.
\<close>

definition processReq :: "'n network \<Rightarrow> 'n reqMsg \<Rightarrow> draws \<Rightarrow> 'n wait list \<Rightarrow> 'n network \<Rightarrow> delivery option" where
  "processReq rn req d ws rn' =
    (case processReq_begin rn req d of
       Inl dv \<Rightarrow> Some dv
     | Inr (ms, servername, server, reliable, longreordering) \<Rightarrow> do {
         replied \<leftarrow> wait_loop (req_endname req) servername server ws;
         Some (processReq_end rn' req d servername server reliable longreordering replied) })"

text \<open>
  \<^verbatim>\<open>Call\<close>.  Once the network has been cleaned up its \<^verbatim>\<open>select\<close> may take the branch of \<^verbatim>\<open>done\<close>, which is the
  argument \<open>pick\<close>; the receiving goroutine may still take the request instead.
\<close>

definition Call :: "'n network \<Rightarrow> bool \<Rightarrow> 'n reqMsg \<Rightarrow> draws \<Rightarrow> 'n wait list \<Rightarrow> 'n network \<Rightarrow> (bool \<times> byte list) option" where
  "Call rn pick req d ws rn' =
    (if net_done rn \<and> pick then Some (False, [])
     else do {
       dv \<leftarrow> processReq (receive rn req) req d ws rn';
       Some (if rep_ok (dv_msg dv) then (True, rep_reply (dv_msg dv)) else (False, [])) })"

section \<open>Lemmas\<close>

lemma isServerDead_False: "\<not> isServerDead rn e s a \<longleftrightarrow> net_enabled rn e \<and> net_servers rn s = Some a"
  by (simp add: isServerDead_def)

lemma processReq_begin_Inr:
  assumes "processReq_begin rn req d = Inr (ms, servername, server, reliable, longreordering)"
  shows "net_enabled rn (req_endname req)" "net_connections rn (req_endname req) = Some servername"
    "net_servers rn servername = Some server" "reliable = net_reliable rn" "longreordering = net_longReordering rn"
    "ms < 27" "reliable \<longrightarrow> ms = 0"
  using assms by (auto simp: processReq_begin_def readEndnameInfo_def Let_def bind_Some_iff split: bool.splits option.splits if_splits)

lemma processReq_begin_Inl:
  "processReq_begin rn req d = Inl dv \<Longrightarrow> dv_msg dv = no_reply \<and> dv_bytes dv = 0 \<and> dv_ms dv < 7000"
  by (auto simp: processReq_begin_def readEndnameInfo_def Let_def split: bool.splits option.splits if_splits)

lemma processReq_begin_ready:
  assumes "net_enabled rn (req_endname req)" "net_connections rn (req_endname req) = Some servername"
    "net_servers rn servername = Some server" "net_reliable rn"
  shows "processReq_begin rn req d = Inr (0, servername, server, True, net_longReordering rn)"
  using assms by (simp add: processReq_begin_def readEndnameInfo_def Let_def)

lemma wait_loop_Some: "wait_loop e s a ws = Some (Some r) \<Longrightarrow> Returned r \<in> set ws"
  by (induction ws rule: wait_loop.induct) (auto split: if_splits)

lemma wait_loop_alive:
  assumes "Returned r \<in> set ws" "\<forall>rn1. Tick rn1 \<in> set ws \<longrightarrow> \<not> isServerDead rn1 e s a" "\<forall>r'. Returned r' \<in> set ws \<longrightarrow> r' = r"
  shows "wait_loop e s a ws = Some (Some r)"
  using assms
proof (induction ws)
  case (Cons w ws)
  show ?case
  proof (cases w)
    case (Returned r')
    then have "r' = r" using Cons.prems(3) by (metis list.set_intros(1))
    with Returned show ?thesis by simp
  next
    case (Tick rn1)
    then have "\<not> isServerDead rn1 e s a" using Cons.prems(2) by (metis list.set_intros(1))
    moreover have "wait_loop e s a ws = Some (Some r)"
      by (rule Cons.IH) (use Cons.prems Tick in \<open>metis list.set_intros(2) set_ConsD wait.distinct(1)\<close>)+
    ultimately show ?thesis using Tick by simp
  qed
qed simp

lemma processReq_end_ok:
  assumes "rep_ok (dv_msg (processReq_end rn' req d servername server reliable longreordering replied))"
  shows "replied = Some (dv_msg (processReq_end rn' req d servername server reliable longreordering replied))"
    "\<not> isServerDead rn' (req_endname req) servername server"
  using assms by (auto simp: processReq_end_def no_reply_def Let_def split: option.splits if_splits)

lemma processReq_end_ms:
  "dv_ms (processReq_end rn' req d servername server reliable longreordering replied) < 2200"
proof -
  have "200 + Intn (1 + Intn 2000 x) y < 2200" for x y
    using mod_less_divisor[of "1 + x mod 2000" y] mod_less_divisor[of 2000 x] unfolding Intn_def by linarith
  then show ?thesis by (auto simp: processReq_end_def Let_def split: option.splits)
qed

lemma LastIndex_dot_append:
  "LastIndex_dot i (xs @ CHR ''.'' # ys) idx = (if CHR ''.'' \<in> set ys then LastIndex_dot (i + length xs + 1) ys 0 else int (i + length xs))"
proof (induction xs arbitrary: i idx)
  case Nil
  have none: "CHR ''.'' \<notin> set ys \<Longrightarrow> LastIndex_dot k ys j = j" for k j by (induction ys arbitrary: k) auto
  have some: "CHR ''.'' \<in> set ys \<Longrightarrow> LastIndex_dot k ys j = LastIndex_dot k ys j'" for k j j'
    by (induction ys arbitrary: k j j') auto
  show ?case using none some by (auto intro: some)
qed simp

lemma split_svcMeth_dot:
  "CHR ''.'' \<notin> set meth \<Longrightarrow> split_svcMeth (svc @ ''.'' @ meth) = Some (svc, meth)"
  by (simp add: split_svcMeth_def LastIndex_dot_append slice_to_def slice_from_def Let_def nat_add_distrib)

lemma sint_Suc_32: "sint (w + 1 :: 32 word) = (if sint w = 2 ^ 31 - 1 then - (2 ^ 31) else sint w + 1)"
proof -
  have "- (2 ^ 31) \<le> sint w" "sint w < 2 ^ 31" using sint_greater_eq[of w] sint_less[of w] by simp_all
  moreover have "sint (w + 1) = signed_take_bit 31 (sint w + 1)" using sint_word_ariths(1)[of w 1] by simp
  ultimately show ?thesis by (auto simp: signed_take_bit_int_eq_self)
qed

section \<open>Properties\<close>

text \<open>
  \<^bold>\<open>C21\<close>. Call returns true only with a reply that the handler returned, over an end that was enabled and
  connected to a server at the start, and only if at the end the end is still enabled and its server
  name still stands for the same server: a killed server never gives a positive reply.
\<close>

theorem rpc_positive_reply:
  assumes "Call rn pick req d ws rn' = Some (True, reply)"
  shows "\<exists>servername server. net_enabled rn (req_endname req) \<and> net_connections rn (req_endname req) = Some servername \<and>
    net_servers rn servername = Some server \<and> Returned \<lparr>rep_ok = True, rep_reply = reply\<rparr> \<in> set ws \<and>
    net_enabled rn' (req_endname req) \<and> net_servers rn' servername = Some server"
proof -
  obtain dv where dv: "processReq (receive rn req) req d ws rn' = Some dv" "rep_ok (dv_msg dv)" "rep_reply (dv_msg dv) = reply"
    using assms by (auto simp: Call_def bind_Some_iff split: if_splits)
  show ?thesis
  proof (cases "processReq_begin (receive rn req) req d")
    case (Inl dv')
    then show ?thesis using dv processReq_begin_Inl[OF Inl] by (simp add: processReq_def no_reply_def)
  next
    case (Inr x)
    obtain ms servername server reliable longreordering where x: "x = (ms, servername, server, reliable, longreordering)"
      by (cases x)
    then obtain replied where r: "wait_loop (req_endname req) servername server ws = Some replied"
      "dv = processReq_end rn' req d servername server reliable longreordering replied"
      using dv(1) Inr by (auto simp: processReq_def bind_Some_iff)
    note ok = processReq_end_ok[OF dv(2)[unfolded r(2)]]
    have "Returned (dv_msg dv) \<in> set ws" using wait_loop_Some r ok(1) by metis
    moreover have "dv_msg dv = \<lparr>rep_ok = True, rep_reply = reply\<rparr>" using dv by (cases "dv_msg dv") simp
    ultimately show ?thesis using processReq_begin_Inr(1-3)[OF Inr[unfolded x]] ok(2)
      by (auto simp: isServerDead_False receive_def)
  qed
qed

definition demo_net :: "nat network" where
  "demo_net = Enable (Connect (AddServer (MakeNetwork\<lparr>net_ends := {0}\<rparr>) 1 7) 0 1) 0 True"

definition demo_req :: "nat reqMsg" where
  "demo_req = \<lparr>req_endname = 0, req_svcMeth = ''Raft.Get'', req_args = [1]\<rparr>"

definition demo_draws :: draws where
  "demo_draws = \<lparr>d_delay = 0, d_drop = 0, d_dropreply = 0, d_reorder = 0, d_spread = 0, d_long = 0, d_lost = 0\<rparr>"

lemmas demo_defs = demo_net_def demo_req_def demo_draws_def Enable_def Connect_def AddServer_def DeleteServer_def
  MakeNetwork_def receive_def readEndnameInfo_def isServerDead_def

theorem rpc_positive_reply_witness:
  "\<exists>servername server. net_enabled demo_net 0 \<and> net_connections demo_net 0 = Some servername \<and>
    net_servers demo_net servername = Some server \<and> Returned \<lparr>rep_ok = True, rep_reply = [9]\<rparr> \<in>
      set [Tick demo_net, Returned \<lparr>rep_ok = True, rep_reply = [9]\<rparr>] \<and>
    net_enabled demo_net 0 \<and> net_servers demo_net servername = Some server"
proof -
  have "Call demo_net True demo_req demo_draws [Tick demo_net, Returned \<lparr>rep_ok = True, rep_reply = [9]\<rparr>] demo_net = Some (True, [9])"
    by (simp add: Call_def processReq_def processReq_begin_def processReq_end_def demo_defs)
  from rpc_positive_reply[OF this] show ?thesis unfolding demo_req_def reqMsg.simps .
qed

text \<open>
  \<^bold>\<open>C24\<close>. On a reliable network without long reordering, a request over an enabled and connected end to a
  live server delivers the reply of the handler at once, whatever the random draws.
\<close>

theorem rpc_reliable_delivers:
  assumes "net_reliable rn" "\<not> net_longReordering rn" "net_enabled rn (req_endname req)"
    and "net_connections rn (req_endname req) = Some servername" "net_servers rn servername = Some server"
    and "Returned r \<in> set ws" "\<forall>rn1. Tick rn1 \<in> set ws \<longrightarrow> \<not> isServerDead rn1 (req_endname req) servername server"
    and "\<not> isServerDead rn' (req_endname req) servername server" "\<forall>r'. Returned r' \<in> set ws \<longrightarrow> r' = r"
  shows "processReq rn req d ws rn' = Some \<lparr>dv_msg = r, dv_ms = 0, dv_bytes = length (rep_reply r)\<rparr>"
proof -
  note wait_loop_alive[OF assms(6,7,9)]
  then show ?thesis using processReq_begin_ready[OF assms(3-5,1)] assms(2,8)
    by (simp add: processReq_def processReq_end_def)
qed

theorem rpc_reliable_delivers_witness:
  "processReq demo_net demo_req demo_draws [Tick demo_net, Returned \<lparr>rep_ok = True, rep_reply = [9]\<rparr>] demo_net =
    Some \<lparr>dv_msg = \<lparr>rep_ok = True, rep_reply = [9]\<rparr>, dv_ms = 0, dv_bytes = 1\<rparr>"
  using rpc_reliable_delivers[of demo_net demo_req 1 7 "\<lparr>rep_ok = True, rep_reply = [9]\<rparr>"
      "[Tick demo_net, Returned \<lparr>rep_ok = True, rep_reply = [9]\<rparr>]" demo_net demo_draws]
  by (simp add: demo_defs)

theorem rpc_deleted_server:
  assumes "net_connections rn (req_endname req) = Some servername"
    and "net_servers rn servername = None \<or> net_servers rn' servername \<noteq> net_servers rn servername"
    and "processReq rn req d ws rn' = Some dv"
  shows "dv_msg dv = no_reply \<and> dv_bytes dv = 0"
proof (cases "processReq_begin rn req d")
  case (Inl dv')
  then show ?thesis using assms(3) processReq_begin_Inl[OF Inl] by (simp add: processReq_def)
next
  case (Inr x)
  obtain ms sn srv reliable longreordering where x: "x = (ms, sn, srv, reliable, longreordering)" by (cases x)
  note b = processReq_begin_Inr[OF Inr[unfolded x]]
  have "isServerDead rn' (req_endname req) sn srv" using b(2,3) assms(1,2) by (auto simp: isServerDead_def)
  then show ?thesis using assms(3) Inr x
    by (auto simp: processReq_def processReq_end_def bind_Some_iff split: option.splits)
qed

theorem rpc_deleted_server_witness:
  "\<exists>dv. processReq demo_net demo_req demo_draws [Returned \<lparr>rep_ok = True, rep_reply = [9]\<rparr>] (DeleteServer demo_net 1) = Some dv \<and>
    dv_msg dv = no_reply \<and> dv_bytes dv = 0"
proof -
  obtain dv where dv: "processReq demo_net demo_req demo_draws [Returned \<lparr>rep_ok = True, rep_reply = [9]\<rparr>] (DeleteServer demo_net 1) = Some dv"
    by (simp add: processReq_def processReq_begin_def demo_defs)
  from rpc_deleted_server[OF _ _ this, of 1] dv show ?thesis by (simp add: demo_defs)
qed

theorem rpc_bounded_delay:
  assumes "processReq rn req d ws rn' = Some dv" shows "dv_ms dv < 7000"
proof (cases "processReq_begin rn req d")
  case (Inl dv')
  then show ?thesis using assms processReq_begin_Inl[OF Inl] by (simp add: processReq_def)
next
  case (Inr x)
  then obtain sn srv reliable longreordering replied where
    "dv = processReq_end rn' req d sn srv reliable longreordering replied"
    using assms by (auto simp: processReq_def bind_Some_iff split: prod.splits)
  then show ?thesis using processReq_end_ms[of rn' req d sn srv reliable longreordering replied] by simp
qed

theorem rpc_bounded_delay_witness:
  "\<exists>dv. processReq (Enable demo_net 0 False) demo_req demo_draws [] demo_net = Some dv \<and> dv_ms dv < 7000"
proof -
  obtain dv where "processReq (Enable demo_net 0 False) demo_req demo_draws [] demo_net = Some dv"
    by (simp add: processReq_def processReq_begin_def demo_defs)
  with rpc_bounded_delay[OF this] show ?thesis by blast
qed

theorem end_setup:
  assumes "MakeEnd rn endname = Some rn1"
  shows "readEndnameInfo rn1 endname = \<lparr>ei_enabled = False, ei_servername = None, ei_server = None,
      ei_reliable = net_reliable rn, ei_longreordering = net_longReordering rn\<rparr> \<and>
    readEndnameInfo (Enable (Connect (AddServer rn1 servername server) endname servername) endname True) endname =
      \<lparr>ei_enabled = True, ei_servername = Some servername, ei_server = Some server,
       ei_reliable = net_reliable rn, ei_longreordering = net_longReordering rn\<rparr> \<and>
    MakeEnd rn1 endname = None"
  using assms by (auto simp: MakeEnd_def readEndnameInfo_def Enable_def Connect_def AddServer_def split: if_splits)

theorem end_setup_witness:
  "\<exists>rn1. MakeEnd (MakeNetwork :: nat network) 5 = Some rn1 \<and> MakeEnd rn1 5 = None"
proof -
  obtain rn1 where rn1: "MakeEnd (MakeNetwork :: nat network) 5 = Some rn1" by (simp add: MakeEnd_def MakeNetwork_def)
  from end_setup[OF this, of 0 0] rn1 show ?thesis by blast
qed

lemma find_unique: "m \<in> set xs \<Longrightarrow> P m \<Longrightarrow> \<forall>x\<in>set xs. P x \<longrightarrow> x = m \<Longrightarrow> find P xs = Some m"
proof (cases "find P xs")
  case None
  moreover assume "m \<in> set xs" "P m"
  ultimately show ?thesis by (auto simp: find_None_iff)
next
  case (Some x)
  then have "x \<in> set xs" "P x" by (auto simp: find_Some_iff)
  moreover assume "\<forall>x\<in>set xs. P x \<longrightarrow> x = m"
  ultimately show ?thesis using Some by blast
qed

lemma svc_name_MakeService [simp]: "svc_name (MakeService name ms) = name"
  by (simp add: MakeService_def)

lemma MakeService_methods:
  assumes "distinct (map m_Name ms)"
  shows "svc_methods (MakeService name ms) k = map_option m_Func (find (\<lambda>m. m_Name m = k \<and> suitable m) ms)"
proof -
  define add where "add mm m = (if suitable m then mm(m_Name m \<mapsto> m_Func m) else mm)" for mm and m :: "'a rmethod"
  have "distinct (map m_Name xs) \<Longrightarrow> foldl add mm xs k =
      (case find (\<lambda>m. m_Name m = k \<and> suitable m) xs of None \<Rightarrow> mm k | Some m \<Rightarrow> Some (m_Func m))" for xs mm
  proof (induction xs arbitrary: mm)
    case (Cons x xs)
    have "m_Name x = k \<Longrightarrow> find (\<lambda>m. m_Name m = k \<and> suitable m) xs = None"
      using Cons.prems unfolding find_None_iff by (metis distinct.simps(2) image_eqI list.set_map list.simps(9))
    then show ?case using Cons by (cases "m_Name x = k \<and> suitable x") (auto simp: add_def split: option.splits)
  qed simp
  from this[OF assms, of Map.empty] show ?thesis
    by (simp add: MakeService_def add_def[abs_def] split: option.splits)
qed

text \<open>A server with services registered one after the other, each made from the methods of its receiver.\<close>

definition serve :: "'o \<Rightarrow> (string \<times> 'o rmethod list) list \<Rightarrow> 'o server" where
  "serve obj regs = foldl AddService (MakeServer obj) (map (\<lambda>(name, ms). MakeService name ms) regs)"

text \<open>An exported method of a receiver, an argument and a pointer to a reply, without results.\<close>

definition is_handler :: "'o rmethod \<Rightarrow> string \<Rightarrow> bool" where
  "is_handler m meth \<longleftrightarrow> m_Name m = meth \<and> m_PkgPath m = [] \<and> (\<exists>a b. m_in m = [a, b, True]) \<and> m_NumOut m = 0"

lemma is_handler_suitable: "is_handler m meth \<longleftrightarrow> m_Name m = meth \<and> suitable m"
  by (auto simp: is_handler_def suitable_def numeral_3_eq_3 length_Suc_conv)

lemma AddService_fold:
  "srv_count (foldl AddService rs svcs) = srv_count rs" "srv_obj (foldl AddService rs svcs) = srv_obj rs"
  by (induction svcs arbitrary: rs) (auto simp: AddService_def)

lemma serve_services:
  assumes "distinct (map fst regs)"
  shows "srv_services (serve obj regs) name = map_option (MakeService name) (map_of regs name)"
proof -
  have "distinct (map fst xs) \<Longrightarrow> srv_services (foldl AddService rs (map (\<lambda>(name, ms). MakeService name ms) xs)) name =
      (case map_of xs name of None \<Rightarrow> srv_services rs name | Some ms \<Rightarrow> Some (MakeService name ms))" for xs rs
  proof (induction xs arbitrary: rs)
    case (Cons x xs)
    have "fst x = name \<Longrightarrow> map_of xs name = None" using Cons.prems by (auto simp: map_of_eq_None_iff)
    then show ?case using Cons by (auto simp: AddService_def split: option.splits prod.splits)
  qed simp
  from this[OF assms, of "MakeServer obj"] show ?thesis by (simp add: serve_def MakeServer_def split: option.splits)
qed

lemma serve_simps [simp]: "srv_count (serve obj regs) = 0" "srv_obj (serve obj regs) = obj"
  by (simp_all add: serve_def AddService_fold MakeServer_def)

text \<open>
  \<^bold>\<open>C28\<close>. On a server with any number of services of different names, a request for Service.Method runs the
  method of that name of that service, if it is exported, takes a receiver, an argument and a
  pointer to a reply, and has no results: the object is left as the handler leaves it, its reply is
  returned, the RPC is counted and the services stay registered. When there is no such service or
  method, dispatch ends the program.
\<close>

theorem service_roundtrip:
  assumes d: "distinct (map fst regs)" "\<forall>(svc, ms)\<in>set regs. distinct (map m_Name ms)"
    and r: "req_svcMeth req = name @ ''.'' @ meth" "CHR ''.'' \<notin> set meth"
  shows "(\<forall>ms m obj' reply. (name, ms) \<in> set regs \<and> m \<in> set ms \<and> is_handler m meth \<and> m_Func m obj (req_args req) = Some (obj', reply) \<longrightarrow>
      (\<exists>rs'. Server_dispatch (serve obj regs) req = Some (rs', \<lparr>rep_ok = True, rep_reply = reply\<rparr>) \<and> srv_obj rs' = obj' \<and>
        Server_GetCount rs' = Server_GetCount (serve obj regs) + 1 \<and> srv_services rs' = srv_services (serve obj regs))) \<and>
    ((\<nexists>ms m. (name, ms) \<in> set regs \<and> m \<in> set ms \<and> is_handler m meth) \<longrightarrow> Server_dispatch (serve obj regs) req = None)"
proof -
  let ?rs = "serve obj regs"
  note dis = Server_dispatch_def Service_dispatch_def Let_def r(1) split_svcMeth_dot[OF r(2), simplified] serve_services[OF d(1)]
  have "\<exists>rs'. Server_dispatch ?rs req = Some (rs', \<lparr>rep_ok = True, rep_reply = reply\<rparr>) \<and> srv_obj rs' = obj' \<and>
        Server_GetCount rs' = Server_GetCount ?rs + 1 \<and> srv_services rs' = srv_services ?rs"
    if h: "(name, ms) \<in> set regs" "m \<in> set ms" "is_handler m meth" "m_Func m obj (req_args req) = Some (obj', reply)" for ms m obj' reply
  proof -
    have dm: "distinct (map m_Name ms)" using d(2) h(1) by auto
    have "find (\<lambda>x. m_Name x = meth \<and> suitable x) ms = Some m"
      by (rule find_unique) (use h(2,3) dm in \<open>auto simp: is_handler_suitable distinct_map inj_on_def\<close>)
    then have "svc_methods (MakeService name ms) meth = Some (m_Func m)" by (simp add: MakeService_methods[OF dm])
    then show ?thesis using h(1,4) d(1) by (simp add: dis map_of_eq_Some_iff Server_GetCount_def)
  qed
  moreover have "Server_dispatch ?rs req = None" if no: "\<nexists>ms m. (name, ms) \<in> set regs \<and> m \<in> set ms \<and> is_handler m meth"
  proof (cases "map_of regs name")
    case (Some ms)
    then have ms: "(name, ms) \<in> set regs" by (rule map_of_SomeD)
    have "find (\<lambda>x. m_Name x = meth \<and> suitable x) ms = None" using no ms by (auto simp: find_None_iff is_handler_suitable)
    then have "svc_methods (MakeService name ms) meth = None" using d(2) ms by (subst MakeService_methods) auto
    then show ?thesis using Some by (simp add: dis)
  qed (simp add: dis)
  ultimately show ?thesis by blast
qed

definition echo :: "nat rmethod" where
  "echo = \<lparr>m_Name = ''Get'', m_PkgPath = '''', m_in = [True, True, True], m_NumOut = 0, m_Func = (\<lambda>n b. Some (n + 1, b))\<rparr>"

theorem service_roundtrip_witness:
  "\<exists>rs'. Server_dispatch (serve 3 [(''Raft'', [echo]), (''KV'', [])]) demo_req =
      Some (rs', \<lparr>rep_ok = True, rep_reply = [1]\<rparr>) \<and> srv_obj rs' = 4 \<and>
   Server_dispatch (serve 3 [(''Raft'', [echo\<lparr>m_NumOut := 1\<rparr>]), (''KV'', [])]) demo_req = None"
proof -
  have d: "req_svcMeth demo_req = ''Raft'' @ ''.'' @ ''Get''" "CHR ''.'' \<notin> set ''Get''" "req_args demo_req = [1]" by (simp_all add: demo_req_def)
  have "is_handler echo ''Get''" "\<not> is_handler (echo\<lparr>m_NumOut := 1\<rparr>) ''Get''" "m_Func echo 3 [1] = Some (4, [1])"
    by (simp_all add: is_handler_suitable suitable_def echo_def)
  moreover have p: "\<forall>(svc, ms)\<in>set [(''Raft'', [x]), (''KV'', [])]. distinct (map m_Name ms)" "distinct (map fst [(''Raft'', [x]), (''KV'', [])])"
    for x :: "nat rmethod" by simp_all
  note r = service_roundtrip[OF p(2,1) d(1,2), where obj = 3]
  have "\<exists>rs'. Server_dispatch (serve 3 [(''Raft'', [echo]), (''KV'', [])]) demo_req = Some (rs', \<lparr>rep_ok = True, rep_reply = [1]\<rparr>) \<and> srv_obj rs' = 4"
      "Server_dispatch (serve 3 [(''Raft'', [echo\<lparr>m_NumOut := 1\<rparr>]), (''KV'', [])]) demo_req = None"
    using r[of echo, THEN conjunct1, rule_format, of "[echo]" echo 4 "[1]"] r[of "echo\<lparr>m_NumOut := 1\<rparr>", THEN conjunct2] calculation d(3) by auto
  then show ?thesis by blast
qed

theorem rpc_count_wraps:
  "GetTotalCount (receive rn req) = (if GetTotalCount rn = 2 ^ 31 - 1 then - (2 ^ 31) else GetTotalCount rn + 1)"
  by (simp add: GetTotalCount_def receive_def sint_Suc_32)

end
