(* ===== verification/Raft_Config.thy ===== *)
theory Raft_Config
  imports Raft_Net LabRPC
begin

text \<open>
  The harness of \<^verbatim>\<open>raft/config.go\<close> that runs Raft peers on the simulated network and checks them: it
  partitions the network, restarts peers with what their persisters hold, compares what the
  peers apply, and counts leaders and commits.

  Names on the network are end names (random strings) and server numbers.  The peers change
  while the harness waits, so a loop that sleeps takes the list of the states it sees, one per
  round.  \<^verbatim>\<open>t.Fatalf\<close> is the value \<open>Fatal\<close>, a panic is \<open>None\<close>.
\<close>

section \<open>State\<close>

datatype nm = EndName string | ServerName nat

datatype 'a outcome = Pass 'a | Fatal string

record 'c rconfig =
  cfg_n :: nat
  cfg_net :: "nm network"
  cfg_rafts :: "'c raft option list"
  cfg_applyErr :: "string list"
  cfg_connected :: "bool list"
  cfg_saved :: "Persister option list"
  cfg_endnames :: "string list option list"
  cfg_logs :: "(int \<rightharpoonup> 'c option) list"
  cfg_maxIndex :: int
  cfg_start :: int
  cfg_t0 :: int
  cfg_rpcs0 :: int
  cfg_cmds0 :: int
  cfg_bytes0 :: int
  cfg_maxIndex0 :: int

section \<open>Partitions\<close>

definition endname :: "'c rconfig \<Rightarrow> nat \<Rightarrow> nat \<Rightarrow> string option" where
  "endname cfg i j = do { row \<leftarrow> at (cfg_endnames cfg) (int i); names \<leftarrow> row; at names (int j) }"

definition enable_all :: "bool \<Rightarrow> string list \<Rightarrow> nm network \<Rightarrow> nm network" where
  "enable_all on names net = foldl (\<lambda>net e. Enable net (EndName e) on) net names"

definition connect :: "'c rconfig \<Rightarrow> nat \<Rightarrow> 'c rconfig option" where
  "connect cfg i = do {
     connected \<leftarrow> upd_at (cfg_connected cfg) (int i) True;
     let js = filter (\<lambda>j. connected ! j) [0..<cfg_n cfg];
     outgoing \<leftarrow> those (map (\<lambda>j. endname cfg i j) js);
     incoming \<leftarrow> those (map (\<lambda>j. endname cfg j i) js);
     Some (cfg\<lparr>cfg_connected := connected, cfg_net := enable_all True incoming (enable_all True outgoing (cfg_net cfg))\<rparr>) }"

definition disconnect :: "'c rconfig \<Rightarrow> nat \<Rightarrow> 'c rconfig option" where
  "disconnect cfg i = do {
     connected \<leftarrow> upd_at (cfg_connected cfg) (int i) False;
     row \<leftarrow> at (cfg_endnames cfg) (int i);
     outgoing \<leftarrow> (if row \<noteq> None then those (map (\<lambda>j. endname cfg i j) [0..<cfg_n cfg]) else Some []);
     incoming \<leftarrow> those (map (\<lambda>j. endname cfg j i) (filter (\<lambda>j. cfg_endnames cfg ! j \<noteq> None) [0..<cfg_n cfg]));
     Some (cfg\<lparr>cfg_connected := connected, cfg_net := enable_all False incoming (enable_all False outgoing (cfg_net cfg))\<rparr>) }"

section \<open>Crash and restart\<close>

definition crash1 :: "'c rconfig \<Rightarrow> nat \<Rightarrow> ('c rconfig \<times> 'c raft option) option" where
  "crash1 cfg i = do {
     cfg \<leftarrow> disconnect cfg i;
     let cfg = cfg\<lparr>cfg_net := DeleteServer (cfg_net cfg) (ServerName i)\<rparr>;
     saved \<leftarrow> at (cfg_saved cfg) (int i);
     let saved = map_option Copy saved;
     rf \<leftarrow> at (cfg_rafts cfg) (int i);
     let saved = map_option (\<lambda>p. SaveRaftState MakePersister (ReadRaftState p)) saved;
     Some (cfg\<lparr>cfg_saved := (cfg_saved cfg)[i := saved], cfg_rafts := (cfg_rafts cfg)[i := None]\<rparr>, map_option Kill rf) }"

fun make_ends :: "nat \<Rightarrow> string list \<Rightarrow> nm network \<Rightarrow> nm network option" where
  "make_ends j [] net = Some net"
| "make_ends j (name # names) net = do {
     net \<leftarrow> MakeEnd net (EndName name);
     make_ends (j + 1) names (Connect net (EndName name) (ServerName j)) }"

text \<open>\<open>names\<close> are the fresh random end names, \<open>sa\<close> the address of the new server.\<close>

definition start1 :: "'c rconfig \<Rightarrow> nat \<Rightarrow> string list \<Rightarrow> saddr \<Rightarrow> 'c rconfig option" where
  "start1 cfg i names sa = do {
     (cfg, _) \<leftarrow> crash1 cfg i;
     let cfg = cfg\<lparr>cfg_endnames := (cfg_endnames cfg)[i := Some names]\<rparr>;
     net \<leftarrow> make_ends 0 names (cfg_net cfg);
     let ps = (case cfg_saved cfg ! i of Some p \<Rightarrow> Copy p | None \<Rightarrow> MakePersister);
     let rf = Make (cfg_n cfg) i ps;
     Some (cfg\<lparr>cfg_saved := (cfg_saved cfg)[i := Some ps], cfg_rafts := (cfg_rafts cfg)[i := Some rf],
               cfg_net := AddServer net (ServerName i) sa\<rparr>) }"

section \<open>What the peers apply\<close>

definition apply_reader :: "nat \<Rightarrow> 'c ApplyMsg \<Rightarrow> 'c rconfig \<Rightarrow> 'c rconfig outcome" where
  "apply_reader i m cfg =
    (if \<not> CommandValid m then Pass cfg
     else
       let v = Command m;
           k = CommandIndex m;
           conflict = (\<exists>j<length (cfg_logs cfg). \<exists>old. (cfg_logs cfg ! j) k = Some old \<and> old \<noteq> v);
           prevok = ((cfg_logs cfg ! i) (k - 1) \<noteq> None);
           cfg' = cfg\<lparr>cfg_logs := (cfg_logs cfg)[i := (cfg_logs cfg ! i)(k \<mapsto> v)],
                      cfg_maxIndex := (if k > cfg_maxIndex cfg then k else cfg_maxIndex cfg)\<rparr>
       in if k > 1 \<and> \<not> prevok then Fatal ''apply error: out of order''
          else if conflict then Fatal ''apply error: commit''
          else Pass cfg')"

fun apply_all :: "nat \<Rightarrow> 'c ApplyMsg list \<Rightarrow> 'c rconfig \<Rightarrow> 'c rconfig outcome" where
  "apply_all i [] cfg = Pass cfg"
| "apply_all i (m # ms) cfg = (case apply_reader i m cfg of Fatal e \<Rightarrow> Fatal e | Pass cfg \<Rightarrow> apply_all i ms cfg)"

section \<open>Checks\<close>

text \<open>The connected peers that say they lead, with their terms; \<^verbatim>\<open>GetState\<close> on a nil peer panics.\<close>

fun scan_leaders :: "'c rconfig \<Rightarrow> nat list \<Rightarrow> (int \<times> nat) list option" where
  "scan_leaders cfg [] = Some []"
| "scan_leaders cfg (i # is) = do {
     c \<leftarrow> at (cfg_connected cfg) (int i);
     if c then do {
       rf \<leftarrow> at (cfg_rafts cfg) (int i);
       rf \<leftarrow> rf;
       rest \<leftarrow> scan_leaders cfg is;
       let (term, leader) = GetState rf;
       Some (if leader then (term, i) # rest else rest) }
     else scan_leaders cfg is }"

definition leaders_in :: "(int \<times> nat) list \<Rightarrow> int \<Rightarrow> nat list" where
  "leaders_in ls term = map snd (filter (\<lambda>l. fst l = term) ls)"

fun checkOneLeader :: "'c rconfig list \<Rightarrow> nat outcome option" where
  "checkOneLeader [] = Some (Fatal ''expected one leader, got none'')"
| "checkOneLeader (cfg # cfgs) = do {
     leaders \<leftarrow> scan_leaders cfg [0..<cfg_n cfg];
     if \<exists>term\<in>fst ` set leaders. length (leaders_in leaders term) > 1
     then Some (Fatal ''term has more than one leader'')
     else if leaders \<noteq> [] then do {
       let lastTermWithLeader = foldl (\<lambda>t l. if fst l > t then fst l else t) (-1) leaders;
       i \<leftarrow> at (leaders_in leaders lastTermWithLeader) 0;
       Some (Pass i) }
     else checkOneLeader cfgs }"

fun terms_loop :: "'c rconfig \<Rightarrow> nat list \<Rightarrow> int \<Rightarrow> int outcome option" where
  "terms_loop cfg [] term = Some (Pass term)"
| "terms_loop cfg (i # is) term = do {
     c \<leftarrow> at (cfg_connected cfg) (int i);
     if c then do {
       rf \<leftarrow> at (cfg_rafts cfg) (int i);
       rf \<leftarrow> rf;
       let xterm = fst (GetState rf);
       if term = -1 then terms_loop cfg is xterm
       else if term \<noteq> xterm then Some (Fatal ''servers disagree on term'')
       else terms_loop cfg is term }
     else terms_loop cfg is term }"

definition checkTerms :: "'c rconfig \<Rightarrow> int outcome option" where
  "checkTerms cfg = terms_loop cfg [0..<cfg_n cfg] (-1)"

definition checkNoLeader :: "'c rconfig \<Rightarrow> unit outcome option" where
  "checkNoLeader cfg = do {
     leaders \<leftarrow> scan_leaders cfg [0..<cfg_n cfg];
     Some (if leaders = [] then Pass () else Fatal ''expected no leader'') }"

fun committed_loop :: "'c rconfig \<Rightarrow> int \<Rightarrow> nat list \<Rightarrow> nat \<Rightarrow> 'c option \<Rightarrow> (nat \<times> 'c option) outcome option" where
  "committed_loop cfg index [] cnt cmd = Some (Pass (cnt, cmd))"
| "committed_loop cfg index (i # is) cnt cmd = do {
     err \<leftarrow> at (cfg_applyErr cfg) (int i);
     if err \<noteq> '''' then Some (Fatal err)
     else do {
       lg \<leftarrow> at (cfg_logs cfg) (int i);
       case lg index of
         None \<Rightarrow> committed_loop cfg index is cnt cmd
       | Some cmd1 \<Rightarrow>
           if cnt > 0 \<and> cmd \<noteq> cmd1 then Some (Fatal ''committed values do not match'')
           else committed_loop cfg index is (cnt + 1) cmd1 } }"

definition nCommitted :: "'c rconfig \<Rightarrow> int \<Rightarrow> (nat \<times> 'c option) outcome option" where
  "nCommitted cfg index = committed_loop cfg index [0..<length (cfg_rafts cfg)] 0 None"

text \<open>
  \<^verbatim>\<open>wait\<close>: \<open>cfgs\<close> are the states of its at most thirty rounds and \<open>final\<close> the state of the last look.  The
  result \<open>Pass None\<close> is its return of \<^verbatim>\<open>-1\<close> because a peer has moved on.
\<close>

fun moved_on :: "'c raft option list \<Rightarrow> int \<Rightarrow> bool option" where
  "moved_on [] startTerm = Some False"
| "moved_on (r # rafts) startTerm = do {
     rf \<leftarrow> r;
     if fst (GetState rf) > startTerm then Some True else moved_on rafts startTerm }"

fun wait_rounds :: "'c rconfig list \<Rightarrow> int \<Rightarrow> nat \<Rightarrow> int \<Rightarrow> bool outcome option" where
  "wait_rounds [] index n startTerm = Some (Pass True)"
| "wait_rounds (cfg # cfgs) index n startTerm = do {
     r \<leftarrow> nCommitted cfg index;
     case r of
       Fatal e \<Rightarrow> Some (Fatal e)
     | Pass (nd, _) \<Rightarrow>
         if nd \<ge> n then Some (Pass True)
         else if startTerm > -1 then do {
           moved \<leftarrow> moved_on (cfg_rafts cfg) startTerm;
           if moved then Some (Pass False) else wait_rounds cfgs index n startTerm }
         else wait_rounds cfgs index n startTerm }"

definition wait_commit :: "'c rconfig list \<Rightarrow> 'c rconfig \<Rightarrow> int \<Rightarrow> nat \<Rightarrow> int \<Rightarrow> 'c option option outcome option" where
  "wait_commit cfgs final index n startTerm = do {
     w \<leftarrow> wait_rounds cfgs index n startTerm;
     case w of
       Fatal e \<Rightarrow> Some (Fatal e)
     | Pass False \<Rightarrow> Some (Pass None)
     | Pass True \<Rightarrow> do {
         r \<leftarrow> nCommitted final index;
         Some (case r of
             Fatal e \<Rightarrow> Fatal e
           | Pass (nd, cmd) \<Rightarrow> if nd < n then Fatal ''too few decided'' else Pass (Some cmd)) } }"

text \<open>The loop of \<^verbatim>\<open>one\<close> that offers the command to one server after the other.\<close>

fun one_scan :: "nat \<Rightarrow> 'c rconfig \<Rightarrow> 'c \<Rightarrow> nat \<Rightarrow> ('c rconfig \<times> nat \<times> int) option" where
  "one_scan 0 cfg cmd cur = Some (cfg, cur, -1)"
| "one_scan (Suc si) cfg cmd cur = do {
     let cur = (cur + 1) mod cfg_n cfg;
     c \<leftarrow> at (cfg_connected cfg) (int cur);
     rf \<leftarrow> (if c then at (cfg_rafts cfg) (int cur) else Some None);
     case rf of
       None \<Rightarrow> one_scan si cfg cmd cur
     | Some rf \<Rightarrow>
         let (rf, index, term, ok) = Start rf cmd;
             cfg = cfg\<lparr>cfg_rafts := (cfg_rafts cfg)[cur := Some rf]\<rparr>
         in if ok then Some (cfg, cur, index) else one_scan si cfg cmd cur }"

section \<open>Lemmas\<close>

definition sees :: "nat \<Rightarrow> 'c sys \<Rightarrow> 'c rconfig \<Rightarrow> bool" where
  "sees n s cfg \<longleftrightarrow> cfg_n cfg = n \<and> length (cfg_connected cfg) = n \<and> cfg_rafts cfg = map (\<lambda>i. Some (srv s i)) [0..<n]"

definition leading :: "'c sys \<Rightarrow> 'c rconfig \<Rightarrow> nat \<Rightarrow> bool" where
  "leading s cfg i \<longleftrightarrow> cfg_connected cfg ! i \<and> rstate (srv s i) = leader"

lemma scan_leaders_sees:
  assumes "sees n s cfg" "set is \<subseteq> {..<n}"
  shows "scan_leaders cfg is = Some (map (\<lambda>i. (currentTerm (srv s i), i)) (filter (leading s cfg) is))"
  using assms(2)
proof (induction "is")
  case (Cons i "is")
  then show ?case using assms(1) by (auto simp: sees_def leading_def GetState_def Let_def at_def)
qed simp

lemma fold_max: "foldl (\<lambda>t l. if fst l > t then fst l else t) t ls = Max (insert t (fst ` set ls))" for t :: int
proof (induction ls arbitrary: t)
  case (Cons l ls)
  have "foldl (\<lambda>t l. if fst l > t then fst l else t) t (l # ls) = Max (insert (max t (fst l)) (fst ` set ls))"
    using Cons.IH[of "max t (fst l)"] by (simp add: max_def split: if_splits)
  also have "\<dots> = Max (insert t (fst ` set (l # ls)))" by (cases "fst ` set ls = {}") (simp_all add: Max_insert max.assoc)
  finally show ?case .
qed simp

lemma leaders_in_iff: "i \<in> set (leaders_in ls t) \<longleftrightarrow> (t, i) \<in> set ls"
  by (force simp: leaders_in_def)

text \<open>Two connected peers lead the same term.\<close>

definition two_leaders :: "nat \<Rightarrow> 'c sys \<Rightarrow> 'c rconfig \<Rightarrow> bool" where
  "two_leaders n s cfg \<longleftrightarrow> (\<exists>i<n. \<exists>j<n. i \<noteq> j \<and> leading s cfg i \<and> leading s cfg j \<and> currentTerm (srv s i) = currentTerm (srv s j))"

lemma crowded_term:
  assumes "distinct (map snd ls)"
  shows "(\<exists>t\<in>fst ` set ls. length (leaders_in ls t) > 1) \<longleftrightarrow> (\<exists>t i j. i \<noteq> j \<and> (t, i) \<in> set ls \<and> (t, j) \<in> set ls)"
proof
  assume "\<exists>t\<in>fst ` set ls. length (leaders_in ls t) > 1"
  then obtain t where t: "length (leaders_in ls t) > 1" by blast
  moreover have "distinct (leaders_in ls t)" unfolding leaders_in_def using assms by (rule distinct_map_filter)
  ultimately have "card (set (leaders_in ls t)) > 1" by (simp add: distinct_card)
  then obtain i j where "i \<noteq> j" "i \<in> set (leaders_in ls t)" "j \<in> set (leaders_in ls t)"
    using card_le_Suc0_iff_eq[of "set (leaders_in ls t)"] by (auto simp: not_le)
  then show "\<exists>t i j. i \<noteq> j \<and> (t, i) \<in> set ls \<and> (t, j) \<in> set ls" by (auto simp: leaders_in_iff)
next
  assume "\<exists>t i j. i \<noteq> j \<and> (t, i) \<in> set ls \<and> (t, j) \<in> set ls"
  then obtain t i j where t: "i \<noteq> j" "(t, i) \<in> set ls" "(t, j) \<in> set ls" by blast
  then have "{i, j} \<subseteq> set (leaders_in ls t)" by (simp add: leaders_in_iff)
  then have "card {i, j} \<le> card (set (leaders_in ls t))" by (intro card_mono) auto
  then have "length (leaders_in ls t) > 1" using t(1) card_length[of "leaders_in ls t"] by simp
  with t(2) show "\<exists>t\<in>fst ` set ls. length (leaders_in ls t) > 1" by force
qed

lemma uncrowded:
  assumes "\<not> (\<exists>t\<in>fst ` set ls. length (leaders_in ls t) > 1)"
  shows "\<forall>t. length (leaders_in ls t) \<le> 1"
proof
  fix t
  show "length (leaders_in ls t) \<le> 1"
  proof (cases "leaders_in ls t")
    case (Cons i xs)
    then have "(t, i) \<in> set ls" by (simp flip: leaders_in_iff)
    with assms show ?thesis by (force simp: not_less)
  qed simp
qed

text \<open>With at most one leader in a term, the check returns the leader of the highest term.\<close>

lemma highest_leader:
  assumes ne: "ls \<noteq> []" and pos: "\<forall>t\<in>fst ` set ls. -1 < t" and one: "\<forall>t. length (leaders_in ls t) \<le> 1"
  shows "\<exists>k. leaders_in ls (foldl (\<lambda>t l. if fst l > t then fst l else t) (-1) ls) = [k] \<and>
    (\<exists>t. (t, k) \<in> set ls \<and> (\<forall>t'\<in>fst ` set ls. t' \<le> t))"
proof -
  define T where "T = Max (insert (-1) (fst ` set ls))"
  have "T \<in> insert (-1) (fst ` set ls)" unfolding T_def by (rule Max_in) auto
  moreover have top: "t \<le> T" if "t \<in> fst ` set ls" for t unfolding T_def using that by (intro Max_ge) auto
  have "T \<noteq> -1" using ne pos top by (cases ls) fastforce+
  ultimately obtain i where "(T, i) \<in> set ls" by auto
  then have "leaders_in ls T \<noteq> []" by (auto simp flip: leaders_in_iff)
  then obtain k where k: "leaders_in ls T = [k]" using one[rule_format, of T] by (cases "leaders_in ls T") auto
  then have "(T, k) \<in> set ls" by (simp flip: leaders_in_iff)
  with k top show ?thesis unfolding fold_max T_def[symmetric] by blast
qed

lemma enable_all_enabled:
  "net_enabled (enable_all on names net) (EndName e) = (if e \<in> set names then on else net_enabled net (EndName e))"
  unfolding enable_all_def by (induction names arbitrary: net) (auto simp: Enable_def)

lemma enable_all_servers: "net_servers (enable_all on names net) = net_servers net"
  unfolding enable_all_def by (induction names arbitrary: net) (auto simp: Enable_def)

lemma those_nth: "those xs = Some ys \<Longrightarrow> x \<in> set xs \<Longrightarrow> \<exists>y\<in>set ys. x = Some y"
  by (induction xs arbitrary: ys) (auto split: option.splits)

lemma disconnected_end:
  assumes "disconnect cfg i = Some cfg'" "j < cfg_n cfg" "endname cfg i j = Some e \<or> endname cfg j i = Some e"
  shows "\<not> net_enabled (cfg_net cfg') (EndName e)"
proof -
  obtain row outgoing incoming where d: "at (cfg_endnames cfg) (int i) = Some row"
    "(if row \<noteq> None then those (map (\<lambda>j. endname cfg i j) [0..<cfg_n cfg]) else Some []) = Some outgoing"
    "those (map (\<lambda>j. endname cfg j i) (filter (\<lambda>j. cfg_endnames cfg ! j \<noteq> None) [0..<cfg_n cfg])) = Some incoming"
    "cfg_net cfg' = enable_all False incoming (enable_all False outgoing (cfg_net cfg))"
    using assms(1) by (auto simp: disconnect_def bind_Some_iff Let_def)
  have "e \<in> set outgoing \<or> e \<in> set incoming"
  proof (cases "endname cfg i j = Some e")
    case True
    then have "row \<noteq> None" using d(1) by (auto simp: endname_def bind_Some_iff)
    then have "those (map (\<lambda>j. endname cfg i j) [0..<cfg_n cfg]) = Some outgoing" using d(2) by simp
    from those_nth[OF this, of "Some e"] True assms(2) show ?thesis by (force simp: image_iff)
  next
    case False
    with assms(3) have j: "endname cfg j i = Some e" by simp
    then have "cfg_endnames cfg ! j \<noteq> None" by (auto simp: endname_def bind_Some_iff at_def split: if_splits)
    then show ?thesis using those_nth[OF d(3), of "Some e"] j assms(2) by (force simp: image_iff)
  qed
  then show ?thesis unfolding d(4) by (auto simp: enable_all_enabled)
qed

lemma disconnect_frame:
  "disconnect cfg i = Some cfg' \<Longrightarrow> cfg_saved cfg' = cfg_saved cfg \<and> cfg_rafts cfg' = cfg_rafts cfg \<and> cfg_n cfg' = cfg_n cfg"
  by (auto simp: disconnect_def bind_Some_iff Let_def)

lemma crash1_saved:
  assumes "crash1 cfg i = Some (cfg1, old)"
  shows "cfg_saved cfg1 = (cfg_saved cfg)[i := map_option (\<lambda>p. SaveRaftState MakePersister (ReadRaftState (Copy p))) (cfg_saved cfg ! i)]"
    "i < length (cfg_saved cfg)" "i < length (cfg_rafts cfg1)"
proof -
  obtain cfg0 saved rf where c: "disconnect cfg i = Some cfg0" "at (cfg_saved cfg0) (int i) = Some saved"
    "at (cfg_rafts cfg0) (int i) = Some rf"
    "cfg_saved cfg1 = (cfg_saved cfg0)[i := map_option (\<lambda>p. SaveRaftState MakePersister (ReadRaftState p)) (map_option Copy saved)]"
    "cfg_rafts cfg1 = (cfg_rafts cfg0)[i := None]"
    using assms by (auto simp: crash1_def bind_Some_iff Let_def)
  then show "cfg_saved cfg1 = (cfg_saved cfg)[i := map_option (\<lambda>p. SaveRaftState MakePersister (ReadRaftState (Copy p))) (cfg_saved cfg ! i)]"
    "i < length (cfg_saved cfg)" "i < length (cfg_rafts cfg1)"
    using disconnect_frame[OF c(1)] by (simp_all add: slice_simps option.map_comp comp_def)
qed

section \<open>Properties\<close>

text \<open>
  \<^bold>\<open>C15\<close>. Whatever the state of the peers, as long as terms are not negative: when two connected peers lead
  the same term the leader check of the harness fails with that message; otherwise it returns the
  connected leader with the highest term when there is one and goes on to its next look when there
  is none. In a state reached by timely steps (in the sense of the election safety property) two
  peers never lead the same term.
\<close>

theorem one_leader_check:
  assumes v: "sees n s cfg" and pos: "\<forall>i<n. 0 \<le> currentTerm (srv s i)"
  shows "(two_leaders n s cfg \<longrightarrow> checkOneLeader (cfg # cfgs) = Some (Fatal ''term has more than one leader'')) \<and>
    ((\<exists>i<n. leading s cfg i) \<and> \<not> two_leaders n s cfg \<longrightarrow>
      (\<exists>i<n. checkOneLeader (cfg # cfgs) = Some (Pass i) \<and> leading s cfg i \<and>
        (\<forall>j<n. leading s cfg j \<longrightarrow> currentTerm (srv s j) \<le> currentTerm (srv s i)))) \<and>
    ((\<forall>i<n. \<not> leading s cfg i) \<longrightarrow> checkOneLeader (cfg # cfgs) = checkOneLeader cfgs) \<and>
    (reachable n s \<longrightarrow> \<not> two_leaders n s cfg)"
proof -
  define ls where "ls = map (\<lambda>i. (currentTerm (srv s i), i)) (filter (leading s cfg) [0..<n])"
  have n: "cfg_n cfg = n" using v by (simp add: sees_def)
  have scan: "scan_leaders cfg [0..<n] = Some ls" unfolding ls_def by (rule scan_leaders_sees[OF v]) auto
  have mem: "(t, i) \<in> set ls \<longleftrightarrow> i < n \<and> leading s cfg i \<and> t = currentTerm (srv s i)" for t i by (auto simp: ls_def)
  have d: "distinct (map snd ls)" by (simp add: ls_def comp_def)
  have two: "two_leaders n s cfg \<longleftrightarrow> (\<exists>t\<in>fst ` set ls. length (leaders_in ls t) > 1)"
    unfolding crowded_term[OF d] two_leaders_def mem by blast
  show ?thesis
  proof (intro conjI impI)
    assume "two_leaders n s cfg"
    then have "\<exists>t\<in>fst ` set ls. length (leaders_in ls t) > 1" unfolding two .
    then show "checkOneLeader (cfg # cfgs) = Some (Fatal ''term has more than one leader'')" using scan n by (simp add: Let_def)
  next
    assume "\<forall>i<n. \<not> leading s cfg i"
    then have "ls = []" using mem by (cases ls) auto
    then show "checkOneLeader (cfg # cfgs) = checkOneLeader cfgs" using scan n by simp
  next
    assume l: "(\<exists>i<n. leading s cfg i) \<and> \<not> two_leaders n s cfg"
    then have ne: "ls \<noteq> []" using mem by force
    have nofatal: "\<not> (\<exists>t\<in>fst ` set ls. length (leaders_in ls t) > 1)" using l two by blast
    then have one: "\<forall>t. length (leaders_in ls t) \<le> 1" by (rule uncrowded)
    have "\<forall>t\<in>fst ` set ls. -1 < t" using pos by (force simp: ls_def)
    from highest_leader[OF ne this one] obtain k t where k: "leaders_in ls (foldl (\<lambda>t l. if fst l > t then fst l else t) (-1) ls) = [k]"
        "(t, k) \<in> set ls" "\<forall>t'\<in>fst ` set ls. t' \<le> t" by blast
    then have m: "k < n" "leading s cfg k" "t = currentTerm (srv s k)" using mem by simp_all
    have "checkOneLeader (cfg # cfgs) = Some (Pass k)" using scan n nofatal ne k(1) by (simp add: Let_def at_def)
    moreover have "\<forall>j<n. leading s cfg j \<longrightarrow> currentTerm (srv s j) \<le> currentTerm (srv s k)"
      using k(3) mem unfolding m(3) by force
    ultimately show "\<exists>i<n. checkOneLeader (cfg # cfgs) = Some (Pass i) \<and> leading s cfg i \<and>
        (\<forall>j<n. leading s cfg j \<longrightarrow> currentTerm (srv s j) \<le> currentTerm (srv s i))" using m by blast
  next
    assume "reachable n s"
    from one_leader_per_term[OF this] show "\<not> two_leaders n s cfg" unfolding two_leaders_def leading_def by metis
  qed
qed

theorem disconnect_isolates:
  assumes "disconnect cfg i = Some cfg'" "j < cfg_n cfg" "endname cfg i j = Some e \<or> endname cfg j i = Some e"
  shows "\<exists>dv. processReq (cfg_net cfg') \<lparr>req_endname = EndName e, req_svcMeth = meth, req_args = args\<rparr> d ws net' = Some dv \<and>
    dv_msg dv = no_reply"
  using disconnected_end[OF assms] by (simp add: processReq_def processReq_begin_def readEndnameInfo_def Let_def)

theorem crash_keeps_raft_state:
  assumes "start1 cfg i names sa = Some cfg'" "cfg_saved cfg ! i = Some p"
  shows "\<exists>rf p'. cfg_rafts cfg' ! i = Some rf \<and> cfg_saved cfg' ! i = Some p' \<and> persister rf = p' \<and>
    ReadRaftState p' = ReadRaftState p \<and> ReadSnapshot p' = ReadSnapshot MakePersister"
proof -
  obtain cfg1 old where c: "crash1 cfg i = Some (cfg1, old)" using assms(1) by (auto simp: start1_def bind_Some_iff)
  note k = crash1_saved[OF c] assms(2)
  define p1 where "p1 = SaveRaftState MakePersister (ReadRaftState (Copy p))"
  have p1: "cfg_saved cfg1 ! i = Some p1" "i < length (cfg_saved cfg1)" "i < length (cfg_rafts cfg1)"
    using k by (simp_all add: p1_def)
  obtain net where "cfg' = cfg1\<lparr>cfg_endnames := (cfg_endnames cfg1)[i := Some names],
      cfg_saved := (cfg_saved cfg1)[i := Some (Copy p1)], cfg_rafts := (cfg_rafts cfg1)[i := Some (Make (cfg_n cfg1) i (Copy p1))],
      cfg_net := AddServer net (ServerName i) sa\<rparr>"
    using assms(1) c p1(1) by (auto simp: start1_def bind_Some_iff Let_def)
  then show ?thesis using p1
    by (simp add: Make_def readPersist_def p1_def Copy_def SaveRaftState_def ReadRaftState_def ReadSnapshot_def MakePersister_def)
qed

definition demo_config :: "nat rconfig" where
  "demo_config = \<lparr>cfg_n = 2, cfg_net = MakeNetwork, cfg_rafts = [Some (Make 2 0 MakePersister), Some (Make 2 1 MakePersister)],
     cfg_applyErr = ['''', ''''], cfg_connected = [True, True], cfg_saved = [Some (SaveRaftState MakePersister [5]), None],
     cfg_endnames = [Some [''a'', ''b''], Some [''c'', ''d'']], cfg_logs = [[1 \<mapsto> Some 7], [1 \<mapsto> Some 7]], cfg_maxIndex = 1,
     cfg_start = 0, cfg_t0 = 0, cfg_rpcs0 = 0, cfg_cmds0 = 0, cfg_bytes0 = 0, cfg_maxIndex0 = 0\<rparr>"

lemmas demo_config_simps = demo_config_def disconnect_def crash1_def start1_def endname_def at_def upd_at_def Let_def

theorem disconnect_isolates_witness:
  "\<exists>cfg' dv. disconnect demo_config 1 = Some cfg' \<and>
    processReq (cfg_net cfg') \<lparr>req_endname = EndName ''b'', req_svcMeth = ''Raft.Start'', req_args = []\<rparr> demo_draws [] MakeNetwork = Some dv \<and>
    dv_msg dv = no_reply"
proof -
  obtain cfg' where c: "disconnect demo_config 1 = Some cfg'" by (simp add: demo_config_simps upt_rec)
  have "endname demo_config 1 0 = Some ''b'' \<or> endname demo_config 0 1 = Some ''b''" by (simp add: demo_config_simps)
  from disconnect_isolates[OF c _ this] c show ?thesis by (fastforce simp: demo_config_def)
qed

theorem crash_keeps_raft_state_witness:
  "\<exists>cfg' rf p'. start1 demo_config 0 [''e'', ''f''] 9 = Some cfg' \<and> cfg_rafts cfg' ! 0 = Some rf \<and> cfg_saved cfg' ! 0 = Some p' \<and>
    persister rf = p' \<and> ReadRaftState p' = [5]"
proof -
  obtain cfg' where c: "start1 demo_config 0 [''e'', ''f''] 9 = Some cfg'"
    by (simp add: demo_config_simps upt_rec MakeEnd_def MakeNetwork_def Enable_def enable_all_def DeleteServer_def Connect_def)
  have "cfg_saved demo_config ! 0 = Some (SaveRaftState MakePersister [5])" by (simp add: demo_config_def)
  from crash_keeps_raft_state[OF c this] c show ?thesis by (fastforce simp: SaveRaftState_def ReadRaftState_def)
qed

theorem one_leader_check_witness:
  "\<exists>s :: nat sys. \<exists>cfg i. reachable 3 s \<and> sees 3 s cfg \<and> checkOneLeader [cfg] = Some (Pass i) \<and> leading s cfg i"
proof -
  obtain s :: "nat sys" where s: "run_sys 3 (start_sys 3) first_election = Some s" "reachable 3 s"
    using run_reachable[OF reachable_start first_election_run(1)] by blast
  define cfg where "cfg = demo_config\<lparr>cfg_n := 3, cfg_connected := [True, True, True], cfg_rafts := map (\<lambda>i. Some (srv s i)) [0..<3]\<rparr>"
  have v: "sees 3 s cfg" by (simp add: sees_def cfg_def)
  have "leading s cfg 0" using s(1) first_election_run(2) by (simp add: leading_def cfg_def)
  moreover have "\<forall>i<3. 0 \<le> currentTerm (srv s i)" using net_invD(3)[OF reachable_inv[OF s(2)]] by (auto simp: raft_wf_def)
  ultimately have "\<exists>i. checkOneLeader [cfg] = Some (Pass i) \<and> leading s cfg i"
    using one_leader_check[OF v, of "[]"] s(2) by (metis zero_less_numeral)
  with s(2) v show ?thesis by blast
qed

lemma committed_loop_spec:
  assumes "\<forall>i\<in>set is. i < length (cfg_logs cfg) \<and> i < length (cfg_applyErr cfg) \<and> cfg_applyErr cfg ! i = ''''"
  shows "\<exists>r. committed_loop cfg index is c cmd = Some r \<and>
    (\<forall>nd cmd'. r = Pass (nd, cmd') \<longrightarrow> nd = c + length (filter (\<lambda>i. (cfg_logs cfg ! i) index \<noteq> None) is) \<and>
       (\<forall>i\<in>set is. \<forall>v. (cfg_logs cfg ! i) index = Some v \<longrightarrow> v = cmd') \<and> (0 < c \<longrightarrow> cmd' = cmd)) \<and>
    (\<forall>e. r = Fatal e \<longrightarrow> (\<exists>i\<in>set is. \<exists>v. (cfg_logs cfg ! i) index = Some v \<and>
       ((0 < c \<and> v \<noteq> cmd) \<or> (\<exists>j\<in>set is. \<exists>w. (cfg_logs cfg ! j) index = Some w \<and> v \<noteq> w))))"
  using assms
proof (induction "is" arbitrary: c cmd)
  case (Cons i "is")
  show ?case
  proof (cases "(cfg_logs cfg ! i) index")
    case None
    with Cons.prems have "committed_loop cfg index (i # is) c cmd = committed_loop cfg index is c cmd" by (simp add: at_def)
    moreover have "\<forall>i\<in>set is. i < length (cfg_logs cfg) \<and> i < length (cfg_applyErr cfg) \<and> cfg_applyErr cfg ! i = ''''" using Cons.prems by simp
    note Cons.IH[OF this, of c cmd]
    ultimately show ?thesis using None by (auto 0 4)
  next
    case (Some v)
    show ?thesis
    proof (cases "c > 0 \<and> cmd \<noteq> v")
      case True
      with Cons.prems Some have "committed_loop cfg index (i # is) c cmd = Some (Fatal ''committed values do not match'')" by (simp add: at_def)
      then show ?thesis using Some True by auto
    next
      case False
      with Cons.prems Some have eq: "committed_loop cfg index (i # is) c cmd = committed_loop cfg index is (c + 1) v" by (auto simp: at_def)
      have "\<forall>i\<in>set is. i < length (cfg_logs cfg) \<and> i < length (cfg_applyErr cfg) \<and> cfg_applyErr cfg ! i = ''''" using Cons.prems by simp
      from Cons.IH[OF this, of "c + 1" v] obtain r where r: "committed_loop cfg index is (c + 1) v = Some r"
        "\<forall>nd cmd'. r = Pass (nd, cmd') \<longrightarrow> nd = c + 1 + length (filter (\<lambda>i. (cfg_logs cfg ! i) index \<noteq> None) is) \<and>
           (\<forall>i\<in>set is. \<forall>v. (cfg_logs cfg ! i) index = Some v \<longrightarrow> v = cmd') \<and> (0 < c + 1 \<longrightarrow> cmd' = v)"
        "\<forall>e. r = Fatal e \<longrightarrow> (\<exists>i\<in>set is. \<exists>w. (cfg_logs cfg ! i) index = Some w \<and>
           (0 < c + 1 \<and> w \<noteq> v \<or> (\<exists>j\<in>set is. \<exists>u. (cfg_logs cfg ! j) index = Some u \<and> w \<noteq> u)))" by (elim exE conjE) (rule that)
      show ?thesis
      proof (intro exI[of _ r] conjI allI impI)
        show "committed_loop cfg index (i # is) c cmd = Some r" using eq r(1) by simp
      next
        fix nd cmd' assume p: "r = Pass (nd, cmd')"
        show "nd = c + length (filter (\<lambda>i. (cfg_logs cfg ! i) index \<noteq> None) (i # is))" using r(2) p Some by simp
        show "\<forall>j\<in>set (i # is). \<forall>v. (cfg_logs cfg ! j) index = Some v \<longrightarrow> v = cmd'" using r(2) p Some by auto
        assume "0 < c" then show "cmd' = cmd" using r(2) p False by simp
      next
        fix e assume "r = Fatal e"
        with r(3) obtain k w where k: "k \<in> set is" "(cfg_logs cfg ! k) index = Some w"
          "w \<noteq> v \<or> (\<exists>j\<in>set is. \<exists>u. (cfg_logs cfg ! j) index = Some u \<and> w \<noteq> u)" by blast
        have ex: "\<exists>j\<in>set (i # is). \<exists>u. (cfg_logs cfg ! j) index = Some u \<and> w \<noteq> u" using k(3) Some by auto
        show "\<exists>a\<in>set (i # is). \<exists>v. (cfg_logs cfg ! a) index = Some v \<and>
            ((0 < c \<and> v \<noteq> cmd) \<or> (\<exists>j\<in>set (i # is). \<exists>w. (cfg_logs cfg ! j) index = Some w \<and> v \<noteq> w))"
          by (rule bexI[of _ k], rule exI[of _ w]) (use ex k(1,2) in simp_all)
      qed
    qed
  qed
qed simp

theorem committed_count:
  assumes "length (cfg_logs cfg) = length (cfg_rafts cfg)" "length (cfg_applyErr cfg) = length (cfg_rafts cfg)"
    and "\<forall>e\<in>set (cfg_applyErr cfg). e = ''''"
  shows "\<exists>r. nCommitted cfg index = Some r \<and>
    (\<forall>nd cmd. r = Pass (nd, cmd) \<longrightarrow> nd = length (filter (\<lambda>lg. lg index \<noteq> None) (cfg_logs cfg)) \<and>
       (\<forall>lg\<in>set (cfg_logs cfg). \<forall>v. lg index = Some v \<longrightarrow> v = cmd)) \<and>
    (\<forall>e. r = Fatal e \<longrightarrow> (\<exists>lg\<in>set (cfg_logs cfg). \<exists>lg'\<in>set (cfg_logs cfg). \<exists>v w. lg index = Some v \<and> lg' index = Some w \<and> v \<noteq> w))"
proof -
  let ?is = "[0..<length (cfg_rafts cfg)]"
  have "\<forall>i\<in>set ?is. i < length (cfg_logs cfg) \<and> i < length (cfg_applyErr cfg) \<and> cfg_applyErr cfg ! i = ''''"
    using assms by (simp add: all_set_conv_all_nth)
  from committed_loop_spec[OF this, of index 0 None, folded nCommitted_def] obtain r where r: "nCommitted cfg index = Some r"
    "\<forall>nd cmd'. r = Pass (nd, cmd') \<longrightarrow> nd = 0 + length (filter (\<lambda>i. (cfg_logs cfg ! i) index \<noteq> None) ?is) \<and>
       (\<forall>i\<in>set ?is. \<forall>v. (cfg_logs cfg ! i) index = Some v \<longrightarrow> v = cmd') \<and> (0 < (0 :: nat) \<longrightarrow> cmd' = None)"
    "\<forall>e. r = Fatal e \<longrightarrow> (\<exists>i\<in>set ?is. \<exists>v. (cfg_logs cfg ! i) index = Some v \<and>
       (0 < (0 :: nat) \<and> v \<noteq> None \<or> (\<exists>j\<in>set ?is. \<exists>w. (cfg_logs cfg ! j) index = Some w \<and> v \<noteq> w)))"
    by (elim exE conjE) (rule that)
  have logs: "cfg_logs cfg = map ((!) (cfg_logs cfg)) ?is" using assms(1) by (simp add: map_nth flip: assms(1))
  have len: "length (filter (\<lambda>i. (cfg_logs cfg ! i) index \<noteq> None) ?is) = length (filter (\<lambda>lg. lg index \<noteq> None) (cfg_logs cfg))"
    by (subst (2) logs) (simp add: filter_map comp_def)
  have mem: "lg \<in> set (cfg_logs cfg) \<longleftrightarrow> (\<exists>i\<in>set ?is. lg = cfg_logs cfg ! i)" for lg
    using assms(1) by (auto simp: in_set_conv_nth)
  show ?thesis
  proof (intro exI[of _ r] conjI allI impI)
    fix nd cmd assume p: "r = Pass (nd, cmd)"
    show "nd = length (filter (\<lambda>lg. lg index \<noteq> None) (cfg_logs cfg))" using r(2) p len by simp
    have all: "\<forall>i\<in>set ?is. \<forall>v. (cfg_logs cfg ! i) index = Some v \<longrightarrow> v = cmd"
      using r(2)[rule_format, OF p] by (rule conjunct1[OF conjunct2])
    show "\<forall>lg\<in>set (cfg_logs cfg). \<forall>v. lg index = Some v \<longrightarrow> v = cmd"
    proof (intro ballI allI impI)
      fix lg v assume "lg \<in> set (cfg_logs cfg)" and v: "lg index = Some v"
      then obtain i where i: "i \<in> set ?is" "lg = cfg_logs cfg ! i" using mem by auto
      show "v = cmd" by (rule all[rule_format, OF i(1)]) (use v i(2) in simp)
    qed
  next
    fix e assume "r = Fatal e"
    with r(3) obtain i j v w where "i \<in> set ?is" "j \<in> set ?is" "(cfg_logs cfg ! i) index = Some v" "(cfg_logs cfg ! j) index = Some w" "v \<noteq> w"
      by (metis less_irrefl)
    then show "\<exists>lg\<in>set (cfg_logs cfg). \<exists>lg'\<in>set (cfg_logs cfg). \<exists>v w. lg index = Some v \<and> lg' index = Some w \<and> v \<noteq> w"
      using mem by blast
  qed (rule r(1))
qed

theorem committed_count_witness: "nCommitted demo_config 1 = Some (Pass (2, Some 7))"
proof -
  have "nCommitted demo_config 1 = Some (Pass (2, Some 7))" by (simp add: nCommitted_def demo_config_def at_def upt_rec)
  with committed_count[of demo_config 1] show ?thesis by (simp add: demo_config_def)
qed

section \<open>Applied commands\<close>

text \<open>What the harness knows of peer \<open>i\<close>: it has applied the entries up to \<^verbatim>\<open>lastApplied\<close>, and nobody else an other command.\<close>

definition applied_upto :: "'c rconfig \<Rightarrow> nat \<Rightarrow> 'c raft \<Rightarrow> bool" where
  "applied_upto cfg i rf \<longleftrightarrow> i < length (cfg_logs cfg) \<and> (\<forall>x\<ge>1. (cfg_logs cfg ! i) x \<noteq> None \<longleftrightarrow> x \<le> lastApplied rf) \<and>
     (\<forall>j<length (cfg_logs cfg). \<forall>x v. lastApplied rf < x \<longrightarrow> x \<le> commitIndex rf \<longrightarrow> (cfg_logs cfg ! j) x = Some v \<longrightarrow>
        v = Entry (rlog rf ! nat x))"

lemma apply_reader_next:
  assumes a: "applied_upto cfg i rf" and c: "lastApplied rf < commitIndex rf" "0 \<le> lastApplied rf"
  defines "k \<equiv> lastApplied rf + 1"
  shows "\<exists>cfg'. apply_reader i \<lparr>CommandValid = True, Command = Entry (rlog rf ! nat k), CommandIndex = k\<rparr> cfg = Pass cfg' \<and>
    cfg_logs cfg' = (cfg_logs cfg)[i := (cfg_logs cfg ! i)(k \<mapsto> Entry (rlog rf ! nat k))] \<and> applied_upto cfg' i (rf\<lparr>lastApplied := k\<rparr>)"
proof -
  define cfg' where "cfg' = cfg\<lparr>cfg_logs := (cfg_logs cfg)[i := (cfg_logs cfg ! i)(k \<mapsto> Entry (rlog rf ! nat k))],
    cfg_maxIndex := (if k > cfg_maxIndex cfg then k else cfg_maxIndex cfg)\<rparr>"
  have i: "i < length (cfg_logs cfg)" and own: "\<forall>x\<ge>1. (cfg_logs cfg ! i) x \<noteq> None \<longleftrightarrow> x \<le> lastApplied rf"
    and agree: "\<forall>j<length (cfg_logs cfg). \<forall>x v. lastApplied rf < x \<longrightarrow> x \<le> commitIndex rf \<longrightarrow> (cfg_logs cfg ! j) x = Some v \<longrightarrow>
        v = Entry (rlog rf ! nat x)" using a unfolding applied_upto_def by blast+
  have "\<not> (\<exists>j<length (cfg_logs cfg). \<exists>old. (cfg_logs cfg ! j) k = Some old \<and> old \<noteq> Entry (rlog rf ! nat k))"
    using agree c(1) unfolding k_def by (metis add1_zle_eq zless_add1_eq)
  moreover have "\<not> (k > 1 \<and> (cfg_logs cfg ! i) (k - 1) = None)" using own unfolding k_def by auto
  ultimately have "apply_reader i \<lparr>CommandValid = True, Command = Entry (rlog rf ! nat k), CommandIndex = k\<rparr> cfg = Pass cfg'"
    by (simp add: apply_reader_def Let_def cfg'_def)
  moreover have "applied_upto cfg' i (rf\<lparr>lastApplied := k\<rparr>)" unfolding applied_upto_def
  proof (intro conjI allI impI)
    show "i < length (cfg_logs cfg')" using i by (simp add: cfg'_def)
    fix x :: int assume x: "1 \<le> x"
    have "(cfg_logs cfg ! i) x \<noteq> None \<longleftrightarrow> x \<le> lastApplied rf" by (rule own[rule_format, OF x])
    then show "(cfg_logs cfg' ! i) x \<noteq> None \<longleftrightarrow> x \<le> lastApplied (rf\<lparr>lastApplied := k\<rparr>)"
      using i by (auto simp: cfg'_def k_def)
  next
    fix j x v assume "j < length (cfg_logs cfg')" "lastApplied (rf\<lparr>lastApplied := k\<rparr>) < x" "x \<le> commitIndex (rf\<lparr>lastApplied := k\<rparr>)"
      "(cfg_logs cfg' ! j) x = Some v"
    then have "j < length (cfg_logs cfg)" "lastApplied rf < x" "x \<le> commitIndex rf" "(cfg_logs cfg ! j) x = Some v"
      using i by (auto simp: cfg'_def k_def nth_list_update split: if_splits)
    then show "v = Entry (rlog (rf\<lparr>lastApplied := k\<rparr>) ! nat x)" using agree by simp
  qed
  ultimately show ?thesis by (intro exI[of _ cfg']) (simp add: cfg'_def)
qed

lemma applier_run_mono: "applier_run k rf = Some (rf', msgs) \<Longrightarrow> lastApplied rf \<le> lastApplied rf'"
proof (induction k arbitrary: rf msgs)
  case (Suc k)
  then obtain rf1 msg msgs1 where "applier_step rf = Some (rf1, msg)" "applier_run k rf1 = Some (rf', msgs1)"
    by (auto simp: bind_Some_iff)
  moreover from this(1) have "lastApplied rf \<le> lastApplied rf1" by (auto simp: applier_step_def Let_def bind_Some_iff split: if_splits)
  ultimately show ?case using Suc.IH by fastforce
qed simp

text \<open>
  \<^bold>\<open>C17\<close>. The messages the applier of a peer sends, fed to the reader of the harness, are accepted: none is
  out of order, none conflicts while the other peers agree on the committed entries, and the harness
  then holds exactly the entries applied.
\<close>

theorem tester_accepts_applier:
  assumes "raft_wf n rf" "applied_upto cfg i rf"
  shows "\<exists>rf' msgs cfg'. applier_run k rf = Some (rf', msgs) \<and> apply_all i msgs cfg = Pass cfg' \<and> applied_upto cfg' i rf' \<and>
    (\<forall>x. (cfg_logs cfg' ! i) x =
      (if lastApplied rf < x \<and> x \<le> lastApplied rf' then Some (Entry (rlog rf ! nat x)) else (cfg_logs cfg ! i) x))"
  using assms
proof (induction k arbitrary: rf cfg)
  case 0
  then show ?case by auto
next
  case (Suc k)
  show ?case
  proof (cases "commitIndex rf > lastApplied rf")
    case True
    define rf1 where "rf1 = rf\<lparr>lastApplied := lastApplied rf + 1\<rparr>"
    define m where "m = \<lparr>CommandValid = True, Command = Entry (rlog rf ! nat (lastApplied rf + 1)), CommandIndex = lastApplied rf + 1\<rparr>"
    have s: "applier_step rf = Some (rf1, Some m)" using True Suc.prems(1) by (simp add: applier_step_def raft_wf_def at_def rf1_def m_def)
    have la: "0 \<le> lastApplied rf" using Suc.prems(1) by (simp add: raft_wf_def)
    have wf: "raft_wf n rf1" using Suc.prems(1) by (simp add: raft_wf_def rf1_def)
    from apply_reader_next[OF Suc.prems(2) True la, folded m_def rf1_def] obtain cfg1 where
      c1: "apply_reader i m cfg = Pass cfg1" "applied_upto cfg1 i rf1"
        "cfg_logs cfg1 = (cfg_logs cfg)[i := (cfg_logs cfg ! i)(lastApplied rf + 1 \<mapsto> Entry (rlog rf ! nat (lastApplied rf + 1)))]"
      by blast
    from Suc.IH[OF wf c1(2)] obtain rf' msgs cfg' where r: "applier_run k rf1 = Some (rf', msgs)" "apply_all i msgs cfg1 = Pass cfg'"
      "applied_upto cfg' i rf'" "\<forall>x. (cfg_logs cfg' ! i) x =
        (if lastApplied rf1 < x \<and> x \<le> lastApplied rf' then Some (Entry (rlog rf1 ! nat x)) else (cfg_logs cfg1 ! i) x)" by blast
    have i: "i < length (cfg_logs cfg)" using Suc.prems(2) by (simp add: applied_upto_def)
    have le: "lastApplied rf1 \<le> lastApplied rf'" using applier_run_mono[OF r(1)] .
    have "(cfg_logs cfg' ! i) x =
      (if lastApplied rf < x \<and> x \<le> lastApplied rf' then Some (Entry (rlog rf ! nat x)) else (cfg_logs cfg ! i) x)" for x
      using r(4)[rule_format, of x] le i c1(3) by (auto simp: rf1_def)
    then show ?thesis using s r c1(1) by (intro exI[of _ rf'] exI[of _ "m # msgs"] exI[of _ cfg']) simp
  next
    case False
    then have "applier_step rf = Some (rf, None)" by (simp add: applier_step_def)
    with Suc.IH[OF Suc.prems] show ?thesis by auto
  qed
qed

theorem tester_accepts_applier_witness:
  "\<exists>rf' msgs cfg'. applier_run 3 (Make 2 0 MakePersister\<lparr>rlog := [\<lparr>Entry = None, LogTerm = 0\<rparr>, \<lparr>Entry = Some 7, LogTerm = 1\<rparr>], commitIndex := 1\<rparr>) =
      Some (rf', msgs) \<and> apply_all 0 msgs (demo_config\<lparr>cfg_logs := [Map.empty, [1 \<mapsto> Some 7]]\<rparr>) = Pass cfg'"
proof -
  let ?rf = "Make 2 0 MakePersister\<lparr>rlog := [\<lparr>Entry = None, LogTerm = 0\<rparr>, \<lparr>Entry = Some (7 :: nat), LogTerm = 1\<rparr>], commitIndex := 1\<rparr>"
  have "raft_wf 2 ?rf" by (simp add: raft_wf_def Make_def readPersist_def)
  moreover have "applied_upto (demo_config\<lparr>cfg_logs := [Map.empty, [1 \<mapsto> Some 7]]\<rparr>) 0 ?rf"
    by (auto simp: applied_upto_def Make_def readPersist_def less_Suc_eq split: if_splits)
  ultimately show ?thesis using tester_accepts_applier[of 2 ?rf _ 0 3] by blast
qed

end
