(* ===== verification/Clients.thy ===== *)
theory Clients
  imports Raft
begin

text \<open>
  The clerks of \<^verbatim>\<open>shardmaster/client.go\<close> and \<^verbatim>\<open>shardkv/client.go\<close>, which repeat a request until some server
  answers it, and the server skeletons of \<^verbatim>\<open>kvraft\<close>, \<^verbatim>\<open>shardkv\<close> and \<^verbatim>\<open>shardmaster\<close>.

  A clerk loops forever when no server ever answers, so its loops are partial functions and
  \<open>None\<close> says that the call does not return.  What the servers answer is an argument: in round \<open>k\<close>
  the call to a server returns \<open>None\<close> for \<^verbatim>\<open>false\<close> or the reply.
\<close>

section \<open>Configurations and replies\<close>

definition NShards :: nat where
  "NShards = 10"

record Config =
  Num :: int
  Shards :: "int list"
  Groups :: "int \<rightharpoonup> string list"

definition zero_config :: Config where
  "zero_config = \<lparr>Num = 0, Shards = replicate NShards 0, Groups = Map.empty\<rparr>"

text \<open>The replies of \<^verbatim>\<open>Join\<close>, \<^verbatim>\<open>Leave\<close> and \<^verbatim>\<open>Move\<close> have the same two fields.\<close>

record SmReply =
  WrongLeader :: bool
  smErr :: string

record QueryReply = SmReply +
  qConfig :: Config

record GetReply =
  getErr :: string
  getValue :: string

record PutAppendReply =
  putErr :: string

definition OK :: string where "OK = ''OK''"
definition ErrNoKey :: string where "ErrNoKey = ''ErrNoKey''"
definition ErrWrongGroup :: string where "ErrWrongGroup = ''ErrWrongGroup''"
definition ErrWrongLeader :: string where "ErrWrongLeader = ''ErrWrongLeader''"

lemmas err_defs = OK_def ErrNoKey_def ErrWrongGroup_def ErrWrongLeader_def

section \<open>The clerk of the shard master\<close>

text \<open>One pass over the servers: the first reply that is not from a wrong leader.\<close>

fun try_servers :: "('a :: type) SmReply_scheme option list \<Rightarrow> 'a SmReply_scheme option" where
  "try_servers [] = None"
| "try_servers (None # rest) = try_servers rest"
| "try_servers (Some reply # rest) = (if \<not> WrongLeader reply then Some reply else try_servers rest)"

text \<open>The statement \<^verbatim>\<open>for { ... }\<close> around a pass that returns or goes on to the next one.\<close>

partial_function (option) forever :: "(nat \<Rightarrow> 'r option) \<Rightarrow> nat \<Rightarrow> 'r option" where
  "forever attempt k = (case attempt k of Some r \<Rightarrow> Some r | None \<Rightarrow> forever attempt (k + 1))"

definition Query :: "(int \<Rightarrow> nat \<Rightarrow> QueryReply option list) \<Rightarrow> int \<Rightarrow> Config option" where
  "Query calls num = forever (\<lambda>k. map_option qConfig (try_servers (calls num k))) 0"

definition Join :: "((int \<rightharpoonup> string list) \<Rightarrow> nat \<Rightarrow> SmReply option list) \<Rightarrow> (int \<rightharpoonup> string list) \<Rightarrow> unit option" where
  "Join calls servers = forever (\<lambda>k. map_option (\<lambda>_. ()) (try_servers (calls servers k))) 0"

definition Leave :: "(int list \<Rightarrow> nat \<Rightarrow> SmReply option list) \<Rightarrow> int list \<Rightarrow> unit option" where
  "Leave calls gids = forever (\<lambda>k. map_option (\<lambda>_. ()) (try_servers (calls gids k))) 0"

definition Move :: "(int \<times> int \<Rightarrow> nat \<Rightarrow> SmReply option list) \<Rightarrow> int \<Rightarrow> int \<Rightarrow> unit option" where
  "Move calls shard gid = forever (\<lambda>k. map_option (\<lambda>_. ()) (try_servers (calls (shard, gid) k))) 0"

section \<open>The clerk of the sharded store\<close>

text \<open>The first byte of the key modulo the number of shards.\<close>

definition key2shard :: "string \<Rightarrow> nat" where
  "key2shard key = (let shard = (if length key > 0 then of_char (key ! 0) else 0 :: nat) in shard mod NShards)"

text \<open>\<^verbatim>\<open>nrand\<close>: a draw below \<^verbatim>\<open>1 << 62\<close>, so the conversion to \<^verbatim>\<open>int64\<close> is exact.\<close>

definition nrand :: "nat \<Rightarrow> int" where
  "nrand draw = int (draw mod 2 ^ 62)"

text \<open>
  The inner loops over the servers of a group: \<open>Some\<close> is a \<^verbatim>\<open>return\<close>, \<open>None\<close> the end of the loop or its
  \<^verbatim>\<open>break\<close>.
\<close>

fun get_servers :: "GetReply option list \<Rightarrow> string option" where
  "get_servers [] = None"
| "get_servers (None # rest) = get_servers rest"
| "get_servers (Some reply # rest) =
    (if getErr reply = OK \<or> getErr reply = ErrNoKey then Some (getValue reply)
     else if getErr reply = ErrWrongGroup then None
     else get_servers rest)"

fun put_servers :: "PutAppendReply option list \<Rightarrow> unit option" where
  "put_servers [] = None"
| "put_servers (None # rest) = put_servers rest"
| "put_servers (Some reply # rest) =
    (if putErr reply = OK then Some ()
     else if putErr reply = ErrWrongGroup then None
     else put_servers rest)"

text \<open>The servers of the group that a configuration assigns to the shard of a key.\<close>

definition group_of :: "Config \<Rightarrow> string \<Rightarrow> string list option" where
  "group_of config key = do { gid \<leftarrow> at (Shards config) (int (key2shard key)); Groups config gid }"

definition get_round :: "(nat \<Rightarrow> string \<Rightarrow> GetReply option) \<Rightarrow> Config \<Rightarrow> string \<Rightarrow> string option" where
  "get_round call config key = (case group_of config key of
     None \<Rightarrow> None
   | Some servers \<Rightarrow> get_servers (map (\<lambda>si. call si (servers ! si)) [0..<length servers]))"

definition put_round :: "(nat \<Rightarrow> string \<Rightarrow> PutAppendReply option) \<Rightarrow> Config \<Rightarrow> string \<Rightarrow> unit option" where
  "put_round call config key = (case group_of config key of
     None \<Rightarrow> None
   | Some servers \<Rightarrow> put_servers (map (\<lambda>si. call si (servers ! si)) [0..<length servers]))"

text \<open>
  The loop of \<^verbatim>\<open>Get\<close> and \<^verbatim>\<open>PutAppend\<close> with \<^verbatim>\<open>ck.config\<close> as its state: a round that does not return is followed
  by \<^verbatim>\<open>ck.sm.Query(-1)\<close>, and when that does not return neither does the loop.  The result is paired with the
  configuration that the clerk is left with.
\<close>

partial_function (option) clerk_loop :: "(nat \<Rightarrow> Config \<Rightarrow> 'r option) \<Rightarrow> (nat \<Rightarrow> Config option) \<Rightarrow> nat \<Rightarrow> Config
    \<Rightarrow> ('r \<times> Config) option" where
  "clerk_loop attempt query k config = (case attempt k config of
     Some r \<Rightarrow> Some (r, config)
   | None \<Rightarrow> (case query k of None \<Rightarrow> None | Some config \<Rightarrow> clerk_loop attempt query (k + 1) config))"

text \<open>\<open>call k\<close> are the answers of the group's servers in round \<open>k\<close>, \<open>sm k\<close> those of the shard masters to the query after it.\<close>

definition Get :: "(nat \<Rightarrow> nat \<Rightarrow> string \<Rightarrow> GetReply option) \<Rightarrow> (nat \<Rightarrow> int \<Rightarrow> nat \<Rightarrow> QueryReply option list) \<Rightarrow> Config \<Rightarrow> string
    \<Rightarrow> (string \<times> Config) option" where
  "Get call sm config key = clerk_loop (\<lambda>k config. get_round (call k) config key) (\<lambda>k. Query (sm k) (-1)) 0 config"

text \<open>The answers to a \<^verbatim>\<open>PutAppend\<close> depend on its arguments.\<close>

definition PutAppend :: "(string \<times> string \<times> string \<Rightarrow> nat \<Rightarrow> nat \<Rightarrow> string \<Rightarrow> PutAppendReply option)
    \<Rightarrow> (nat \<Rightarrow> int \<Rightarrow> nat \<Rightarrow> QueryReply option list) \<Rightarrow> Config \<Rightarrow> string \<Rightarrow> string \<Rightarrow> string \<Rightarrow> (unit \<times> Config) option" where
  "PutAppend call sm config key value opn =
    clerk_loop (\<lambda>k config. put_round (call (key, value, opn) k) config key) (\<lambda>k. Query (sm k) (-1)) 0 config"

definition Put :: "(string \<times> string \<times> string \<Rightarrow> nat \<Rightarrow> nat \<Rightarrow> string \<Rightarrow> PutAppendReply option)
    \<Rightarrow> (nat \<Rightarrow> int \<Rightarrow> nat \<Rightarrow> QueryReply option list) \<Rightarrow> Config \<Rightarrow> string \<Rightarrow> string \<Rightarrow> (unit \<times> Config) option" where
  "Put call sm config key value = PutAppend call sm config key value ''Put''"

definition Append_op :: "(string \<times> string \<times> string \<Rightarrow> nat \<Rightarrow> nat \<Rightarrow> string \<Rightarrow> PutAppendReply option)
    \<Rightarrow> (nat \<Rightarrow> int \<Rightarrow> nat \<Rightarrow> QueryReply option list) \<Rightarrow> Config \<Rightarrow> string \<Rightarrow> string \<Rightarrow> (unit \<times> Config) option" where
  "Append_op call sm config key value = PutAppend call sm config key value ''Append''"

section \<open>Retrying\<close>

text \<open>
  What the loops share: a round either ends the loop with a result or is followed by the
  next one, and without a successful round the loop does not return.
\<close>

locale retry =
  fixes attempt :: "nat \<Rightarrow> 'r option" and loop :: "nat \<Rightarrow> 'r option"
  assumes loop_unfold: "loop k = (case attempt k of Some r \<Rightarrow> Some r | None \<Rightarrow> loop (k + 1))"
    and loop_stuck: "(\<forall>j\<ge>k. attempt j = None) \<Longrightarrow> loop k = None"
begin

lemma loop_skip: "(\<forall>j<n. attempt (k + j) = None) \<Longrightarrow> loop k = loop (k + n)"
proof (induction n arbitrary: k)
  case (Suc n)
  have "attempt k = None" using Suc.prems[rule_format, of 0] by simp
  then have "loop k = loop (k + 1)" using loop_unfold[of k] by simp
  moreover have "\<forall>j<n. attempt (k + 1 + j) = None"
  proof (intro allI impI)
    fix j assume "j < n"
    then show "attempt (k + 1 + j) = None" using Suc.prems[rule_format, of "Suc j"] by simp
  qed
  then have "loop (k + 1) = loop (k + 1 + n)" by (rule Suc.IH)
  ultimately show ?case by simp
qed simp

lemma returns_first: "attempt n = Some r \<Longrightarrow> \<forall>j<n. attempt j = None \<Longrightarrow> loop 0 = Some r"
  using loop_skip[of n 0] loop_unfold[of n] by simp

lemma first_success: "attempt m \<noteq> None \<Longrightarrow> \<exists>n r. attempt n = Some r \<and> (\<forall>j<n. attempt j = None)"
proof (induction m rule: less_induct)
  case (less m)
  show ?case
  proof (cases "\<forall>j<m. attempt j = None")
    case True
    then show ?thesis using less.prems by blast
  next
    case False
    then show ?thesis using less.IH by blast
  qed
qed

lemma returns_iff: "loop 0 = Some r \<longleftrightarrow> (\<exists>n. attempt n = Some r \<and> (\<forall>j<n. attempt j = None))"
proof
  assume l: "loop 0 = Some r"
  obtain m where "attempt m \<noteq> None" using loop_stuck[of 0] l by force
  from first_success[OF this] obtain n r' where n: "attempt n = Some r'" "\<forall>j<n. attempt j = None" by blast
  with returns_first[OF n] l show "\<exists>n. attempt n = Some r \<and> (\<forall>j<n. attempt j = None)" by auto
qed (use returns_first in blast)

lemma returns: "loop 0 \<noteq> None \<longleftrightarrow> (\<exists>n. attempt n \<noteq> None)"
proof
  assume "\<exists>n. attempt n \<noteq> None"
  then obtain n r where "attempt n = Some r" "\<forall>j<n. attempt j = None" using first_success by blast
  from returns_first[OF this] show "loop 0 \<noteq> None" by simp
qed (use loop_stuck[of 0] in force)

end

lemma forever_stuck: assumes "\<forall>j\<ge>k. attempt j = None" shows "forever attempt k = None"
proof -
  have "\<exists>j\<ge>k. attempt j \<noteq> None" if "forever attempt k = Some r" for r
  proof (rule forever.raw_induct[where P = "\<lambda>attempt k r. \<exists>j\<ge>k. attempt j \<noteq> None", OF _ that])
    fix rec :: "(nat \<Rightarrow> 'a option) \<Rightarrow> nat \<Rightarrow> 'a option" and attempt k y
    assume IH: "\<And>attempt k y. rec attempt k = Some y \<Longrightarrow> \<exists>j\<ge>k. attempt j \<noteq> None"
      and e: "(case attempt k of None \<Rightarrow> rec attempt (k + 1) | Some r \<Rightarrow> Some r) = Some y"
    show "\<exists>j\<ge>k. attempt j \<noteq> None"
    proof (cases "attempt k")
      case None
      with e IH[of attempt "k + 1" y] show ?thesis by (auto dest: Suc_leD)
    qed auto
  qed
  with assms show ?thesis by (cases "forever attempt k") auto
qed

interpretation rt: retry attempt "forever attempt" for attempt :: "nat \<Rightarrow> 'r option"
  by unfold_locales (rule forever.simps, rule forever_stuck)

text \<open>
  The loop of the sharded clerk is one of these too: \<open>config_at k\<close> is the configuration of round \<open>k\<close>, if all
  queries before it returned.
\<close>

fun config_at :: "(nat \<Rightarrow> Config option) \<Rightarrow> Config \<Rightarrow> nat \<Rightarrow> Config option" where
  "config_at query config 0 = Some config"
| "config_at query config (Suc k) = (if config_at query config k = None then None else query k)"

definition clerk_attempt :: "(nat \<Rightarrow> Config \<Rightarrow> 'r option) \<Rightarrow> (nat \<Rightarrow> Config option) \<Rightarrow> Config \<Rightarrow> nat \<Rightarrow> ('r \<times> Config) option" where
  "clerk_attempt attempt query config k =
    Option.bind (config_at query config k) (\<lambda>c. map_option (\<lambda>r. (r, c)) (attempt k c))"

definition clerk_from :: "(nat \<Rightarrow> Config \<Rightarrow> 'r option) \<Rightarrow> (nat \<Rightarrow> Config option) \<Rightarrow> Config \<Rightarrow> nat \<Rightarrow> ('r \<times> Config) option" where
  "clerk_from attempt query config k = Option.bind (config_at query config k) (clerk_loop attempt query k)"

lemma clerk_loop_attempt:
  assumes "clerk_loop attempt query k c = Some y" "config_at query config k = Some c"
  shows "\<exists>j\<ge>k. clerk_attempt attempt query config j \<noteq> None"
proof -
  have "\<forall>config. config_at query config k = Some c \<longrightarrow> (\<exists>j\<ge>k. clerk_attempt attempt query config j \<noteq> None)"
  proof (rule clerk_loop.raw_induct[where P = "\<lambda>attempt query k c y. \<forall>config. config_at query config k = Some c \<longrightarrow>
      (\<exists>j\<ge>k. clerk_attempt attempt query config j \<noteq> None)", OF _ assms(1)], intro allI impI)
    fix rec :: "(nat \<Rightarrow> Config \<Rightarrow> 'a option) \<Rightarrow> (nat \<Rightarrow> Config option) \<Rightarrow> nat \<Rightarrow> Config \<Rightarrow> ('a \<times> Config) option"
      and attempt query k c y config
    assume IH: "\<And>attempt query k c y. rec attempt query k c = Some y \<Longrightarrow> \<forall>config. config_at query config k = Some c \<longrightarrow>
        (\<exists>j\<ge>k. clerk_attempt attempt query config j \<noteq> None)"
      and e: "(case attempt k c of Some r \<Rightarrow> Some (r, c)
        | None \<Rightarrow> (case query k of None \<Rightarrow> None | Some c \<Rightarrow> rec attempt query (k + 1) c)) = Some y"
      and c: "config_at query config k = Some c"
    show "\<exists>j\<ge>k. clerk_attempt attempt query config j \<noteq> None"
    proof (cases "attempt k c")
      case None
      then obtain c' where "query k = Some c'" "rec attempt query (k + 1) c' = Some y" using e by (auto split: option.splits)
      moreover from this c have "config_at query config (k + 1) = Some c'" by simp
      ultimately obtain j where "j \<ge> k + 1" "clerk_attempt attempt query config j \<noteq> None" using IH by blast
      then show ?thesis by (intro exI[of _ j]) simp
    qed (use c in \<open>auto simp: clerk_attempt_def\<close>)
  qed
  with assms(2) show ?thesis by blast
qed

interpretation ck: retry "clerk_attempt attempt query config" "clerk_from attempt query config"
  for attempt :: "nat \<Rightarrow> Config \<Rightarrow> 'r option" and query config
proof
  fix k
  show "clerk_from attempt query config k = (case clerk_attempt attempt query config k of
      Some r \<Rightarrow> Some r | None \<Rightarrow> clerk_from attempt query config (k + 1))"
    by (cases "config_at query config k")
      (auto simp: clerk_from_def clerk_attempt_def clerk_loop.simps[of attempt query k] split: option.splits)
  assume "\<forall>j\<ge>k. clerk_attempt attempt query config j = None"
  then have no: "config_at query config k = Some c \<Longrightarrow> clerk_loop attempt query k c = None" for c
    using clerk_loop_attempt[of attempt query k c _ config] by (metis option.exhaust)
  show "clerk_from attempt query config k = None"
    by (cases "config_at query config k") (simp_all add: clerk_from_def no)
qed

lemma Get_retry: "Get call sm config key =
    clerk_from (\<lambda>k config. get_round (call k) config key) (\<lambda>k. Query (sm k) (-1)) config 0"
  by (simp add: Get_def clerk_from_def)

section \<open>What the loops return\<close>

lemma try_servers_None: "try_servers calls = None \<longleftrightarrow> (\<forall>reply. Some reply \<in> set calls \<longrightarrow> WrongLeader reply)"
  by (induction calls rule: try_servers.induct) auto

lemma try_servers_SomeD: "try_servers calls = Some reply \<Longrightarrow> Some reply \<in> set calls \<and> \<not> WrongLeader reply"
  by (induction calls rule: try_servers.induct) (auto split: if_splits)

lemma get_servers_SomeD:
  "get_servers calls = Some v \<Longrightarrow> \<exists>i reply. i < length calls \<and> calls ! i = Some reply \<and> (getErr reply = OK \<or> getErr reply = ErrNoKey) \<and>
    getValue reply = v \<and> (\<forall>j<i. \<forall>r. calls ! j = Some r \<longrightarrow> getErr r \<notin> {OK, ErrNoKey, ErrWrongGroup})"
proof (induction calls)
  case (Cons c calls)
  show ?case
  proof (cases "\<exists>reply. c = Some reply \<and> (getErr reply = OK \<or> getErr reply = ErrNoKey)")
    case True
    then show ?thesis using Cons.prems by (intro exI[of _ 0]) auto
  next
    case False
    then have "get_servers calls = Some v" "\<forall>r. c = Some r \<longrightarrow> getErr r \<notin> {OK, ErrNoKey, ErrWrongGroup}"
      using Cons.prems by (cases c; auto split: if_splits)+
    with Cons.IH obtain i reply where "i < length calls" "calls ! i = Some reply" "getErr reply = OK \<or> getErr reply = ErrNoKey"
        "getValue reply = v" "\<forall>j<i. \<forall>r. calls ! j = Some r \<longrightarrow> getErr r \<notin> {OK, ErrNoKey, ErrWrongGroup}" by blast
    with \<open>\<forall>r. c = Some r \<longrightarrow> _\<close> show ?thesis
      by (intro exI[of _ "Suc i"] exI[of _ reply]) (auto simp: less_Suc_eq_0_disj)
  qed
qed simp

lemma get_servers_returns:
  assumes "i < length calls" "calls ! i = Some reply" "getErr reply = OK \<or> getErr reply = ErrNoKey"
    and "\<forall>j<i. \<forall>r. calls ! j = Some r \<longrightarrow> getErr r \<noteq> ErrWrongGroup"
  shows "get_servers calls \<noteq> None"
  using assms
proof (induction calls arbitrary: i)
  case (Cons c calls)
  show ?case
  proof (cases i)
    case 0
    then show ?thesis using Cons.prems(2,3) by auto
  next
    case (Suc k)
    have "\<forall>j<k. \<forall>r. calls ! j = Some r \<longrightarrow> getErr r \<noteq> ErrWrongGroup"
      using Cons.prems(4) Suc by (metis Suc_less_eq nth_Cons_Suc)
    then have rest: "get_servers calls \<noteq> None" using Cons.IH[of k] Cons.prems(1-3) Suc by simp
    show ?thesis
    proof (cases c)
      case (Some r)
      then have "getErr r \<noteq> ErrWrongGroup" using Cons.prems(4)[rule_format, of 0 r] Suc by simp
      then show ?thesis using Some rest by simp
    qed (use rest in simp)
  qed
qed simp

section \<open>Server skeletons\<close>

record 'c KVServer =
  kv_me :: nat
  kv_rf :: "'c raft"
  kv_dead :: int
  kv_maxraftstate :: int

text \<open>The handlers \<^verbatim>\<open>Get\<close> and \<^verbatim>\<open>PutAppend\<close> of \<^verbatim>\<open>KVServer\<close> have empty bodies, and so have those of \<^verbatim>\<open>ShardKV\<close>.\<close>

definition KVServer_Get :: "'c KVServer \<Rightarrow> string \<Rightarrow> GetReply \<Rightarrow> 'c KVServer \<times> GetReply" where
  "KVServer_Get kv key reply = (kv, reply)"

definition KVServer_PutAppend :: "'c KVServer \<Rightarrow> string \<times> string \<times> string \<Rightarrow> PutAppendReply \<Rightarrow> 'c KVServer \<times> PutAppendReply" where
  "KVServer_PutAppend kv args reply = (kv, reply)"

definition KVServer_Kill :: "'c KVServer \<Rightarrow> 'c KVServer" where
  "KVServer_Kill kv = kv\<lparr>kv_dead := 1, kv_rf := Kill (kv_rf kv)\<rparr>"

definition KVServer_killed :: "'c KVServer \<Rightarrow> bool" where
  "KVServer_killed kv = (kv_dead kv = 1)"

definition StartKVServer :: "nat \<Rightarrow> nat \<Rightarrow> Persister \<Rightarrow> int \<Rightarrow> 'c KVServer" where
  "StartKVServer npeers self ps maxraftstate =
    \<lparr>kv_me = self, kv_rf = Make npeers self ps, kv_dead = 0, kv_maxraftstate = maxraftstate\<rparr>"

record 'c ShardKV =
  sk_me :: nat
  sk_rf :: "'c raft"
  sk_gid :: int
  sk_maxraftstate :: int

definition ShardKV_Kill :: "'c ShardKV \<Rightarrow> 'c ShardKV" where
  "ShardKV_Kill kv = kv\<lparr>sk_rf := Kill (sk_rf kv)\<rparr>"

definition ShardKV_StartServer :: "nat \<Rightarrow> nat \<Rightarrow> Persister \<Rightarrow> int \<Rightarrow> int \<Rightarrow> 'c ShardKV" where
  "ShardKV_StartServer npeers self ps maxraftstate gid =
    \<lparr>sk_me = self, sk_rf = Make npeers self ps, sk_gid = gid, sk_maxraftstate = maxraftstate\<rparr>"

record 'c ShardMaster =
  sm_me :: nat
  sm_rf :: "'c raft"
  sm_configs :: "Config list"

definition ShardMaster_Kill :: "'c ShardMaster \<Rightarrow> 'c ShardMaster" where
  "ShardMaster_Kill sm = sm\<lparr>sm_rf := Kill (sm_rf sm)\<rparr>"

definition ShardMaster_Raft :: "'c ShardMaster \<Rightarrow> 'c raft" where
  "ShardMaster_Raft sm = sm_rf sm"

definition ShardMaster_StartServer :: "nat \<Rightarrow> nat \<Rightarrow> Persister \<Rightarrow> 'c ShardMaster" where
  "ShardMaster_StartServer npeers self ps = \<lparr>sm_me = self, sm_rf = Make npeers self ps, sm_configs = [zero_config]\<rparr>"

section \<open>Properties\<close>

text \<open>
  \<^bold>\<open>C30\<close>. Query returns exactly when in some round some server that is not a wrong leader answers, and then
  with the configuration of such a reply in the first round that has one; otherwise it loops
  forever.
\<close>

theorem query_returns:
  "(Query calls num \<noteq> None \<longleftrightarrow> (\<exists>k reply. Some reply \<in> set (calls num k) \<and> \<not> WrongLeader reply)) \<and>
   (\<forall>c. Query calls num = Some c \<longrightarrow> (\<exists>k reply. Some reply \<in> set (calls num k) \<and> \<not> WrongLeader reply \<and> qConfig reply = c \<and>
      (\<forall>j<k. \<forall>r. Some r \<in> set (calls num j) \<longrightarrow> WrongLeader r)))"
proof (intro conjI allI impI)
  show "Query calls num \<noteq> None \<longleftrightarrow> (\<exists>k reply. Some reply \<in> set (calls num k) \<and> \<not> WrongLeader reply)"
    unfolding Query_def rt.returns by (simp only: option.map_disc_iff try_servers_None) blast
  fix c assume "Query calls num = Some c"
  then obtain k where k: "map_option qConfig (try_servers (calls num k)) = Some c"
    "\<forall>j<k. map_option qConfig (try_servers (calls num j)) = None"
    unfolding Query_def rt.returns_iff by blast
  then obtain reply where "try_servers (calls num k) = Some reply" "qConfig reply = c" by auto
  moreover have "\<forall>j<k. \<forall>r. Some r \<in> set (calls num j) \<longrightarrow> WrongLeader r"
    using k(2) by (simp add: option.map_disc_iff try_servers_None)
  ultimately show "\<exists>k reply. Some reply \<in> set (calls num k) \<and> \<not> WrongLeader reply \<and> qConfig reply = c \<and>
      (\<forall>j<k. \<forall>r. Some r \<in> set (calls num j) \<longrightarrow> WrongLeader r)"
    using try_servers_SomeD by blast
qed

definition late_leader :: "int \<Rightarrow> nat \<Rightarrow> QueryReply option list" where
  "late_leader num k = [None, Some \<lparr>WrongLeader = k < 2, smErr = '''', qConfig = zero_config\<rparr>]"

theorem query_returns_witness: "Query late_leader (-1) = Some zero_config"
proof -
  have "Query late_leader (-1) \<noteq> None"
    using query_returns[of late_leader "-1"] by (auto simp: late_leader_def intro: exI[of _ 2])
  then obtain c where c: "Query late_leader (-1) = Some c" by blast
  with query_returns[of late_leader "-1"] have "c = zero_config" by (auto simp: late_leader_def)
  with c show ?thesis by simp
qed

text \<open>
  \<^bold>\<open>C31\<close>. A value that Get returns comes from the first reply OK or ErrNoKey, before any ErrWrongGroup, of a
  server in the group that the configuration the clerk is left with assigns to the shard of the key,
  the first byte modulo ten; that configuration is the one the clerk started with or the result of
  its last Query.
\<close>

theorem get_from_owner:
  assumes "Get call sm config key = Some (v, config')"
  shows "\<exists>k servers si reply.
    Groups config' (Shards config' ! (case key of [] \<Rightarrow> 0 | c # _ \<Rightarrow> of_char c mod 10)) = Some servers \<and> si < length servers \<and>
    call k si (servers ! si) = Some reply \<and> (getErr reply = OK \<or> getErr reply = ErrNoKey) \<and> getValue reply = v \<and>
    (\<forall>j < si. \<forall>r. call k j (servers ! j) = Some r \<longrightarrow> getErr r \<notin> {OK, ErrNoKey, ErrWrongGroup}) \<and>
    (case k of 0 \<Rightarrow> config' = config | Suc j \<Rightarrow> Query (sm j) (-1) = Some config')"
proof -
  obtain k where k: "clerk_attempt (\<lambda>k config. get_round (call k) config key) (\<lambda>k. Query (sm k) (-1)) config k = Some (v, config')"
    using assms unfolding Get_retry ck.returns_iff by blast
  then have c: "config_at (\<lambda>k. Query (sm k) (-1)) config k = Some config'" "get_round (call k) config' key = Some v"
    by (auto simp: clerk_attempt_def bind_eq_Some_conv)
  then obtain servers where s: "group_of config' key = Some servers"
    "get_servers (map (\<lambda>si. call k si (servers ! si)) [0..<length servers]) = Some v"
    by (auto simp: get_round_def split: option.splits)
  have "key2shard key = (case key of [] \<Rightarrow> 0 | c # _ \<Rightarrow> of_char c mod 10)"
    by (cases key) (simp_all add: key2shard_def NShards_def)
  then have g: "Groups config' (Shards config' ! (case key of [] \<Rightarrow> 0 | c # _ \<Rightarrow> of_char c mod 10)) = Some servers"
    using s(1) by (auto simp: group_of_def at_def bind_eq_Some_conv split: if_splits)
  have q: "case k of 0 \<Rightarrow> config' = config | Suc j \<Rightarrow> Query (sm j) (-1) = Some config'"
    using c(1) by (cases k) (auto split: if_splits)
  from get_servers_SomeD[OF s(2)] obtain si reply where "si < length servers" "call k si (servers ! si) = Some reply"
    "getErr reply = OK \<or> getErr reply = ErrNoKey" "getValue reply = v"
    "\<forall>j < si. \<forall>r. call k j (servers ! j) = Some r \<longrightarrow> getErr r \<notin> {OK, ErrNoKey, ErrWrongGroup}" by auto
  with g q show ?thesis by blast
qed

definition one_group :: Config where
  "one_group = \<lparr>Num = 1, Shards = replicate 10 7, Groups = [7 \<mapsto> [''a'', ''b'']]\<rparr>"

definition masters :: "nat \<Rightarrow> int \<Rightarrow> nat \<Rightarrow> QueryReply option list" where
  "masters k num j = [None, Some \<lparr>WrongLeader = False, smErr = [], qConfig = one_group\<rparr>]"

definition b_answers :: "nat \<Rightarrow> nat \<Rightarrow> string \<Rightarrow> GetReply option" where
  "b_answers k si srv = (if srv = ''b'' then Some \<lparr>getErr = OK, getValue = ''v''\<rparr> else None)"

theorem get_returns:
  assumes "config_at (\<lambda>k. Query (sm k) (-1)) config k = Some c" "group_of c key = Some servers" "si < length servers"
    and "call k si (servers ! si) = Some reply" "getErr reply = OK \<or> getErr reply = ErrNoKey"
    and "\<forall>j < si. \<forall>r. call k j (servers ! j) = Some r \<longrightarrow> getErr r \<noteq> ErrWrongGroup"
  shows "Get call sm config key \<noteq> None"
proof -
  have "get_servers (map (\<lambda>si. call k si (servers ! si)) [0..<length servers]) \<noteq> None"
    using assms(3-6) by (intro get_servers_returns[of si _ reply]) simp_all
  then have "clerk_attempt (\<lambda>k config. get_round (call k) config key) (\<lambda>k. Query (sm k) (-1)) config k \<noteq> None"
    using assms(1,2) by (simp add: get_round_def clerk_attempt_def)
  then show ?thesis unfolding Get_retry ck.returns by blast
qed

lemma masters_answer: "Query (masters k) (-1) = Some one_group"
  unfolding Query_def by (subst forever.simps) (simp add: masters_def)

theorem get_returns_witness: "Get b_answers masters zero_config ''x'' \<noteq> None"
  by (rule get_returns[where k = 1 and c = one_group and servers = "[''a'', ''b'']" and si = 1 and reply = "\<lparr>getErr = OK, getValue = ''v''\<rparr>"])
    (simp_all add: masters_answer one_group_def b_answers_def group_of_def key2shard_def at_def NShards_def)

theorem get_from_owner_witness:
  "\<exists>v config'. Get b_answers masters zero_config ''x'' = Some (v, config') \<and>
     (\<exists>servers. Groups config' (Shards config' ! 0) = Some servers)"
proof -
  let ?a = "\<lambda>k config. get_round (b_answers k) config ''x''" and ?q = "\<lambda>k. Query (masters k) (-1)"
  have "clerk_attempt ?a ?q zero_config 1 \<noteq> None"
    by (simp add: clerk_attempt_def masters_answer get_round_def one_group_def b_answers_def group_of_def key2shard_def at_def NShards_def err_defs)
  then have "Get b_answers masters zero_config ''x'' \<noteq> None" unfolding Get_retry ck.returns by blast
  then obtain v config' where v: "Get b_answers masters zero_config ''x'' = Some (v, config')" by auto
  from get_from_owner[OF v] v show ?thesis by (auto simp: of_char_def)
qed

theorem shard_in_range:
  "key2shard key < NShards \<and> (length (Shards config) = NShards \<longrightarrow> at (Shards config) (int (key2shard key)) \<noteq> None) \<and>
   0 \<le> nrand draw \<and> nrand draw < 2 ^ 62"
proof -
  have "key2shard key < NShards" by (simp add: key2shard_def Let_def NShards_def)
  moreover have "int (draw mod 2 ^ 62) < 2 ^ 62" by (metis mod_less_divisor of_nat_less_iff of_nat_numeral of_nat_power zero_less_numeral zero_less_power)
  ultimately show ?thesis by (auto simp: at_def nrand_def)
qed

theorem shard_in_range_witness: "at (Shards zero_config) (int (key2shard ''zebra'')) \<noteq> None"
  using shard_in_range[of "''zebra''" zero_config] by (simp add: zero_config_def)

end
