(* ===== verification/Kv_Config.thy ===== *)
theory Kv_Config
  imports Raft_Config Clients
begin

text \<open>
  The harness of the key/value service, \<^verbatim>\<open>kvraft/config.go\<close>, and its copy for the shard master,
  \<^verbatim>\<open>shardmaster/config.go\<close>.  It starts and stops the servers of a service on the simulated network,
  connects clerks to them and partitions them.

  The two structs share the fields of \<open>hconfig\<close>, with the type \<open>'s\<close> of the servers; \<^verbatim>\<open>kvraft\<close> adds
  \<^verbatim>\<open>maxraftstate\<close> and the statistics of a test.  The functions that both files have in the same words
  are stated for \<open>hconfig\<close>; what they call of the service (the start and the kill of a server, its
  Raft peer) is an argument there.  A clerk is a number, its address; the random end names
  are arguments.  A \<open>None\<close> is a panic: an index out of range, a nil pointer, or \<^verbatim>\<open>log.Fatalf\<close> of \<^verbatim>\<open>MakeEnd\<close> on a
  name that is in use.
\<close>

section \<open>State\<close>

record 's hconfig =
  h_net :: "nm network"
  h_n :: nat
  h_servers :: "'s option list"
  h_saved :: "Persister option list"
  h_endnames :: "string list option list"
  h_clerks :: "nat \<rightharpoonup> string list"
  h_nextClientId :: int
  h_start :: int

record 's kv_config = "'s hconfig" +
  kv_cfg_maxraftstate :: int
  kv_t0 :: int
  kv_rpcs0 :: int
  kv_ops :: "32 word"

text \<open>Times are in seconds; \<open>failed\<close> is \<^verbatim>\<open>cfg.t.Failed()\<close>.\<close>

definition checkTimeout :: "bool \<Rightarrow> int \<Rightarrow> ('s, 'z) hconfig_scheme \<Rightarrow> ('s, 'z) hconfig_scheme outcome" where
  "checkTimeout failed now cfg =
    (if \<not> failed \<and> now - h_start cfg > 120 then Fatal ''test took longer than 120 seconds'' else Pass cfg)"

definition cleanup :: "('s \<Rightarrow> 's) \<Rightarrow> bool \<Rightarrow> int \<Rightarrow> ('s, 'z) hconfig_scheme \<Rightarrow> ('s, 'z) hconfig_scheme outcome option" where
  "cleanup kill failed now cfg = do {
     let cfg = cfg\<lparr>h_servers := map (map_option kill) (h_servers cfg)\<rparr>;
     net \<leftarrow> Cleanup (h_net cfg);
     Some (checkTimeout failed now (cfg\<lparr>h_net := net\<rparr>)) }"

text \<open>The largest value over the persisters; a missing one is a nil pointer.\<close>

fun max_size :: "(Persister \<Rightarrow> nat) \<Rightarrow> Persister option list \<Rightarrow> nat list \<Rightarrow> nat \<Rightarrow> nat option" where
  "max_size f saved [] acc = Some acc"
| "max_size f saved (i # is) acc = do {
     p \<leftarrow> at saved (int i);
     p \<leftarrow> p;
     max_size f saved is (if f p > acc then f p else acc) }"

definition LogSize :: "('s, 'z) hconfig_scheme \<Rightarrow> nat option" where
  "LogSize cfg = max_size RaftStateSize (h_saved cfg) [0..<h_n cfg] 0"

definition cfg_SnapshotSize :: "('s, 'z) hconfig_scheme \<Rightarrow> nat option" where
  "cfg_SnapshotSize cfg = max_size SnapshotSize (h_saved cfg) [0..<h_n cfg] 0"

section \<open>Connections between servers\<close>

definition end_of :: "('s, 'z) hconfig_scheme \<Rightarrow> int \<Rightarrow> int \<Rightarrow> string option" where
  "end_of cfg i j = do { row \<leftarrow> at (h_endnames cfg) i; names \<leftarrow> row; at names j }"

definition connectUnlocked :: "('s, 'z) hconfig_scheme \<Rightarrow> int \<Rightarrow> int list \<Rightarrow> ('s, 'z) hconfig_scheme option" where
  "connectUnlocked cfg i to = do {
     outgoing \<leftarrow> those (map (\<lambda>j. end_of cfg i j) to);
     incoming \<leftarrow> those (map (\<lambda>j. end_of cfg j i) to);
     Some (cfg\<lparr>h_net := enable_all True incoming (enable_all True outgoing (h_net cfg))\<rparr>) }"

text \<open>The guard of the incoming ends reads \<^verbatim>\<open>cfg.endnames[j]\<close>, at the position in the list and not at the server.\<close>

definition disconnectUnlocked :: "('s, 'z) hconfig_scheme \<Rightarrow> int \<Rightarrow> int list \<Rightarrow> ('s, 'z) hconfig_scheme option" where
  "disconnectUnlocked cfg i from = do {
     outgoing \<leftarrow> those (map (\<lambda>f. do {
       row \<leftarrow> at (h_endnames cfg) i;
       if row \<noteq> None then map_option (\<lambda>e. [e]) (end_of cfg i f) else Some [] }) from);
     incoming \<leftarrow> those (map (\<lambda>j. do {
       row \<leftarrow> at (h_endnames cfg) (int j);
       if row \<noteq> None then map_option (\<lambda>e. [e]) (end_of cfg (from ! j) i) else Some [] }) [0..<length from]);
     Some (cfg\<lparr>h_net := enable_all False (concat incoming) (enable_all False (concat outgoing) (h_net cfg))\<rparr>) }"

definition All_servers :: "('s, 'z) hconfig_scheme \<Rightarrow> int list" where
  "All_servers cfg = map int [0..<h_n cfg]"

fun connect_each :: "int list \<Rightarrow> int list \<Rightarrow> ('s, 'z) hconfig_scheme \<Rightarrow> ('s, 'z) hconfig_scheme option" where
  "connect_each [] to cfg = Some cfg"
| "connect_each (i # is) to cfg = do { cfg \<leftarrow> connectUnlocked cfg i to; connect_each is to cfg }"

definition ConnectAll :: "('s, 'z) hconfig_scheme \<Rightarrow> ('s, 'z) hconfig_scheme option" where
  "ConnectAll cfg = connect_each (All_servers cfg) (All_servers cfg) cfg"

fun split_from :: "int list \<Rightarrow> int list \<Rightarrow> int list \<Rightarrow> ('s, 'z) hconfig_scheme \<Rightarrow> ('s, 'z) hconfig_scheme option" where
  "split_from [] own other cfg = Some cfg"
| "split_from (i # is) own other cfg = do {
     cfg \<leftarrow> disconnectUnlocked cfg i other;
     cfg \<leftarrow> connectUnlocked cfg i own;
     split_from is own other cfg }"

definition cfg_partition :: "('s, 'z) hconfig_scheme \<Rightarrow> int list \<Rightarrow> int list \<Rightarrow> ('s, 'z) hconfig_scheme option" where
  "cfg_partition cfg p1 p2 = do { cfg \<leftarrow> split_from p1 p1 p2 cfg; split_from p2 p2 p1 cfg }"

section \<open>Clerks\<close>

text \<open>\<open>draw i\<close> is the random number of iteration \<open>i\<close>; \<^verbatim>\<open>rand.Intn(i + 1)\<close> is below \<open>i + 1\<close>.\<close>

fun shuffle :: "(nat \<Rightarrow> nat) \<Rightarrow> nat list \<Rightarrow> 'e list \<Rightarrow> 'e list" where
  "shuffle draw [] sa = sa"
| "shuffle draw (i # is) sa = (let j = Intn (i + 1) (draw i) in shuffle draw is (sa[i := sa ! j, j := sa ! i]))"

definition random_handles :: "(nat \<Rightarrow> nat) \<Rightarrow> 'e list \<Rightarrow> 'e list" where
  "random_handles draw kvh = shuffle draw [0..<length kvh] kvh"

definition ConnectClientUnlocked :: "('s, 'z) hconfig_scheme \<Rightarrow> nat \<Rightarrow> int list \<Rightarrow> ('s, 'z) hconfig_scheme option" where
  "ConnectClientUnlocked cfg ck to = do {
     let endnames = (case h_clerks cfg ck of None \<Rightarrow> [] | Some ns \<Rightarrow> ns);
     ss \<leftarrow> those (map (at endnames) to);
     Some (cfg\<lparr>h_net := enable_all True ss (h_net cfg)\<rparr>) }"

definition DisconnectClientUnlocked :: "('s, 'z) hconfig_scheme \<Rightarrow> nat \<Rightarrow> int list \<Rightarrow> ('s, 'z) hconfig_scheme option" where
  "DisconnectClientUnlocked cfg ck from = do {
     let endnames = (case h_clerks cfg ck of None \<Rightarrow> [] | Some ns \<Rightarrow> ns);
     ss \<leftarrow> those (map (at endnames) from);
     Some (cfg\<lparr>h_net := enable_all False ss (h_net cfg)\<rparr>) }"

text \<open>
  \<open>names\<close> are the \<open>n\<close> random names, \<open>ck\<close> the address of the new clerk; the result has the
  handles the clerk gets, as end names.
\<close>

definition makeClient :: "(nat \<Rightarrow> nat) \<Rightarrow> string list \<Rightarrow> nat \<Rightarrow> ('s, 'z) hconfig_scheme \<Rightarrow> int list
    \<Rightarrow> (('s, 'z) hconfig_scheme \<times> string list) option" where
  "makeClient draw names ck cfg to = do {
     net \<leftarrow> make_ends 0 names (h_net cfg);
     let handles = random_handles draw names;
     let cfg = cfg\<lparr>h_net := net, h_clerks := (h_clerks cfg)(ck \<mapsto> names), h_nextClientId := h_nextClientId cfg + 1\<rparr>;
     cfg \<leftarrow> ConnectClientUnlocked cfg ck to;
     Some (cfg, handles) }"

text \<open>The second component has the files that \<^verbatim>\<open>os.Remove\<close> is called on.\<close>

definition deleteClient :: "('s, 'z) hconfig_scheme \<Rightarrow> nat \<Rightarrow> ('s, 'z) hconfig_scheme \<times> string list" where
  "deleteClient cfg ck =
    (let v = (case h_clerks cfg ck of None \<Rightarrow> [] | Some ns \<Rightarrow> ns)
     in (cfg\<lparr>h_clerks := (h_clerks cfg)(ck := None)\<rparr>, v))"

section \<open>Starting and stopping servers\<close>

definition shutdown_server :: "('s \<Rightarrow> 's) \<Rightarrow> ('s, 'z) hconfig_scheme \<Rightarrow> int \<Rightarrow> (('s, 'z) hconfig_scheme \<times> 's option) option" where
  "shutdown_server kill cfg i = do {
     cfg \<leftarrow> disconnectUnlocked cfg i (All_servers cfg);
     let cfg = cfg\<lparr>h_net := DeleteServer (h_net cfg) (ServerName (nat i))\<rparr>;
     saved \<leftarrow> at (h_saved cfg) i;
     let cfg = cfg\<lparr>h_saved := (h_saved cfg)[nat i := map_option Copy saved]\<rparr>;
     kv \<leftarrow> at (h_servers cfg) i;
     Some (cfg\<lparr>h_servers := (h_servers cfg)[nat i := None]\<rparr>, map_option kill kv) }"

text \<open>\<open>start\<close> is the call that starts the server on its persister, \<open>sa\<close> the address of the new network server.\<close>

definition start_server :: "(('s, 'z) hconfig_scheme \<Rightarrow> nat \<Rightarrow> Persister \<Rightarrow> 's) \<Rightarrow> string list \<Rightarrow> saddr
    \<Rightarrow> ('s, 'z) hconfig_scheme \<Rightarrow> nat \<Rightarrow> ('s, 'z) hconfig_scheme option" where
  "start_server start names sa cfg i = do {
     rows \<leftarrow> upd_at (h_endnames cfg) (int i) (Some names);
     net \<leftarrow> make_ends 0 names (h_net cfg);
     saved \<leftarrow> at (h_saved cfg) (int i);
     let ps = (case saved of Some p \<Rightarrow> Copy p | None \<Rightarrow> MakePersister);
     let cfg = cfg\<lparr>h_endnames := rows, h_net := net, h_saved := (h_saved cfg)[i := Some ps]\<rparr>;
     servers \<leftarrow> upd_at (h_servers cfg) (int i) (Some (start cfg i ps));
     Some (cfg\<lparr>h_servers := servers, h_net := AddServer (h_net cfg) (ServerName i) sa\<rparr>) }"

text \<open>\<^verbatim>\<open>GetState\<close> of a server that is down is a call on a nil pointer.\<close>

fun leader_scan :: "('s \<Rightarrow> 'c raft) \<Rightarrow> 's option list \<Rightarrow> nat list \<Rightarrow> (bool \<times> nat) option" where
  "leader_scan rf servers [] = Some (False, 0)"
| "leader_scan rf servers (i # is) = do {
     kv \<leftarrow> at servers (int i);
     kv \<leftarrow> kv;
     if snd (GetState (rf kv)) then Some (True, i) else leader_scan rf servers is }"

definition find_leader :: "('s \<Rightarrow> 'c raft) \<Rightarrow> ('s, 'z) hconfig_scheme \<Rightarrow> (bool \<times> nat) option" where
  "find_leader rf cfg = leader_scan rf (h_servers cfg) [0..<h_n cfg]"

fun partition_loop :: "nat \<Rightarrow> nat list \<Rightarrow> nat \<Rightarrow> int list \<Rightarrow> int list \<Rightarrow> (int list \<times> int list) option" where
  "partition_loop l [] j p1 p2 = Some (p1, p2)"
| "partition_loop l (i # is) j p1 p2 =
    (if i \<noteq> l then
       if j < length p1 then partition_loop l is (j + 1) (p1[j := int i]) p2
       else do { p2 \<leftarrow> upd_at p2 (int j - int (length p1)) (int i); partition_loop l is (j + 1) p1 p2 }
     else partition_loop l is j p1 p2)"

definition make_groups :: "nat \<Rightarrow> nat \<Rightarrow> (int list \<times> int list) option" where
  "make_groups n l = do {
     (p1, p2) \<leftarrow> partition_loop l [0..<n] 0 (replicate (n div 2 + 1) 0) (replicate (n div 2) 0);
     p2 \<leftarrow> upd_at p2 (int (length p2) - 1) (int l);
     Some (p1, p2) }"

definition new_partition :: "('s \<Rightarrow> 'c raft) \<Rightarrow> ('s, 'z) hconfig_scheme \<Rightarrow> (int list \<times> int list) option" where
  "new_partition rf cfg = do { (_, l) \<leftarrow> find_leader rf cfg; make_groups (h_n cfg) l }"

text \<open>The servers are started one after the other; \<open>names i\<close> and \<open>sa i\<close> are the random names and the address of each.\<close>

fun start_all :: "(('s, 'z) hconfig_scheme \<Rightarrow> nat \<Rightarrow> Persister \<Rightarrow> 's) \<Rightarrow> (nat \<Rightarrow> string list) \<Rightarrow> (nat \<Rightarrow> saddr)
    \<Rightarrow> nat list \<Rightarrow> ('s, 'z) hconfig_scheme \<Rightarrow> ('s, 'z) hconfig_scheme option" where
  "start_all start names sa [] cfg = Some cfg"
| "start_all start names sa (i # is) cfg = do {
     cfg \<leftarrow> start_server start (names i) (sa i) cfg i;
     start_all start names sa is cfg }"

section \<open>\<^verbatim>\<open>kvraft/config.go\<close>\<close>

type_synonym 'c kvcfg = "'c KVServer kv_config"

definition kv_cleanup :: "bool \<Rightarrow> int \<Rightarrow> 'c kvcfg \<Rightarrow> 'c kvcfg outcome option" where
  "kv_cleanup failed now cfg = cleanup KVServer_Kill failed now cfg"

definition ShutdownServer :: "'c kvcfg \<Rightarrow> int \<Rightarrow> ('c kvcfg \<times> 'c KVServer option) option" where
  "ShutdownServer cfg i = shutdown_server KVServer_Kill cfg i"

definition StartServer :: "string list \<Rightarrow> saddr \<Rightarrow> 'c kvcfg \<Rightarrow> nat \<Rightarrow> 'c kvcfg option" where
  "StartServer names sa cfg i =
    start_server (\<lambda>cfg i ps. StartKVServer (h_n cfg) i ps (kv_cfg_maxraftstate cfg)) names sa cfg i"

definition Leader :: "'c kvcfg \<Rightarrow> (bool \<times> nat) option" where
  "Leader cfg = find_leader kv_rf cfg"

definition make_partition :: "'c kvcfg \<Rightarrow> (int list \<times> int list) option" where
  "make_partition cfg = new_partition kv_rf cfg"

definition make_config :: "(nat \<Rightarrow> string list) \<Rightarrow> (nat \<Rightarrow> saddr) \<Rightarrow> int \<Rightarrow> nat \<Rightarrow> bool \<Rightarrow> int \<Rightarrow> 'c kvcfg option" where
  "make_config names sa now n unreliable maxraftstate = do {
     let cfg = \<lparr>h_net = MakeNetwork, h_n = n, h_servers = replicate n None, h_saved = replicate n None,
       h_endnames = replicate n None, h_clerks = Map.empty, h_nextClientId = int n + 1000, h_start = now,
       kv_cfg_maxraftstate = maxraftstate, kv_t0 = 0, kv_rpcs0 = 0, kv_ops = 0\<rparr>;
     cfg \<leftarrow> start_all (\<lambda>cfg i ps. StartKVServer (h_n cfg) i ps (kv_cfg_maxraftstate cfg)) names sa [0..<n] cfg;
     cfg \<leftarrow> ConnectAll cfg;
     Some (cfg\<lparr>h_net := Reliable (h_net cfg) (\<not> unreliable)\<rparr>) }"

definition rpcTotal :: "'c kvcfg \<Rightarrow> int" where
  "rpcTotal cfg = GetTotalCount (h_net cfg)"

definition begin_test :: "int \<Rightarrow> 'c kvcfg \<Rightarrow> 'c kvcfg" where
  "begin_test now cfg = cfg\<lparr>kv_t0 := now, kv_rpcs0 := rpcTotal cfg, kv_ops := 0\<rparr>"

definition op :: "'c kvcfg \<Rightarrow> 'c kvcfg" where
  "op cfg = cfg\<lparr>kv_ops := kv_ops cfg + 1\<rparr>"

text \<open>What \<^verbatim>\<open>end\<close> prints: the time, the number of peers, the RPCs and the operations.\<close>

definition end_test :: "bool \<Rightarrow> int \<Rightarrow> 'c kvcfg \<Rightarrow> (int \<times> nat \<times> int \<times> int) option outcome" where
  "end_test failed now cfg =
    (case checkTimeout failed now cfg of
       Fatal e \<Rightarrow> Fatal e
     | Pass _ \<Rightarrow> Pass (if \<not> failed then Some (now - kv_t0 cfg, h_n cfg, rpcTotal cfg - kv_rpcs0 cfg, sint (kv_ops cfg)) else None))"

section \<open>\<^verbatim>\<open>shardmaster/config.go\<close>\<close>

type_synonym 'c smcfg = "'c ShardMaster hconfig"

text \<open>The functions of this file that have the text of those above, at the type of its struct.\<close>

definition sm_LogSize :: "'c smcfg \<Rightarrow> nat option" where
  "sm_LogSize cfg = LogSize cfg"

definition sm_connect :: "'c smcfg \<Rightarrow> int \<Rightarrow> int list \<Rightarrow> 'c smcfg option" where
  "sm_connect cfg i to = connectUnlocked cfg i to"

definition sm_disconnect :: "'c smcfg \<Rightarrow> int \<Rightarrow> int list \<Rightarrow> 'c smcfg option" where
  "sm_disconnect cfg i frm = disconnectUnlocked cfg i frm"

definition sm_ConnectAll :: "'c smcfg \<Rightarrow> 'c smcfg option" where
  "sm_ConnectAll cfg = ConnectAll cfg"

definition sm_partition :: "'c smcfg \<Rightarrow> int list \<Rightarrow> int list \<Rightarrow> 'c smcfg option" where
  "sm_partition cfg p1 p2 = cfg_partition cfg p1 p2"

definition sm_random_handles :: "(nat \<Rightarrow> nat) \<Rightarrow> string list \<Rightarrow> string list" where
  "sm_random_handles draw kvh = random_handles draw kvh"

definition sm_makeClient :: "(nat \<Rightarrow> nat) \<Rightarrow> string list \<Rightarrow> nat \<Rightarrow> 'c smcfg \<Rightarrow> int list \<Rightarrow> ('c smcfg \<times> string list) option" where
  "sm_makeClient draw names ck cfg to = makeClient draw names ck cfg to"

definition sm_deleteClient :: "'c smcfg \<Rightarrow> nat \<Rightarrow> 'c smcfg \<times> string list" where
  "sm_deleteClient cfg ck = deleteClient cfg ck"

definition sm_ConnectClient :: "'c smcfg \<Rightarrow> nat \<Rightarrow> int list \<Rightarrow> 'c smcfg option" where
  "sm_ConnectClient cfg ck to = ConnectClientUnlocked cfg ck to"

definition sm_DisconnectClient :: "'c smcfg \<Rightarrow> nat \<Rightarrow> int list \<Rightarrow> 'c smcfg option" where
  "sm_DisconnectClient cfg ck frm = DisconnectClientUnlocked cfg ck frm"

definition sm_checkTimeout :: "bool \<Rightarrow> int \<Rightarrow> 'c smcfg \<Rightarrow> 'c smcfg outcome" where
  "sm_checkTimeout failed now cfg = checkTimeout failed now cfg"

definition sm_cleanup :: "bool \<Rightarrow> int \<Rightarrow> 'c smcfg \<Rightarrow> 'c smcfg outcome option" where
  "sm_cleanup failed now cfg = cleanup ShardMaster_Kill failed now cfg"

definition sm_ShutdownServer :: "'c smcfg \<Rightarrow> int \<Rightarrow> ('c smcfg \<times> 'c ShardMaster option) option" where
  "sm_ShutdownServer cfg i = shutdown_server ShardMaster_Kill cfg i"

definition sm_StartServer :: "string list \<Rightarrow> saddr \<Rightarrow> 'c smcfg \<Rightarrow> nat \<Rightarrow> 'c smcfg option" where
  "sm_StartServer names sa cfg i = start_server (\<lambda>cfg i ps. ShardMaster_StartServer (h_n cfg) i ps) names sa cfg i"

definition sm_Leader :: "'c smcfg \<Rightarrow> (bool \<times> nat) option" where
  "sm_Leader cfg = find_leader sm_rf cfg"

definition sm_make_partition :: "'c smcfg \<Rightarrow> (int list \<times> int list) option" where
  "sm_make_partition cfg = new_partition sm_rf cfg"

definition sm_make_config :: "(nat \<Rightarrow> string list) \<Rightarrow> (nat \<Rightarrow> saddr) \<Rightarrow> int \<Rightarrow> nat \<Rightarrow> bool \<Rightarrow> 'c smcfg option" where
  "sm_make_config names sa now n unreliable = do {
     let cfg = \<lparr>h_net = MakeNetwork, h_n = n, h_servers = replicate n None, h_saved = replicate n None,
       h_endnames = replicate n None, h_clerks = Map.empty, h_nextClientId = int n + 1000, h_start = now\<rparr>;
     cfg \<leftarrow> start_all (\<lambda>cfg i ps. ShardMaster_StartServer (h_n cfg) i ps) names sa [0..<n] cfg;
     cfg \<leftarrow> ConnectAll cfg;
     Some (cfg\<lparr>h_net := Reliable (h_net cfg) (\<not> unreliable)\<rparr>) }"

section \<open>Well-formed configurations\<close>

text \<open>
  The arrays have one place per server, an end is known to the network and leads to the server of its
  column, no end name is used twice, and a running server has its persister, its ends and an address.
\<close>

definition config_ok :: "('s, 'z) hconfig_scheme \<Rightarrow> bool" where
  "config_ok cfg \<longleftrightarrow> length (h_servers cfg) = h_n cfg \<and> length (h_saved cfg) = h_n cfg \<and> length (h_endnames cfg) = h_n cfg \<and>
     (\<forall>i ns. at (h_endnames cfg) i = Some (Some ns) \<longrightarrow> length ns = h_n cfg) \<and>
     (\<forall>i j e. end_of cfg i j = Some e \<longrightarrow> EndName e \<in> net_ends (h_net cfg) \<and>
        net_connections (h_net cfg) (EndName e) = Some (ServerName (nat j))) \<and>
     (\<forall>i j i' j' e. end_of cfg i j = Some e \<longrightarrow> end_of cfg i' j' = Some e \<longrightarrow> i = i' \<and> j = j') \<and>
     (\<forall>i<h_n cfg. h_servers cfg ! i \<noteq> None \<longrightarrow> h_saved cfg ! i \<noteq> None \<and> h_endnames cfg ! i \<noteq> None \<and>
        net_servers (h_net cfg) (ServerName i) \<noteq> None)"

text \<open>Every server has been started at least once.\<close>

definition all_started :: "('s, 'z) hconfig_scheme \<Rightarrow> bool" where
  "all_started cfg \<longleftrightarrow> config_ok cfg \<and> None \<notin> set (h_endnames cfg)"

definition link_on :: "('s, 'z) hconfig_scheme \<Rightarrow> int \<Rightarrow> int \<Rightarrow> bool" where
  "link_on cfg i j \<longleftrightarrow> (\<exists>e. end_of cfg i j = Some e \<and> net_enabled (h_net cfg) (EndName e))"

abbreviation ids :: "('s, 'z) hconfig_scheme \<Rightarrow> int set" where
  "ids cfg \<equiv> {0..<int (h_n cfg)}"

lemma config_okD:
  assumes "config_ok cfg"
  shows "length (h_servers cfg) = h_n cfg" "length (h_saved cfg) = h_n cfg" "length (h_endnames cfg) = h_n cfg"
    "at (h_endnames cfg) i = Some (Some ns) \<Longrightarrow> length ns = h_n cfg"
    "end_of cfg i j = Some e \<Longrightarrow> EndName e \<in> net_ends (h_net cfg)"
    "end_of cfg i j = Some e \<Longrightarrow> net_connections (h_net cfg) (EndName e) = Some (ServerName (nat j))"
    "end_of cfg i j = Some e \<Longrightarrow> end_of cfg i' j' = Some e \<Longrightarrow> i = i' \<and> j = j'"
    "k < h_n cfg \<Longrightarrow> h_servers cfg ! k \<noteq> None \<Longrightarrow> h_saved cfg ! k \<noteq> None \<and> h_endnames cfg ! k \<noteq> None \<and>
        net_servers (h_net cfg) (ServerName k) \<noteq> None"
  using assms unfolding config_ok_def by blast+

lemma end_of_net [simp]: "end_of (cfg\<lparr>h_net := net\<rparr>) i j = end_of cfg i j"
  by (simp add: end_of_def)

lemma enable_all_frame [simp]:
  "net_ends (enable_all on names net) = net_ends net" "net_connections (enable_all on names net) = net_connections net"
  "net_servers (enable_all on names net) = net_servers net" "net_reliable (enable_all on names net) = net_reliable net"
  unfolding enable_all_def by (induction names arbitrary: net) (auto simp: Enable_def)

text \<open>Switching ends on and off keeps a configuration well formed.\<close>

lemma enable_keeps [simp]:
  "config_ok (cfg\<lparr>h_net := enable_all on names net\<rparr>) \<longleftrightarrow> config_ok (cfg\<lparr>h_net := net\<rparr>)"
  by (simp add: config_ok_def)

lemma started_end:
  assumes "all_started cfg" "i \<in> ids cfg" "j \<in> ids cfg"
  shows "\<exists>e. end_of cfg i j = Some e"
proof -
  have ok: "config_ok cfg" and none: "None \<notin> set (h_endnames cfg)" using assms(1) by (simp_all add: all_started_def)
  then have i: "nat i < length (h_endnames cfg)" using assms(2) config_okD(3)[OF ok] by auto
  then obtain ns where ns: "h_endnames cfg ! nat i = Some ns" using none by (metis not_Some_eq nth_mem)
  then have row: "at (h_endnames cfg) i = Some (Some ns)" using i assms(2) by (simp add: at_def)
  then have "length ns = h_n cfg" by (rule config_okD(4)[OF ok])
  then show ?thesis using row assms(3) by (simp add: end_of_def at_def)
qed

lemma link_on_enable:
  assumes "config_ok cfg" "end_of cfg a b = Some e"
  shows "link_on (cfg\<lparr>h_net := enable_all on names (h_net cfg)\<rparr>) a b =
    (if e \<in> set names then on else link_on cfg a b)"
  using assms(2) by (simp add: link_on_def enable_all_enabled)

lemma those_map: "(\<And>x. x \<in> set xs \<Longrightarrow> f x = Some (g x)) \<Longrightarrow> those (map f xs) = Some (map g xs)"
  by (induction xs) simp_all

definition name_at :: "('s, 'z) hconfig_scheme \<Rightarrow> int \<Rightarrow> int \<Rightarrow> string" where
  "name_at cfg i j = the (end_of cfg i j)"

lemma name_at:
  assumes "all_started cfg" "i \<in> ids cfg" "j \<in> ids cfg"
  shows "end_of cfg i j = Some (name_at cfg i j)"
  using started_end[OF assms] by (auto simp: name_at_def)

lemma name_at_inj:
  assumes "all_started cfg" "i \<in> ids cfg" "j \<in> ids cfg" "a \<in> ids cfg" "b \<in> ids cfg"
  shows "name_at cfg i j = name_at cfg a b \<longleftrightarrow> i = a \<and> j = b"
  using name_at[OF assms(1-3)] name_at[OF assms(1,4,5)] assms(1) config_okD(7)[of cfg] unfolding all_started_def by metis

text \<open>A configuration after switching the ends from and to one server.\<close>

definition switched :: "bool \<Rightarrow> int \<Rightarrow> int list \<Rightarrow> ('s, 'z) hconfig_scheme \<Rightarrow> ('s, 'z) hconfig_scheme" where
  "switched on i to cfg = cfg\<lparr>h_net := enable_all on (map (\<lambda>j. name_at cfg j i) to)
     (enable_all on (map (name_at cfg i) to) (h_net cfg))\<rparr>"

lemma switched_frame [simp]:
  "h_n (switched on i to cfg) = h_n cfg" "end_of (switched on i to cfg) = end_of cfg"
  "h_servers (switched on i to cfg) = h_servers cfg" "h_saved (switched on i to cfg) = h_saved cfg"
  "h_endnames (switched on i to cfg) = h_endnames cfg" "h_clerks (switched on i to cfg) = h_clerks cfg"
  "config_ok (switched on i to cfg) = config_ok cfg" "all_started (switched on i to cfg) = all_started cfg"
  by (auto simp: switched_def fun_eq_iff all_started_def)

lemma link_on_switched:
  assumes s: "all_started cfg" and r: "i \<in> ids cfg" "set to \<subseteq> ids cfg" "a \<in> ids cfg" "b \<in> ids cfg"
  shows "link_on (switched on i to cfg) a b = (if a = i \<and> b \<in> set to \<or> b = i \<and> a \<in> set to then on else link_on cfg a b)"
proof -
  have "name_at cfg a b = name_at cfg i x \<longleftrightarrow> a = i \<and> b = x" "name_at cfg a b = name_at cfg x i \<longleftrightarrow> a = x \<and> b = i"
    if "x \<in> set to" for x
    using name_at_inj[OF s r(3,4) r(1), of x] name_at_inj[OF s r(3,4) _ r(1), of x] r(2) that by blast+
  then have "name_at cfg a b \<in> name_at cfg i ` set to \<longleftrightarrow> a = i \<and> b \<in> set to"
    "name_at cfg a b \<in> (\<lambda>j. name_at cfg j i) ` set to \<longleftrightarrow> b = i \<and> a \<in> set to"
    unfolding image_iff by blast+
  then show ?thesis
    using name_at[OF s r(3,4)] by (auto simp: link_on_def switched_def enable_all_enabled)
qed

lemma connectUnlocked_spec:
  assumes "all_started cfg" "i \<in> ids cfg" "set to \<subseteq> ids cfg"
  shows "connectUnlocked cfg i to = Some (switched True i to cfg)"
proof -
  have "those (map (end_of cfg i) to) = Some (map (name_at cfg i) to)"
    "those (map (\<lambda>j. end_of cfg j i) to) = Some (map (\<lambda>j. name_at cfg j i) to)"
    using name_at[OF assms(1)] assms(2,3) by (auto intro!: those_map)
  then show ?thesis by (simp add: connectUnlocked_def switched_def)
qed

lemma disconnectUnlocked_spec:
  assumes s: "all_started cfg" and r: "i \<in> ids cfg" "set frm \<subseteq> ids cfg" "length frm \<le> h_n cfg"
  shows "disconnectUnlocked cfg i frm = Some (switched False i frm cfg)"
proof -
  have row: "\<exists>ns. at (h_endnames cfg) k = Some (Some ns)" if "k \<in> ids cfg" for k
    using started_end[OF s that r(1)] by (auto simp: end_of_def bind_Some_iff)
  have "those (map (\<lambda>f. do { row \<leftarrow> at (h_endnames cfg) i;
      if row \<noteq> None then map_option (\<lambda>e. [e]) (end_of cfg i f) else Some [] }) frm) = Some (map (\<lambda>f. [name_at cfg i f]) frm)"
    using row[OF r(1)] name_at[OF s r(1)] r(2) by (intro those_map) auto
  moreover have "those (map (\<lambda>j. do { row \<leftarrow> at (h_endnames cfg) (int j);
      if row \<noteq> None then map_option (\<lambda>e. [e]) (end_of cfg (frm ! j) i) else Some [] }) [0..<length frm]) =
      Some (map (\<lambda>j. [name_at cfg (frm ! j) i]) [0..<length frm])"
  proof (intro those_map)
    fix j assume "j \<in> set [0..<length frm]"
    then have "j < length frm" by simp
    then have "int j \<in> ids cfg" "frm ! j \<in> ids cfg" using r(2,3) nth_mem[of j frm] by (simp, blast)
    then show "do { row \<leftarrow> at (h_endnames cfg) (int j);
      if row \<noteq> None then map_option (\<lambda>e. [e]) (end_of cfg (frm ! j) i) else Some [] } = Some [name_at cfg (frm ! j) i]"
      using row[of "int j"] name_at[OF s _ r(1)] by auto
  qed
  moreover have "map (\<lambda>j. name_at cfg (frm ! j) i) [0..<length frm] = map (\<lambda>f. name_at cfg f i) frm"
    by (intro nth_equalityI) simp_all
  ultimately show ?thesis by (simp add: disconnectUnlocked_def switched_def concat_map_singleton comp_def)
qed

section \<open>Partitions\<close>

definition touches :: "int set \<Rightarrow> int set \<Rightarrow> int \<Rightarrow> int \<Rightarrow> bool" where
  "touches A B a b \<longleftrightarrow> a \<in> A \<and> b \<in> B \<or> b \<in> A \<and> a \<in> B"

lemma split_from_spec:
  assumes "all_started cfg" "set is \<subseteq> set own" "set own \<subseteq> ids cfg" "set other \<subseteq> ids cfg" "length other \<le> h_n cfg"
    and d: "set own \<inter> set other = {}"
  shows "\<exists>cfg'. split_from is own other cfg = Some cfg' \<and> all_started cfg' \<and> h_n cfg' = h_n cfg \<and> end_of cfg' = end_of cfg \<and>
    (\<forall>a\<in>ids cfg. \<forall>b\<in>ids cfg. link_on cfg' a b =
       (if touches (set is) (set own) a b then True else if touches (set is) (set other) a b then False else link_on cfg a b))"
  using assms(1-5)
proof (induction "is" arbitrary: cfg)
  case Nil
  then show ?case by (simp add: touches_def)
next
  case (Cons i "is")
  have i: "i \<in> ids cfg" "i \<in> set own" "i \<notin> set other" using Cons.prems(2,3) d by auto
  define c1 where "c1 = switched False i other cfg"
  define c2 where "c2 = switched True i own c1"
  have st: "all_started c1" "all_started c2" using Cons.prems(1) by (simp_all add: c1_def c2_def)
  have n: "h_n c1 = h_n cfg" "h_n c2 = h_n cfg" "end_of c2 = end_of cfg" by (simp_all add: c1_def c2_def)
  have "disconnectUnlocked cfg i other = Some c1"
    unfolding c1_def using Cons.prems i by (intro disconnectUnlocked_spec) auto
  moreover have "connectUnlocked c1 i own = Some c2"
    unfolding c2_def using Cons.prems(3) i st n by (intro connectUnlocked_spec) auto
  moreover have "link_on c2 a b = (if touches {i} (set own) a b then True else if touches {i} (set other) a b then False else link_on cfg a b)"
    if "a \<in> ids cfg" "b \<in> ids cfg" for a b
  proof -
    have "link_on c1 a b = (if touches {i} (set other) a b then False else link_on cfg a b)"
      unfolding c1_def using link_on_switched[OF Cons.prems(1) i(1) Cons.prems(4) that, of False] by (auto simp: touches_def)
    moreover have "link_on c2 a b = (if touches {i} (set own) a b then True else link_on c1 a b)"
      unfolding c2_def using link_on_switched[OF st(1), unfolded n, OF i(1) Cons.prems(3) that, of True] by (auto simp: touches_def)
    ultimately show ?thesis by simp
  qed
  moreover obtain cfg' where "split_from is own other c2 = Some cfg'" "all_started cfg'" "h_n cfg' = h_n c2" "end_of cfg' = end_of c2"
      "\<forall>a\<in>ids c2. \<forall>b\<in>ids c2. link_on cfg' a b =
       (if touches (set is) (set own) a b then True else if touches (set is) (set other) a b then False else link_on c2 a b)"
    using Cons.IH[OF st(2)] Cons.prems(2-5) n by auto
  moreover have "touches {i} (set own) a b \<Longrightarrow> \<not> touches (set is) (set other) a b" for a b
    using i Cons.prems(2) d by (auto simp: touches_def)
  ultimately show ?case using n by (auto simp: touches_def)
qed

text \<open>What a partition promises of the links between servers.\<close>

definition partitioned :: "int set \<Rightarrow> int set \<Rightarrow> ('s, 'z) hconfig_scheme \<Rightarrow> ('s, 'z) hconfig_scheme \<Rightarrow> bool" where
  "partitioned P Q cfg cfg' \<longleftrightarrow> (\<forall>a\<in>ids cfg. \<forall>b\<in>ids cfg. link_on cfg' a b =
     (if touches P Q a b then False else if touches P P a b \<or> touches Q Q a b then True else link_on cfg a b))"

lemma partition_spec:
  assumes "all_started cfg" "set p1 \<subseteq> ids cfg" "set p2 \<subseteq> ids cfg" "set p1 \<inter> set p2 = {}" "length p1 \<le> h_n cfg" "length p2 \<le> h_n cfg"
  shows "\<exists>cfg'. cfg_partition cfg p1 p2 = Some cfg' \<and> all_started cfg' \<and> h_n cfg' = h_n cfg \<and> end_of cfg' = end_of cfg \<and>
    partitioned (set p1) (set p2) cfg cfg'"
proof -
  obtain c1 where c1: "split_from p1 p1 p2 cfg = Some c1" "all_started c1" "h_n c1 = h_n cfg" "end_of c1 = end_of cfg"
      "\<forall>a\<in>ids cfg. \<forall>b\<in>ids cfg. link_on c1 a b = (if touches (set p1) (set p1) a b then True
         else if touches (set p1) (set p2) a b then False else link_on cfg a b)"
    using split_from_spec[OF assms(1) order_refl assms(2,3,6,4)] by blast
  obtain c2 where c2: "split_from p2 p2 p1 c1 = Some c2" "all_started c2" "h_n c2 = h_n cfg" "end_of c2 = end_of cfg"
      "\<forall>a\<in>ids cfg. \<forall>b\<in>ids cfg. link_on c2 a b = (if touches (set p2) (set p2) a b then True
         else if touches (set p2) (set p1) a b then False else link_on c1 a b)"
    using split_from_spec[OF c1(2) order_refl, of p2 p1] assms(2-6) unfolding c1(3,4) Int_commute[of "set p2"] by blast
  have "partitioned (set p1) (set p2) cfg c2" unfolding partitioned_def
  proof (intro ballI)
    fix a b assume "a \<in> ids cfg" "b \<in> ids cfg"
    then show "link_on c2 a b = (if touches (set p1) (set p2) a b then False
        else if touches (set p1) (set p1) a b \<or> touches (set p2) (set p2) a b then True else link_on cfg a b)"
      using c1(5) c2(5) assms(4) by (auto simp: touches_def)
  qed
  with c1(1) c2 show ?thesis by (simp add: cfg_partition_def)
qed

lemma partition_loop_spec:
  assumes "j + length (filter (\<lambda>i. i \<noteq> l) is) \<le> length p1 + length p2"
  shows "\<exists>p1' p2'. partition_loop l is j p1 p2 = Some (p1', p2') \<and> length p1' = length p1 \<and> length p2' = length p2 \<and>
    p1' @ p2' = take j (p1 @ p2) @ map int (filter (\<lambda>i. i \<noteq> l) is) @ drop (j + length (filter (\<lambda>i. i \<noteq> l) is)) (p1 @ p2)"
  using assms
proof (induction "is" arbitrary: j p1 p2)
  case Nil
  then show ?case by (simp flip: take_append drop_append)
next
  case (Cons i "is")
  let ?xs = "filter (\<lambda>i. i \<noteq> l) is" and ?p = "p1 @ p2"
  show ?case
  proof (cases "i = l")
    case False
    then have j: "j < length ?p" and le: "Suc j + length ?xs \<le> length p1 + length p2" using Cons.prems by auto
    define q1 where "q1 = take (length p1) (?p[j := int i])"
    define q2 where "q2 = drop (length p1) (?p[j := int i])"
    have q: "q1 @ q2 = ?p[j := int i]" "length q1 = length p1" "length q2 = length p2" by (simp_all add: q1_def q2_def)
    have step: "partition_loop l (i # is) j p1 p2 = partition_loop l is (Suc j) q1 q2"
      using False j by (auto simp: q1_def q2_def list_update_append upd_at_def nat_diff_distrib)
    obtain p1' p2' where p': "partition_loop l is (Suc j) q1 q2 = Some (p1', p2')" "length p1' = length p1" "length p2' = length p2"
        "p1' @ p2' = take (Suc j) (q1 @ q2) @ map int ?xs @ drop (Suc j + length ?xs) (q1 @ q2)"
      using Cons.IH[of "Suc j" q1 q2] le q by auto
    have "take (Suc j) (q1 @ q2) = take j ?p @ [int i]" "drop (Suc j + length ?xs) (q1 @ q2) = drop (Suc j + length ?xs) ?p"
      unfolding q(1) using j by (simp_all add: take_Suc_conv_app_nth)
    with p' step False show ?thesis by (simp del: partition_loop.simps)
  qed (use Cons in simp)
qed

lemma filter_neq_upt: "l < n \<Longrightarrow> length (filter (\<lambda>i. i \<noteq> l) [0..<n]) = n - 1"
proof -
  assume "l < n"
  then have "{i. i < n \<and> i \<noteq> l} = {..<n} - {l}" by auto
  moreover have "length (filter (\<lambda>i. i \<noteq> l) [0..<n]) = card {i. i < n \<and> i \<noteq> l}"
    using distinct_card[of "filter (\<lambda>i. i \<noteq> l) [0..<n]"] by simp
  ultimately show ?thesis using \<open>l < n\<close> by simp
qed

text \<open>The arrays of the two groups, one after the other; for an even number of servers one place stays 0.\<close>

lemma make_groups_spec:
  assumes "2 \<le> n" "l < n"
  shows "\<exists>p1 p2. make_groups n l = Some (p1, p2) \<and> length p1 = n div 2 + 1 \<and> length p2 = n div 2 \<and>
    p1 @ p2 = map int (filter (\<lambda>i. i \<noteq> l) [0..<n]) @ (if even n then [0, int l] else [int l])"
proof -
  let ?xs = "filter (\<lambda>i. i \<noteq> l) [0..<n]" and ?r1 = "replicate (n div 2 + 1) (0 :: int)" and ?r2 = "replicate (n div 2) (0 :: int)"
  have len: "length ?xs = n - 1" using assms(2) by (rule filter_neq_upt)
  have sz: "n div 2 + 1 + n div 2 = (if even n then n + 1 else n)" "0 < n div 2" using assms(1) by (auto elim!: evenE oddE)
  obtain p1 p2 where p: "partition_loop l [0..<n] 0 ?r1 ?r2 = Some (p1, p2)" "length p1 = n div 2 + 1" "length p2 = n div 2"
      "p1 @ p2 = map int ?xs @ drop (n - 1) (?r1 @ ?r2)"
  proof -
    have "0 + length ?xs \<le> length ?r1 + length ?r2" unfolding len length_replicate sz(1) by (cases "even n") arith+
    from partition_loop_spec[OF this] show ?thesis using that unfolding len length_replicate take_0 append_Nil add_0 by blast
  qed
  define q2 where "q2 = p2[length p2 - 1 := int l]"
  have "nat (int (length p2) - 1) = length p2 - 1" by simp
  then have up: "upd_at p2 (int (length p2) - 1) (int l) = Some q2" using p(3) sz(2) by (simp add: upd_at_def q2_def)
  have "drop (n - 1) (?r1 @ ?r2) = replicate (if even n then 2 else 1) 0"
    unfolding replicate_add[symmetric] sz(1) drop_replicate using assms(1) by (auto simp: Suc_diff_le numeral_2_eq_2)
  then have pp: "p1 @ p2 = map int ?xs @ (if even n then [0, 0] else [0])"
    unfolding p(4) by (simp add: numeral_2_eq_2)
  have "p1 @ q2 = (p1 @ p2)[length p1 + (length p2 - 1) := int l]" by (cases p2) (simp_all add: q2_def list_update_append list_update_beyond)
  also have "\<dots> = map int ?xs @ (if even n then [0, int l] else [int l])"
    unfolding pp using p(2,3) sz assms(1) len by (auto simp: list_update_append split: if_splits)
  finally show ?thesis using p up by (auto simp: make_groups_def q2_def)
qed

section \<open>Servers that start and stop\<close>

lemma make_ends_spec:
  assumes "distinct names" "\<forall>e\<in>set names. EndName e \<notin> net_ends net"
  shows "\<exists>net'. make_ends k names net = Some net' \<and> net_ends net' = net_ends net \<union> EndName ` set names \<and>
    net_servers net' = net_servers net \<and> net_reliable net' = net_reliable net \<and>
    (\<forall>e. e \<notin> EndName ` set names \<longrightarrow> net_connections net' e = net_connections net e \<and> net_enabled net' e = net_enabled net e) \<and>
    (\<forall>j<length names. net_connections net' (EndName (names ! j)) = Some (ServerName (k + j)) \<and> \<not> net_enabled net' (EndName (names ! j)))"
  using assms
proof (induction names arbitrary: k net)
  case (Cons e names)
  define net1 where "net1 = Connect (net\<lparr>net_ends := insert (EndName e) (net_ends net), net_enabled := (net_enabled net)(EndName e := False),
      net_connections := (net_connections net)(EndName e := None)\<rparr>) (EndName e) (ServerName k)"
  have step: "make_ends k (e # names) net = make_ends (k + 1) names net1"
    using Cons.prems(2) by (simp add: net1_def MakeEnd_def)
  have n1: "net_ends net1 = insert (EndName e) (net_ends net)" "net_servers net1 = net_servers net" "net_reliable net1 = net_reliable net"
    "net_connections net1 = (net_connections net)(EndName e := Some (ServerName k))" "net_enabled net1 = (net_enabled net)(EndName e := False)"
    by (simp_all add: net1_def Connect_def)
  obtain net' where n': "make_ends (k + 1) names net1 = Some net'" "net_ends net' = net_ends net1 \<union> EndName ` set names"
    "net_servers net' = net_servers net1" "net_reliable net' = net_reliable net1"
    "\<forall>e. e \<notin> EndName ` set names \<longrightarrow> net_connections net' e = net_connections net1 e \<and> net_enabled net' e = net_enabled net1 e"
    "\<forall>j<length names. net_connections net' (EndName (names ! j)) = Some (ServerName (k + 1 + j)) \<and> \<not> net_enabled net' (EndName (names ! j))"
    using Cons.IH[of net1 "k + 1"] Cons.prems n1(1) by auto
  have "net_connections net' (EndName ((e # names) ! j)) = Some (ServerName (k + j)) \<and> \<not> net_enabled net' (EndName ((e # names) ! j))"
    if "j < length (e # names)" for j
    using that n'(5,6) n1(4,5) Cons.prems(1) by (cases j) auto
  then show ?case using step n' n1 by auto
qed simp

lemma end_of_start:
  assumes "i < length (h_endnames cfg)" "h_endnames cfg' = (h_endnames cfg)[i := Some names]"
  shows "end_of cfg' a b = (if a = int i then at names b else end_of cfg a b)"
  using assms by (auto simp: end_of_def at_def nth_list_update)

text \<open>Fresh names for a server.\<close>

definition fresh_names :: "string list \<Rightarrow> ('s, 'z) hconfig_scheme \<Rightarrow> bool" where
  "fresh_names names cfg \<longleftrightarrow> length names = h_n cfg \<and> distinct names \<and> (\<forall>e\<in>set names. EndName e \<notin> net_ends (h_net cfg))"

lemma at_names: "at names b = Some e \<Longrightarrow> e \<in> set names \<and> 0 \<le> b \<and> nat b < length names \<and> e = names ! nat b"
  by (auto simp: at_def split: if_splits)

text \<open>A configuration with a new row \<open>i\<close> of fresh names: names stay unique, and no link leaves \<open>i\<close> yet.\<close>

lemma new_row_unique:
  assumes ok: "config_ok cfg" and f: "fresh_names names cfg"
    and e: "\<And>a b. end_of cfg' a b = (if a = int i then at names b else end_of cfg a b)"
    and x: "end_of cfg' a b = Some x" "end_of cfg' a' b' = Some x"
  shows "a = a' \<and> b = b'"
proof (cases "a = int i \<longleftrightarrow> a' = int i")
  case True
  show ?thesis
  proof (cases "a = int i")
    case a: True
    then have "at names b = Some x" "at names b' = Some x" using x True by (simp_all add: e)
    with at_names[of names b x] at_names[of names b' x] have "nat b = nat b'" "0 \<le> b" "0 \<le> b'"
      using f nth_eq_iff_index_eq[of names "nat b" "nat b'"] by (simp_all add: fresh_names_def)
    with a True show ?thesis by simp
  next
    case False
    then show ?thesis using config_okD(7)[OF ok] x True by (simp add: e)
  qed
next
  case False
  then have "x \<in> set names \<and> (\<exists>a b. end_of cfg a b = Some x)" using x at_names unfolding e by (metis (full_types))
  with f config_okD(5)[OF ok] show ?thesis by (auto simp: fresh_names_def)
qed

lemma new_row_links:
  assumes ok: "config_ok cfg" and f: "fresh_names names cfg"
    and e: "\<And>a b. end_of cfg' a b = (if a = int i then at names b else end_of cfg a b)"
    and on: "\<forall>e. e \<notin> EndName ` set names \<longrightarrow> net_enabled (h_net cfg') e = net_enabled (h_net cfg) e"
      "\<forall>j<length names. \<not> net_enabled (h_net cfg') (EndName (names ! j))"
  shows "link_on cfg' a b \<longleftrightarrow> a \<noteq> int i \<and> link_on cfg a b"
proof (cases "a = int i")
  case True
  then show ?thesis using at_names[of names b] on(2) unfolding link_on_def e by auto
next
  case False
  have "EndName e \<notin> EndName ` set names" if "end_of cfg a b = Some e" for e
    using config_okD(5)[OF ok that] f by (auto simp: fresh_names_def)
  then show ?thesis using False on(1) unfolding link_on_def e by auto
qed

lemma new_row_connections:
  assumes ok: "config_ok cfg" and f: "fresh_names names cfg"
    and e: "\<And>a b. end_of cfg' a b = (if a = int i then at names b else end_of cfg a b)"
    and to: "\<forall>e. e \<notin> EndName ` set names \<longrightarrow> net_connections (h_net cfg') e = net_connections (h_net cfg) e"
      "\<forall>j<length names. net_connections (h_net cfg') (EndName (names ! j)) = Some (ServerName j)"
    and x: "end_of cfg' a b = Some x"
  shows "net_connections (h_net cfg') (EndName x) = Some (ServerName (nat b))"
proof (cases "a = int i")
  case True
  then have "nat b < length names" "x = names ! nat b" using x at_names[of names b x] unfolding e by auto
  then show ?thesis using to(2) by simp
next
  case False
  then have c: "end_of cfg a b = Some x" using x unfolding e by simp
  then have "EndName x \<notin> EndName ` set names" using config_okD(5)[OF ok c] f by (auto simp: fresh_names_def)
  then show ?thesis using config_okD(6)[OF ok c] to(1) by simp
qed

lemma start_server_spec:
  assumes ok: "config_ok cfg" and i: "i < h_n cfg" and f: "fresh_names names cfg"
  shows "\<exists>cfg'. start_server start names sa cfg i = Some cfg' \<and> config_ok cfg' \<and> h_n cfg' = h_n cfg \<and>
    h_endnames cfg' = (h_endnames cfg)[i := Some names] \<and>
    h_saved cfg' = (h_saved cfg)[i := Some (case h_saved cfg ! i of Some p \<Rightarrow> Copy p | None \<Rightarrow> MakePersister)] \<and>
    (\<exists>c. h_n c = h_n cfg \<and> hconfig.more c = hconfig.more cfg \<and>
       h_servers cfg' = (h_servers cfg)[i := Some (start c i (case h_saved cfg ! i of Some p \<Rightarrow> Copy p | None \<Rightarrow> MakePersister))]) \<and>
    net_servers (h_net cfg') = (net_servers (h_net cfg))(ServerName i := Some sa) \<and>
    net_ends (h_net cfg') = net_ends (h_net cfg) \<union> EndName ` set names \<and>
    (\<forall>a b. link_on cfg' a b \<longleftrightarrow> a \<noteq> int i \<and> link_on cfg a b) \<and> hconfig.more cfg' = hconfig.more cfg"
proof -
  note c = config_okD(1-3)[OF ok]
  have fr: "length names = h_n cfg" "distinct names" "\<forall>e\<in>set names. EndName e \<notin> net_ends (h_net cfg)"
    using f by (simp_all add: fresh_names_def)
  obtain net' where n': "make_ends 0 names (h_net cfg) = Some net'" "net_ends net' = net_ends (h_net cfg) \<union> EndName ` set names"
    "net_servers net' = net_servers (h_net cfg)"
    "\<forall>e. e \<notin> EndName ` set names \<longrightarrow> net_connections net' e = net_connections (h_net cfg) e"
    "\<forall>j<length names. net_connections net' (EndName (names ! j)) = Some (ServerName j)"
    "\<forall>e. e \<notin> EndName ` set names \<longrightarrow> net_enabled net' e = net_enabled (h_net cfg) e"
    "\<forall>j<length names. \<not> net_enabled net' (EndName (names ! j))"
    using make_ends_spec[OF fr(2,3), of 0] by auto
  define ps where "ps = (case h_saved cfg ! i of Some p \<Rightarrow> Copy p | None \<Rightarrow> MakePersister)"
  define c0 where "c0 = cfg\<lparr>h_endnames := (h_endnames cfg)[i := Some names], h_net := net', h_saved := (h_saved cfg)[i := Some ps]\<rparr>"
  define cfg' where "cfg' = c0\<lparr>h_servers := (h_servers cfg)[i := Some (start c0 i ps)], h_net := AddServer net' (ServerName i) sa\<rparr>"
  have run: "start_server start names sa cfg i = Some cfg'"
    using n'(1) i c by (simp add: start_server_def upd_at_def at_def Let_def ps_def cfg'_def c0_def)
  have e: "end_of cfg' a b = (if a = int i then at names b else end_of cfg a b)" for a b
    by (rule end_of_start) (use i c in \<open>simp_all add: cfg'_def c0_def\<close>)
  have net: "net_ends (h_net cfg') = net_ends net'" "net_connections (h_net cfg') = net_connections net'" "net_enabled (h_net cfg') = net_enabled net'"
    "net_servers (h_net cfg') = (net_servers (h_net cfg))(ServerName i := Some sa)"
    using n'(3) by (simp_all add: cfg'_def AddServer_def)
  have "config_ok cfg'" unfolding config_ok_def
  proof (intro conjI allI impI)
    show "length (h_servers cfg') = h_n cfg'" "length (h_saved cfg') = h_n cfg'" "length (h_endnames cfg') = h_n cfg'"
      using c by (simp_all add: cfg'_def c0_def)
    show "length ns = h_n cfg'" if "at (h_endnames cfg') a = Some (Some ns)" for a ns
      using that config_okD(4)[OF ok, of a ns] fr(1) c i
      by (cases "a = int i") (auto simp: cfg'_def c0_def at_def nth_list_update split: if_splits)
    show "EndName x \<in> net_ends (h_net cfg')" if "end_of cfg' a b = Some x" for a b x
      using that config_okD(5)[OF ok] at_names[of names b x] n'(2) unfolding e net by (auto split: if_splits)
    show "net_connections (h_net cfg') (EndName x) = Some (ServerName (nat b))" if "end_of cfg' a b = Some x" for a b x
      using new_row_connections[OF ok f e _ _ that] n'(4,5) unfolding net by blast
    show "a = a'" "b = b'" if "end_of cfg' a b = Some x" "end_of cfg' a' b' = Some x" for a b a' b' x
      using new_row_unique[OF ok f e that] by blast+
    fix k assume "k < h_n cfg'" "h_servers cfg' ! k \<noteq> None"
    then show "h_saved cfg' ! k \<noteq> None" "h_endnames cfg' ! k \<noteq> None" "net_servers (h_net cfg') (ServerName k) \<noteq> None"
      using config_okD(8)[OF ok, of k] c i unfolding net
      by (auto simp: cfg'_def c0_def nth_list_update split: if_splits)
  qed
  moreover have "link_on cfg' a b \<longleftrightarrow> a \<noteq> int i \<and> link_on cfg a b" for a b
    using new_row_links[OF ok f e, of a b] n'(6,7) unfolding net by blast
  ultimately show ?thesis using run n'(2,3)
    by (intro exI[of _ cfg'] conjI exI[of _ c0]) (simp_all add: cfg'_def c0_def ps_def AddServer_def)
qed

lemma All_spec: "set (All_servers cfg) = ids cfg" "length (All_servers cfg) = h_n cfg"
  by (auto simp: All_servers_def image_iff) (metis atLeast0LessThan lessThan_iff zero_le_imp_eq_int of_nat_less_iff imageI)

lemma shutdown_server_spec:
  assumes s: "all_started cfg" and i: "i < h_n cfg"
  shows "\<exists>cfg'. shutdown_server kill cfg (int i) = Some (cfg', map_option kill (h_servers cfg ! i)) \<and> all_started cfg' \<and>
    h_n cfg' = h_n cfg \<and> end_of cfg' = end_of cfg \<and> h_endnames cfg' = h_endnames cfg \<and> h_servers cfg' = (h_servers cfg)[i := None] \<and>
    h_saved cfg' = (h_saved cfg)[i := map_option Copy (h_saved cfg ! i)] \<and>
    net_servers (h_net cfg') = (net_servers (h_net cfg))(ServerName i := None) \<and>
    net_ends (h_net cfg') = net_ends (h_net cfg) \<and>
    (\<forall>j\<in>ids cfg. \<not> link_on cfg' (int i) j \<and> \<not> link_on cfg' j (int i)) \<and> hconfig.more cfg' = hconfig.more cfg"
proof -
  have ok: "config_ok cfg" using s by (simp add: all_started_def)
  note c = config_okD(1-3)[OF ok]
  define c1 where "c1 = switched False (int i) (All_servers cfg) cfg"
  have "disconnectUnlocked cfg (int i) (All_servers cfg) = Some c1"
    unfolding c1_def using i by (intro disconnectUnlocked_spec[OF s]) (auto simp: All_spec)
  define cfg' where "cfg' = c1\<lparr>h_net := DeleteServer (h_net c1) (ServerName i),
     h_saved := (h_saved c1)[i := map_option Copy (h_saved cfg ! i)], h_servers := (h_servers c1)[i := None]\<rparr>"
  have run: "shutdown_server kill cfg (int i) = Some (cfg', map_option kill (h_servers cfg ! i))"
    using \<open>disconnectUnlocked cfg (int i) (All_servers cfg) = Some c1\<close> i c
    by (simp add: shutdown_server_def Let_def at_def cfg'_def c1_def)
  have c1: "config_ok c1" "end_of c1 = end_of cfg" "h_n c1 = h_n cfg" using ok by (simp_all add: c1_def)
  have e: "end_of cfg' = end_of c1" by (simp add: fun_eq_iff end_of_def cfg'_def)
  have nt: "net_ends (h_net cfg') = net_ends (h_net c1)" "net_connections (h_net cfg') = net_connections (h_net c1)"
    "net_servers (h_net cfg') = (net_servers (h_net c1))(ServerName i := None)" "net_enabled (h_net cfg') = net_enabled (h_net c1)"
    by (simp_all add: cfg'_def DeleteServer_def)
  have "config_ok cfg'" unfolding config_ok_def
  proof (intro conjI allI impI)
    fix k assume "k < h_n cfg'" "h_servers cfg' ! k \<noteq> None"
    then show "h_saved cfg' ! k \<noteq> None" "h_endnames cfg' ! k \<noteq> None" "net_servers (h_net cfg') (ServerName k) \<noteq> None"
      using config_okD(8)[OF c1(1), of k] nt(3) config_okD(1,2)[OF c1(1)] i c1(3) by (auto simp: cfg'_def nth_list_update split: if_splits)
  qed (use config_okD(1-7)[OF c1(1)] e nt in \<open>auto simp: cfg'_def\<close>)
  moreover have "link_on cfg' a b = link_on c1 a b" for a b by (simp add: link_on_def e nt(4))
  moreover have "\<not> link_on c1 (int i) j \<and> \<not> link_on c1 j (int i)" if "j \<in> ids cfg" for j
    using link_on_switched[OF s, of "int i" "All_servers cfg" "int i" j False] link_on_switched[OF s, of "int i" "All_servers cfg" j "int i" False] that i
    by (simp add: c1_def All_spec)
  ultimately show ?thesis using run s e c1(2) nt
    by (intro exI[of _ cfg']) (simp add: cfg'_def all_started_def, simp add: c1_def switched_def)
qed

end
