(* ===== verification/Kv_Harness.thy ===== *)
theory Kv_Harness
  imports Kv_Config
begin

text \<open>
  What the harness of \<^verbatim>\<open>kvraft/config.go\<close> and \<^verbatim>\<open>shardmaster/config.go\<close> promises: \<^verbatim>\<open>make_config\<close> brings up a fully connected service, every
  operation keeps the configuration well formed, \<^verbatim>\<open>make_partition\<close> and \<^verbatim>\<open>partition\<close> cut the leader off with a
  minority, a restarted server finds the state and the snapshot that its predecessor saved, and
  a clerk reaches the servers it is connected to.
\<close>

section \<open>A full set of servers\<close>

definition fresh_table :: "nat \<Rightarrow> (nat \<Rightarrow> string list) \<Rightarrow> bool" where
  "fresh_table n names \<longleftrightarrow> (\<forall>i<n. length (names i) = n \<and> distinct (names i) \<and> (\<forall>j<n. j \<noteq> i \<longrightarrow> set (names i) \<inter> set (names j) = {}))"

text \<open>The configuration after the first \<open>k\<close> servers have been started.\<close>

definition some_started :: "(nat \<Rightarrow> string list) \<Rightarrow> (nat \<Rightarrow> 's) \<Rightarrow> nat \<Rightarrow> ('s, 'z) hconfig_scheme \<Rightarrow> bool" where
  "some_started names sv k cfg \<longleftrightarrow> config_ok cfg \<and> net_ends (h_net cfg) = (\<Union>i<k. EndName ` set (names i)) \<and>
     (\<forall>i<h_n cfg. h_endnames cfg ! i = (if i < k then Some (names i) else None) \<and>
        h_saved cfg ! i = (if i < k then Some MakePersister else None) \<and> h_servers cfg ! i = (if i < k then Some (sv i) else None))"

lemma start_all_spec:
  assumes f: "fresh_table n names" and st: "\<And>c i. h_n c = n \<Longrightarrow> hconfig.more c = z \<Longrightarrow> start c i MakePersister = sv i"
  shows "some_started names sv k cfg \<Longrightarrow> h_n cfg = n \<Longrightarrow> hconfig.more cfg = z \<Longrightarrow> k \<le> n \<Longrightarrow>
    \<exists>cfg'. start_all start names sa [k..<n] cfg = Some cfg' \<and> some_started names sv n cfg' \<and> h_n cfg' = n \<and> hconfig.more cfg' = z"
proof (induction "n - k" arbitrary: k cfg)
  case 0
  then show ?case by simp
next
  case (Suc d)
  then have k: "k < h_n cfg" "k < n" by simp_all
  have s: "config_ok cfg" "net_ends (h_net cfg) = (\<Union>i<k. EndName ` set (names i))"
      "\<forall>i<h_n cfg. h_endnames cfg ! i = (if i < k then Some (names i) else None) \<and>
        h_saved cfg ! i = (if i < k then Some MakePersister else None) \<and> h_servers cfg ! i = (if i < k then Some (sv i) else None)"
    using Suc.prems(1) by (simp_all add: some_started_def)
  have "e \<notin> set (names i)" if "i < k" "e \<in> set (names k)" for i e
    using f that k unfolding fresh_table_def by (metis disjoint_iff less_trans less_irrefl)
  then have "fresh_names (names k) cfg" using f k Suc.prems(2) s(2) by (auto simp: fresh_names_def fresh_table_def)
  from start_server_spec[OF s(1) k(1) this, of start "sa k"] obtain cfg' where
    c: "start_server start (names k) (sa k) cfg k = Some cfg'" "config_ok cfg'" "h_n cfg' = h_n cfg"
      "h_endnames cfg' = (h_endnames cfg)[k := Some (names k)]" "hconfig.more cfg' = hconfig.more cfg"
      "h_saved cfg' = (h_saved cfg)[k := Some (case h_saved cfg ! k of Some p \<Rightarrow> Copy p | None \<Rightarrow> MakePersister)]"
      "\<exists>c. h_n c = h_n cfg \<and> hconfig.more c = hconfig.more cfg \<and>
         h_servers cfg' = (h_servers cfg)[k := Some (start c k (case h_saved cfg ! k of Some p \<Rightarrow> Copy p | None \<Rightarrow> MakePersister))]"
      "net_ends (h_net cfg') = net_ends (h_net cfg) \<union> EndName ` set (names k)"
    by blast
  have saved: "h_saved cfg ! k = None" using s(3) k(1) by simp
  have "h_servers cfg' = (h_servers cfg)[k := Some (sv k)]" using c(7) saved st Suc.prems(2,3) by auto
  then have "some_started names sv (Suc k) cfg'" unfolding some_started_def
    using c s(2,3) saved k(1) config_okD(1-3)[OF s(1)] by (auto simp: lessThan_Suc nth_list_update less_Suc_eq)
  moreover have "[k..<n] = k # [Suc k..<n]" using k(2) by (rule upt_conv_Cons)
  ultimately show ?case using Suc.hyps(1)[of "Suc k" cfg'] Suc.hyps(2) Suc.prems c(1,3,5) k by auto
qed

lemma connect_each_spec:
  assumes "all_started cfg" "set is \<subseteq> ids cfg" "set to \<subseteq> ids cfg"
  shows "\<exists>cfg'. connect_each is to cfg = Some cfg' \<and> all_started cfg' \<and> h_n cfg' = h_n cfg \<and> h_servers cfg' = h_servers cfg \<and>
    h_saved cfg' = h_saved cfg \<and>
    (\<forall>a\<in>ids cfg. \<forall>b\<in>ids cfg. link_on cfg' a b \<longleftrightarrow> touches (set is) (set to) a b \<or> link_on cfg a b)"
  using assms
proof (induction "is" arbitrary: cfg)
  case (Cons i "is")
  define c1 where "c1 = switched True i to cfg"
  have i: "i \<in> ids cfg" using Cons.prems(2) by simp
  have "connectUnlocked cfg i to = Some c1" unfolding c1_def by (rule connectUnlocked_spec[OF Cons.prems(1) i Cons.prems(3)])
  moreover have "link_on c1 a b \<longleftrightarrow> touches {i} (set to) a b \<or> link_on cfg a b" if "a \<in> ids cfg" "b \<in> ids cfg" for a b
    unfolding c1_def using link_on_switched[OF Cons.prems(1) i Cons.prems(3) that, of True] by (auto simp: touches_def)
  moreover have "\<exists>cfg'. connect_each is to c1 = Some cfg' \<and> all_started cfg' \<and> h_n cfg' = h_n c1 \<and> h_servers cfg' = h_servers c1 \<and>
      h_saved cfg' = h_saved c1 \<and>
      (\<forall>a\<in>ids c1. \<forall>b\<in>ids c1. link_on cfg' a b \<longleftrightarrow> touches (set is) (set to) a b \<or> link_on c1 a b)"
    using Cons.prems by (intro Cons.IH) (simp_all add: c1_def)
  moreover have "h_n c1 = h_n cfg" "h_servers c1 = h_servers cfg" "h_saved c1 = h_saved cfg" by (simp_all add: c1_def)
  ultimately show ?case by (auto simp: touches_def)
qed (simp add: touches_def)

text \<open>What \<^verbatim>\<open>make_config\<close> builds.\<close>

definition fully_up :: "(nat \<Rightarrow> 's) \<Rightarrow> bool \<Rightarrow> ('s, 'z) hconfig_scheme \<Rightarrow> bool" where
  "fully_up sv reliable cfg \<longleftrightarrow> all_started cfg \<and> (\<forall>i<h_n cfg. h_servers cfg ! i = Some (sv i) \<and> h_saved cfg ! i = Some MakePersister) \<and>
     (\<forall>a\<in>ids cfg. \<forall>b\<in>ids cfg. link_on cfg a b) \<and> net_reliable (h_net cfg) = reliable"

lemma Reliable_keeps [simp]:
  "all_started (cfg\<lparr>h_net := Reliable net yes\<rparr>) \<longleftrightarrow> all_started (cfg\<lparr>h_net := net\<rparr>)"
  "link_on (cfg\<lparr>h_net := Reliable net yes\<rparr>) a b \<longleftrightarrow> link_on (cfg\<lparr>h_net := net\<rparr>) a b"
  by (simp_all add: all_started_def config_ok_def link_on_def Reliable_def)

lemma build_spec:
  assumes f: "fresh_table n names" and st: "\<And>c i. h_n c = n \<Longrightarrow> hconfig.more c = hconfig.more cfg \<Longrightarrow> start c i MakePersister = sv i"
    and cfg: "h_net cfg = MakeNetwork" "h_n cfg = n" "h_servers cfg = replicate n None" "h_saved cfg = replicate n None" "h_endnames cfg = replicate n None"
  shows "\<exists>c1 c2. start_all start names sa [0..<n] cfg = Some c1 \<and> ConnectAll c1 = Some c2 \<and> h_n c2 = n \<and>
    fully_up sv yes (c2\<lparr>h_net := Reliable (h_net c2) yes\<rparr>)"
proof -
  have e: "end_of cfg i j = None" "at (h_endnames cfg) i \<noteq> Some (Some ns)" for i j ns
    using cfg(5) by (auto simp: end_of_def at_def split: if_splits)
  have "some_started names sv 0 cfg"
    using cfg e by (simp add: some_started_def config_ok_def MakeNetwork_def)
  from start_all_spec[where start = start and sv = sv and sa = sa, OF f st this cfg(2) refl] obtain c1 where
    c1: "start_all start names sa [0..<n] cfg = Some c1" "some_started names sv n c1" "h_n c1 = n" by auto
  then have ok: "config_ok c1" "\<forall>i<n. h_endnames c1 ! i = Some (names i) \<and> h_saved c1 ! i = Some MakePersister \<and> h_servers c1 ! i = Some (sv i)"
    by (simp_all add: some_started_def)
  then have as: "all_started c1" using config_okD(3)[OF ok(1)] c1(3) by (auto simp: all_started_def in_set_conv_nth)
  obtain c2 where c2: "ConnectAll c1 = Some c2" "all_started c2" "h_n c2 = n" "h_servers c2 = h_servers c1" "h_saved c2 = h_saved c1"
    "\<forall>a\<in>ids c1. \<forall>b\<in>ids c1. link_on c2 a b \<longleftrightarrow> touches (ids c1) (ids c1) a b \<or> link_on c1 a b"
    using connect_each_spec[OF as, of "All_servers c1" "All_servers c1"] c1(3) by (auto simp: All_spec ConnectAll_def)
  have "\<forall>a\<in>ids c2. \<forall>b\<in>ids c2. link_on c2 a b" using c2(3,6) c1(3) by (simp add: touches_def)
  then have "fully_up sv yes (c2\<lparr>h_net := Reliable (h_net c2) yes\<rparr>)"
    using c2(2-5) ok(2) by (simp add: fully_up_def) (simp add: Reliable_def)
  with c1(1) c2(1,3) show ?thesis by blast
qed

lemma leader_scan_spec:
  assumes "\<forall>i\<in>set is. i < length servers \<and> servers ! i \<noteq> None"
  shows "\<exists>b l. leader_scan rf servers is = Some (b, l) \<and> (b \<longrightarrow> l \<in> set is \<and> rstate (rf (the (servers ! l))) = leader) \<and>
    (\<not> b \<longrightarrow> l = 0 \<and> (\<forall>i\<in>set is. rstate (rf (the (servers ! i))) \<noteq> leader))"
  using assms
proof (induction "is")
  case (Cons i "is")
  then obtain kv where "at servers (int i) = Some (Some kv)" "servers ! i = Some kv" by (auto simp: at_def)
  with Cons show ?case by (auto simp: GetState_def Let_def)
qed (simp add: exI[of _ False])

lemma find_leader_spec:
  assumes "config_ok cfg" "\<forall>i<h_n cfg. h_servers cfg ! i \<noteq> None" "0 < h_n cfg"
  shows "\<exists>b l. find_leader rf cfg = Some (b, l) \<and> l < h_n cfg \<and> (b \<longrightarrow> rstate (rf (the (h_servers cfg ! l))) = leader) \<and>
    (\<not> b \<longrightarrow> (\<forall>i<h_n cfg. rstate (rf (the (h_servers cfg ! i))) \<noteq> leader))"
  using leader_scan_spec[of "[0..<h_n cfg]" "h_servers cfg" rf] assms config_okD(1)[OF assms(1)] unfolding find_leader_def by auto

lemma new_partition_spec:
  assumes s: "all_started cfg" and up: "\<forall>i<h_n cfg. h_servers cfg ! i \<noteq> None" and n: "odd (h_n cfg)" "3 \<le> h_n cfg"
  shows "\<exists>b l p1 p2 cfg'. find_leader rf cfg = Some (b, l) \<and> new_partition rf cfg = Some (p1, p2) \<and>
    (b \<longrightarrow> rstate (rf (the (h_servers cfg ! l))) = leader) \<and> (\<not> b \<longrightarrow> (\<forall>i<h_n cfg. rstate (rf (the (h_servers cfg ! i))) \<noteq> leader)) \<and>
    int l \<in> set p2 \<and> length p2 < length p1 \<and> distinct (p1 @ p2) \<and> set (p1 @ p2) = ids cfg \<and>
    cfg_partition cfg p1 p2 = Some cfg' \<and> (\<forall>a\<in>ids cfg. \<forall>b\<in>ids cfg. link_on cfg' a b \<longleftrightarrow> (a \<in> set p1 \<longleftrightarrow> b \<in> set p1))"
proof -
  have ok: "config_ok cfg" using s by (simp add: all_started_def)
  obtain b l where l: "find_leader rf cfg = Some (b, l)" "l < h_n cfg" "b \<longrightarrow> rstate (rf (the (h_servers cfg ! l))) = leader"
    "\<not> b \<longrightarrow> (\<forall>i<h_n cfg. rstate (rf (the (h_servers cfg ! i))) \<noteq> leader)"
    using find_leader_spec[OF ok up, of rf] n(2) by auto
  obtain p1 p2 where p: "make_groups (h_n cfg) l = Some (p1, p2)" "length p1 = h_n cfg div 2 + 1" "length p2 = h_n cfg div 2"
    "p1 @ p2 = map int (filter (\<lambda>i. i \<noteq> l) [0..<h_n cfg]) @ [int l]"
    using make_groups_spec[of "h_n cfg" l] n l(2) by auto
  have dist: "distinct (p1 @ p2)" unfolding p(4) by (auto simp: distinct_map)
  have all: "set (p1 @ p2) = ids cfg"
  proof -
    have "set (p1 @ p2) = int ` {..<h_n cfg}" unfolding p(4) using l(2) by auto
    also have "\<dots> = ids cfg" by (simp add: atLeast0LessThan[symmetric] image_int_atLeastLessThan)
    finally show ?thesis .
  qed
  have "p2 \<noteq> []" using p(3) n(2) by auto
  then have "last (p1 @ p2) = last p2" by simp
  then have lp: "int l \<in> set p2" unfolding p(4) using \<open>p2 \<noteq> []\<close> by (metis last_in_set last_snoc)
  have len: "length p1 \<le> h_n cfg" "length p2 \<le> h_n cfg" using p(2,3) n(2) by auto
  have sub: "set p1 \<subseteq> ids cfg" "set p2 \<subseteq> ids cfg" "set p1 \<inter> set p2 = {}" using all dist by auto
  obtain cfg' where cfg': "cfg_partition cfg p1 p2 = Some cfg'" "partitioned (set p1) (set p2) cfg cfg'"
    using partition_spec[OF s sub len] by blast
  have "link_on cfg' a b \<longleftrightarrow> (a \<in> set p1 \<longleftrightarrow> b \<in> set p1)" if "a \<in> ids cfg" "b \<in> ids cfg" for a b
  proof -
    have "a \<in> set p1 \<longleftrightarrow> a \<notin> set p2" "b \<in> set p1 \<longleftrightarrow> b \<notin> set p2" using that all sub(3) by auto
    then show ?thesis using cfg'(2) that unfolding partitioned_def by (auto simp: touches_def)
  qed
  then show ?thesis using l p(1-3) lp dist all cfg'(1)
    by (intro exI[of _ b] exI[of _ l] exI[of _ p1] exI[of _ p2] exI[of _ cfg']) (simp add: new_partition_def)
qed

section \<open>Every operation keeps the configuration well formed\<close>

lemma make_ends_fresh:
  "make_ends k names net = Some net' \<Longrightarrow> distinct names \<and> (\<forall>e\<in>set names. EndName e \<notin> net_ends net)"
proof (induction names arbitrary: k net)
  case (Cons e names)
  then obtain net1 where net1: "MakeEnd net (EndName e) = Some net1" "make_ends (k + 1) names (Connect net1 (EndName e) (ServerName k)) = Some net'"
    by (auto simp: bind_Some_iff)
  then have e: "EndName e \<notin> net_ends net" "net_ends (Connect net1 (EndName e) (ServerName k)) = insert (EndName e) (net_ends net)"
    by (auto simp: MakeEnd_def Connect_def split: if_splits)
  from Cons.IH[OF net1(2)] show ?case unfolding e(2) using e(1) by auto
qed simp

lemma config_ok_net:
  assumes "config_ok cfg" "h_n cfg' = h_n cfg" "h_servers cfg' = h_servers cfg" "h_saved cfg' = h_saved cfg" "h_endnames cfg' = h_endnames cfg"
    and net: "net_ends (h_net cfg) \<subseteq> net_ends (h_net cfg')" "net_servers (h_net cfg') = net_servers (h_net cfg)"
      "\<forall>e\<in>net_ends (h_net cfg). net_connections (h_net cfg') e = net_connections (h_net cfg) e"
  shows "config_ok cfg'"
proof -
  have "end_of cfg' = end_of cfg" using assms(5) by (simp add: fun_eq_iff end_of_def)
  moreover have "EndName e \<in> net_ends (h_net cfg') \<and> net_connections (h_net cfg') (EndName e) = Some (ServerName (nat j))"
    if "end_of cfg i j = Some e" for i j e
    using config_okD(5,6)[OF assms(1) that] net by auto
  ultimately show ?thesis using assms(1-5) net(2) unfolding config_ok_def by simp
qed

lemma config_ok_connect: "connectUnlocked cfg i to = Some cfg' \<Longrightarrow> config_ok cfg \<Longrightarrow> config_ok cfg'"
  by (auto simp: connectUnlocked_def bind_Some_iff)

lemma config_ok_disconnect: "disconnectUnlocked cfg i frm = Some cfg' \<Longrightarrow> config_ok cfg \<Longrightarrow> config_ok cfg'"
  by (auto simp: disconnectUnlocked_def bind_Some_iff)

lemma config_ok_connect_each: "connect_each is to cfg = Some cfg' \<Longrightarrow> config_ok cfg \<Longrightarrow> config_ok cfg'"
  by (induction "is" arbitrary: cfg) (auto simp: bind_Some_iff dest: config_ok_connect)

lemma config_ok_split: "split_from is own other cfg = Some cfg' \<Longrightarrow> config_ok cfg \<Longrightarrow> config_ok cfg'"
  by (induction "is" arbitrary: cfg) (auto simp: bind_Some_iff dest: config_ok_connect config_ok_disconnect)

lemma config_ok_clerk:
  "ConnectClientUnlocked cfg ck to = Some cfg' \<Longrightarrow> config_ok cfg \<Longrightarrow> config_ok cfg'"
  "DisconnectClientUnlocked cfg ck to = Some cfg' \<Longrightarrow> config_ok cfg \<Longrightarrow> config_ok cfg'"
  by (auto simp: ConnectClientUnlocked_def DisconnectClientUnlocked_def Let_def bind_Some_iff)

lemma config_ok_makeClient:
  assumes "makeClient draw names ck cfg to = Some (cfg', handles)" "config_ok cfg"
  shows "config_ok cfg'"
proof -
  obtain net where net: "make_ends 0 names (h_net cfg) = Some net"
    "ConnectClientUnlocked (cfg\<lparr>h_net := net, h_clerks := (h_clerks cfg)(ck \<mapsto> names), h_nextClientId := h_nextClientId cfg + 1\<rparr>) ck to = Some cfg'"
    using assms(1) by (auto simp: makeClient_def bind_Some_iff Let_def)
  note f = make_ends_fresh[OF net(1), THEN conjunct1] make_ends_fresh[OF net(1), THEN conjunct2]
  have m: "net_ends net = net_ends (h_net cfg) \<union> EndName ` set names" "net_servers net = net_servers (h_net cfg)"
    "\<forall>e. e \<notin> EndName ` set names \<longrightarrow> net_connections net e = net_connections (h_net cfg) e"
    using make_ends_spec[OF f, of 0] net(1) by auto
  have "net_connections net e = net_connections (h_net cfg) e" if "e \<in> net_ends (h_net cfg)" for e
    using m(3) f(2) that by (cases "e \<in> EndName ` set names") auto
  then have "config_ok (cfg\<lparr>h_net := net, h_clerks := (h_clerks cfg)(ck \<mapsto> names), h_nextClientId := h_nextClientId cfg + 1\<rparr>)"
    using m(1,2) by (intro config_ok_net[OF assms(2)]) auto
  with config_ok_clerk(1)[OF net(2)] show ?thesis .
qed

lemma config_ok_shutdown:
  assumes "shutdown_server kill cfg i = Some (cfg', old)" "config_ok cfg"
  shows "config_ok cfg'"
proof -
  obtain c1 saved kv where c1: "disconnectUnlocked cfg i (All_servers cfg) = Some c1" "at (h_saved c1) i = Some saved" "at (h_servers c1) i = Some kv"
    "cfg' = c1\<lparr>h_net := DeleteServer (h_net c1) (ServerName (nat i)), h_saved := (h_saved c1)[nat i := map_option Copy saved],
       h_servers := (h_servers c1)[nat i := None]\<rparr>"
    using assms(1) by (auto simp: shutdown_server_def bind_Some_iff Let_def)
  have ok: "config_ok c1" using config_ok_disconnect[OF c1(1) assms(2)] .
  note c = config_okD[OF ok]
  have e: "end_of cfg' = end_of c1" by (simp add: fun_eq_iff end_of_def c1(4))
  show ?thesis unfolding config_ok_def
  proof (intro conjI allI impI)
    fix k assume "k < h_n cfg'" "h_servers cfg' ! k \<noteq> None"
    then show "h_saved cfg' ! k \<noteq> None" "h_endnames cfg' ! k \<noteq> None" "net_servers (h_net cfg') (ServerName k) \<noteq> None"
      using c(8)[of k] c(1,2) c1(2,3) by (auto simp: c1(4) DeleteServer_def nth_list_update at_def split: if_splits)
  qed (use c(1-7) e in \<open>auto simp: c1(4) DeleteServer_def\<close>)
qed

lemma config_ok_start:
  assumes "start_server start names sa cfg i = Some cfg'" "config_ok cfg" "length names = h_n cfg"
  shows "config_ok cfg'"
proof -
  obtain rows net where r: "upd_at (h_endnames cfg) (int i) (Some names) = Some rows" "make_ends 0 names (h_net cfg) = Some net"
    using assms(1) by (auto simp: start_server_def bind_Some_iff)
  have "i < h_n cfg" using r(1) config_okD(3)[OF assms(2)] by (auto simp: upd_at_def split: if_splits)
  moreover have "fresh_names names cfg" using make_ends_fresh[OF r(2)] assms(3) by (simp add: fresh_names_def)
  ultimately show ?thesis using start_server_spec[OF assms(2), of i names start sa] assms(1) by auto
qed

lemma shuffle_perm: "\<forall>i\<in>set is. i < length xs \<Longrightarrow> mset (shuffle draw is xs) = mset xs"
proof (induction "is" arbitrary: xs)
  case (Cons i "is")
  have "draw i mod (i + 1) < i + 1" by simp
  then have "Intn (i + 1) (draw i) < length xs" using Cons.prems unfolding Intn_def by (metis Suc_eq_plus1 le_less_trans less_Suc_eq_le list.set_intros(1))
  then show ?case using Cons by (simp add: Let_def mset_swap)
qed simp

lemma random_handles_perm: "mset (random_handles draw xs) = mset xs"
  unfolding random_handles_def by (rule shuffle_perm) simp


section \<open>Properties\<close>

text \<open>
  \<^bold>\<open>C20\<close>. Every operation of the kvraft harness keeps its configuration well formed: the arrays have one
  place per server, every end name is known to the network, leads to the server of its column and is
  used once, and a running server has a persister, ends and an address.
\<close>

theorem harness_keeps_config:
  assumes "config_ok cfg"
  shows "(\<forall>i to cfg'. connectUnlocked cfg i to = Some cfg' \<longrightarrow> config_ok cfg') \<and>
    (\<forall>i frm cfg'. disconnectUnlocked cfg i frm = Some cfg' \<longrightarrow> config_ok cfg') \<and>
    (\<forall>cfg'. ConnectAll cfg = Some cfg' \<longrightarrow> config_ok cfg') \<and>
    (\<forall>p1 p2 cfg'. cfg_partition cfg p1 p2 = Some cfg' \<longrightarrow> config_ok cfg') \<and>
    (\<forall>ck to cfg'. ConnectClientUnlocked cfg ck to = Some cfg' \<longrightarrow> config_ok cfg') \<and>
    (\<forall>ck frm cfg'. DisconnectClientUnlocked cfg ck frm = Some cfg' \<longrightarrow> config_ok cfg') \<and>
    (\<forall>draw names ck to cfg' handles. makeClient draw names ck cfg to = Some (cfg', handles) \<longrightarrow> config_ok cfg') \<and>
    (\<forall>ck. config_ok (fst (deleteClient cfg ck))) \<and>
    (\<forall>i cfg' old. ShutdownServer cfg i = Some (cfg', old) \<longrightarrow> config_ok cfg') \<and>
    (\<forall>names sa i cfg'. StartServer names sa cfg i = Some cfg' \<longrightarrow> length names = h_n cfg \<longrightarrow> config_ok cfg')"
proof (intro conjI allI impI)
  show "config_ok (fst (deleteClient cfg ck))" for ck
    using assms by (auto intro: config_ok_net[OF assms] simp: deleteClient_def Let_def)
qed (use assms in \<open>auto simp: ConnectAll_def cfg_partition_def ShutdownServer_def StartServer_def bind_Some_iff
    intro: config_ok_connect config_ok_disconnect config_ok_connect_each config_ok_split config_ok_clerk config_ok_makeClient
      config_ok_shutdown config_ok_start\<close>)

lemma kv_build:
  assumes "fresh_table n names"
  shows "\<exists>cfg :: 'c kvcfg. make_config names sa now n unreliable maxraftstate = Some cfg \<and> h_n cfg = n \<and>
    fully_up (\<lambda>i. StartKVServer n i MakePersister maxraftstate) (\<not> unreliable) cfg"
proof -
  let ?cfg = "\<lparr>h_net = MakeNetwork, h_n = n, h_servers = replicate n None, h_saved = replicate n None,
       h_endnames = replicate n None, h_clerks = Map.empty, h_nextClientId = int n + 1000, h_start = now,
       kv_cfg_maxraftstate = maxraftstate, kv_t0 = 0, kv_rpcs0 = 0, kv_ops = 0\<rparr> :: 'c kvcfg"
  have st: "StartKVServer (h_n c) i MakePersister (kv_cfg_maxraftstate c) = StartKVServer n i MakePersister maxraftstate"
    if "h_n c = n" "hconfig.more c = hconfig.more ?cfg" for c :: "'c kvcfg" and i
    using that by (cases c) simp
  let ?start = "\<lambda>cfg i ps. StartKVServer (h_n cfg) i ps (kv_cfg_maxraftstate cfg)"
  have "\<exists>c1 c2. start_all ?start names sa [0..<n] ?cfg = Some c1 \<and> ConnectAll c1 = Some c2 \<and> h_n c2 = n \<and>
      fully_up (\<lambda>i. StartKVServer n i MakePersister maxraftstate) (\<not> unreliable) (c2\<lparr>h_net := Reliable (h_net c2) (\<not> unreliable)\<rparr>)"
  proof (rule build_spec[OF assms])
    fix c :: "'c kvcfg" and i assume "h_n c = n" "hconfig.more c = hconfig.more ?cfg"
    then show "?start c i MakePersister = StartKVServer n i MakePersister maxraftstate" by (rule st)
  qed simp_all
  then obtain c1 c2 where c: "start_all ?start names sa [0..<n] ?cfg = Some c1" "ConnectAll c1 = Some c2" "h_n c2 = n"
      "fully_up (\<lambda>i. StartKVServer n i MakePersister maxraftstate) (\<not> unreliable) (c2\<lparr>h_net := Reliable (h_net c2) (\<not> unreliable)\<rparr>)"
    by blast
  then have "make_config names sa now n unreliable maxraftstate = Some (c2\<lparr>h_net := Reliable (h_net c2) (\<not> unreliable)\<rparr>)"
    by (simp add: make_config_def Let_def)
  with c(3,4) show ?thesis by simp
qed

theorem make_config_ready:
  assumes "fresh_table n names"
  shows "\<exists>cfg :: 'c kvcfg. make_config names sa now n unreliable maxraftstate = Some cfg \<and> h_n cfg = n \<and>
    fully_up (\<lambda>i. StartKVServer n i MakePersister maxraftstate) (\<not> unreliable) cfg"
  using assms by (rule kv_build)

lemma sm_make_config_ready:
  assumes "fresh_table n names"
  shows "\<exists>cfg :: 'c smcfg. sm_make_config names sa now n unreliable = Some cfg \<and> h_n cfg = n \<and>
    fully_up (\<lambda>i. ShardMaster_StartServer n i MakePersister) (\<not> unreliable) cfg"
proof -
  let ?cfg = "\<lparr>h_net = MakeNetwork, h_n = n, h_servers = replicate n None, h_saved = replicate n None,
       h_endnames = replicate n None, h_clerks = Map.empty, h_nextClientId = int n + 1000, h_start = now\<rparr> :: 'c smcfg"
  have "\<exists>c1 c2. start_all (\<lambda>cfg i ps. ShardMaster_StartServer (h_n cfg) i ps) names sa [0..<n] ?cfg = Some c1 \<and> ConnectAll c1 = Some c2 \<and> h_n c2 = n \<and>
      fully_up (\<lambda>i. ShardMaster_StartServer n i MakePersister) (\<not> unreliable) (c2\<lparr>h_net := Reliable (h_net c2) (\<not> unreliable)\<rparr>)"
    by (rule build_spec[OF assms]) simp_all
  then obtain c1 c2 where c: "start_all (\<lambda>cfg i ps. ShardMaster_StartServer (h_n cfg) i ps) names sa [0..<n] ?cfg = Some c1"
      "ConnectAll c1 = Some c2" "h_n c2 = n"
      "fully_up (\<lambda>i. ShardMaster_StartServer n i MakePersister) (\<not> unreliable) (c2\<lparr>h_net := Reliable (h_net c2) (\<not> unreliable)\<rparr>)"
    by blast
  then have "sm_make_config names sa now n unreliable = Some (c2\<lparr>h_net := Reliable (h_net c2) (\<not> unreliable)\<rparr>)"
    by (simp add: sm_make_config_def Let_def)
  with c(3,4) show ?thesis by simp
qed

section \<open>The contract of a server\<close>

text \<open>
  What the harness needs of the servers it runs: a new server reads the persister it is given and
  follows, and a killed one is dead.  The servers of \<^verbatim>\<open>kvraft\<close> and of \<^verbatim>\<open>shardmaster\<close> provide it.
\<close>

locale replica =
  fixes rf_of :: "'s \<Rightarrow> 'c raft"
    and kill :: "'s \<Rightarrow> 's"
    and start :: "('s, 'z) hconfig_scheme \<Rightarrow> nat \<Rightarrow> Persister \<Rightarrow> 's"
  assumes start_reads: "persister (rf_of (start cfg i ps)) = ps"
    and start_follows: "rstate (rf_of (start cfg i ps)) = follower"
    and kill_dies: "killed (rf_of (kill s))"
begin

lemma restart:
  assumes up: "all_started cfg" "i < h_n cfg" and p: "h_saved cfg ! i = Some p" and f: "fresh_names names cfg"
  shows "\<exists>cfg1 old cfg2 s. shutdown_server kill cfg (int i) = Some (cfg1, old) \<and> (\<forall>s. old = Some s \<longrightarrow> killed (rf_of s)) \<and>
    net_servers (h_net cfg1) (ServerName i) = None \<and> (\<forall>j\<in>ids cfg. \<not> link_on cfg1 (int i) j \<and> \<not> link_on cfg1 j (int i)) \<and>
    start_server start names sa cfg1 i = Some cfg2 \<and> h_servers cfg2 ! i = Some s \<and> net_servers (h_net cfg2) (ServerName i) = Some sa \<and>
    rstate (rf_of s) = follower \<and>
    ReadRaftState (persister (rf_of s)) = ReadRaftState p \<and> ReadSnapshot (persister (rf_of s)) = ReadSnapshot p"
proof -
  obtain cfg1 where c1: "shutdown_server kill cfg (int i) = Some (cfg1, map_option kill (h_servers cfg ! i))" "all_started cfg1"
    "h_n cfg1 = h_n cfg" "h_saved cfg1 = (h_saved cfg)[i := map_option Copy (h_saved cfg ! i)]"
    "net_servers (h_net cfg1) = (net_servers (h_net cfg))(ServerName i := None)" "net_ends (h_net cfg1) = net_ends (h_net cfg)"
    "\<forall>j\<in>ids cfg. \<not> link_on cfg1 (int i) j \<and> \<not> link_on cfg1 j (int i)"
    using shutdown_server_spec[OF up, of kill] by blast
  have ok: "config_ok cfg1" "config_ok cfg" "i < h_n cfg1" using c1(2,3) up by (simp_all add: all_started_def)
  have sv: "h_saved cfg1 ! i = Some (Copy p)" using c1(4) up(2) p config_okD(2)[OF ok(2)] by simp
  have "fresh_names names cfg1" using f c1(3,6) by (simp add: fresh_names_def)
  from start_server_spec[OF ok(1,3) this, of start sa]
  have "\<exists>cfg2 c. start_server start names sa cfg1 i = Some cfg2 \<and> net_servers (h_net cfg2) = (net_servers (h_net cfg1))(ServerName i := Some sa) \<and>
    h_servers cfg2 = (h_servers cfg1)[i := Some (start c i (Copy (Copy p)))]"
    unfolding sv by auto
  then obtain cfg2 c where c2: "start_server start names sa cfg1 i = Some cfg2"
    "net_servers (h_net cfg2) = (net_servers (h_net cfg1))(ServerName i := Some sa)"
    "h_servers cfg2 = (h_servers cfg1)[i := Some (start c i (Copy (Copy p)))]"
    by blast
  have "h_servers cfg2 ! i = Some (start c i (Copy (Copy p)))"
    using c2(3) ok(3) config_okD(1)[OF ok(1)] by simp
  moreover have "ReadRaftState (Copy (Copy p)) = ReadRaftState p" "ReadSnapshot (Copy (Copy p)) = ReadSnapshot p"
    by (simp_all add: persister_defs Let_def)
  ultimately show ?thesis using c1(1,5,7) c2(1,2) start_reads start_follows kill_dies
    by (intro exI[of _ cfg1] exI[of _ "map_option kill (h_servers cfg ! i)"] exI[of _ cfg2] exI[of _ "start c i (Copy (Copy p))"]) auto
qed

end

lemmas server_defs = StartKVServer_def KVServer_Kill_def ShardMaster_StartServer_def ShardMaster_Kill_def
  Make_def readPersist_def Kill_def killed_def

interpretation kvr: replica kv_rf KVServer_Kill "\<lambda>cfg i ps. StartKVServer (h_n cfg) i ps (kv_cfg_maxraftstate cfg)"
  by unfold_locales (simp_all add: server_defs)

interpretation smr: replica sm_rf ShardMaster_Kill "\<lambda>cfg i ps. ShardMaster_StartServer (h_n cfg) i ps"
  by unfold_locales (simp_all add: server_defs)

section \<open>Properties of the harness\<close>

text \<open>
  \<^bold>\<open>C19\<close>. With an odd number of at least three servers, make_partition splits them into two disjoint groups
  with the leader in the smaller one, and partition on these groups leaves a link between two
  servers enabled exactly when they are in the same group.
\<close>

theorem leader_in_minority:
  assumes "all_started cfg" "\<forall>i<h_n cfg. h_servers cfg ! i \<noteq> None" "odd (h_n cfg)" "3 \<le> h_n cfg"
  shows "\<exists>b l p1 p2 cfg'. Leader cfg = Some (b, l) \<and> make_partition cfg = Some (p1, p2) \<and>
    (b \<longrightarrow> rstate (kv_rf (the (h_servers cfg ! l))) = leader) \<and>
    (\<not> b \<longrightarrow> (\<forall>i<h_n cfg. rstate (kv_rf (the (h_servers cfg ! i))) \<noteq> leader)) \<and>
    int l \<in> set p2 \<and> length p2 < length p1 \<and> distinct (p1 @ p2) \<and> set (p1 @ p2) = ids cfg \<and>
    cfg_partition cfg p1 p2 = Some cfg' \<and> (\<forall>a\<in>ids cfg. \<forall>b\<in>ids cfg. link_on cfg' a b \<longleftrightarrow> (a \<in> set p1 \<longleftrightarrow> b \<in> set p1))"
  using new_partition_spec[OF assms, of kv_rf] by (simp add: Leader_def make_partition_def)

text \<open>With an even number of servers one place of the second array is never written and names server 0.\<close>

lemma make_groups_overlap:
  assumes "even n" "4 \<le> n" "0 < l" "l < n"
  shows "\<exists>p1 p2. make_groups n l = Some (p1, p2) \<and> 0 \<in> set p1 \<and> 0 \<in> set p2"
proof -
  obtain p1 p2 where p: "make_groups n l = Some (p1, p2)" "length p1 = n div 2 + 1" "length p2 = n div 2"
    "p1 @ p2 = map int (filter (\<lambda>i. i \<noteq> l) [0..<n]) @ [0, int l]"
    using make_groups_spec[of n l] assms by auto
  have "[0..<n] = 0 # [1..<n]" using assms(2) by (simp add: upt_conv_Cons)
  then have "(p1 @ p2) ! 0 = 0" unfolding p(4) using assms(3) by simp
  moreover have "length (filter (\<lambda>i. i \<noteq> l) [0..<n]) = n - 1" using assms(4) by (rule filter_neq_upt)
  then have "(p1 @ p2) ! (n - 1) = 0" unfolding p(4) by (simp add: nth_append)
  moreover have "n - 1 - length p1 < length p2" "length p1 \<le> n - 1" "0 < length p1" using p(2,3) assms(1,2) by (auto elim!: evenE)
  ultimately have "p1 ! 0 = 0" "p2 ! (n - 1 - length p1) = 0" by (simp_all add: nth_append)
  with p(1) \<open>0 < length p1\<close> \<open>n - 1 - length p1 < length p2\<close> show ?thesis using nth_mem by metis
qed

theorem restart_keeps_state:
  fixes cfg :: "'c kvcfg"
  assumes "all_started cfg" "i < h_n cfg" "h_saved cfg ! i = Some p" "fresh_names names cfg"
  shows "\<exists>cfg1 old cfg2 kv. ShutdownServer cfg (int i) = Some (cfg1, old) \<and> (\<forall>s. old = Some s \<longrightarrow> killed (kv_rf s)) \<and>
    net_servers (h_net cfg1) (ServerName i) = None \<and> (\<forall>j\<in>ids cfg. \<not> link_on cfg1 (int i) j \<and> \<not> link_on cfg1 j (int i)) \<and>
    StartServer names sa cfg1 i = Some cfg2 \<and> h_servers cfg2 ! i = Some kv \<and> net_servers (h_net cfg2) (ServerName i) = Some sa \<and>
    rstate (kv_rf kv) = follower \<and>
    ReadRaftState (persister (kv_rf kv)) = ReadRaftState p \<and> ReadSnapshot (persister (kv_rf kv)) = ReadSnapshot p"
  unfolding ShutdownServer_def StartServer_def using assms by (rule kvr.restart)

lemma sm_restart_keeps_state:
  fixes cfg :: "'c smcfg"
  assumes "all_started cfg" "i < h_n cfg" "h_saved cfg ! i = Some p" "fresh_names names cfg"
  shows "\<exists>cfg1 old cfg2 sm. sm_ShutdownServer cfg (int i) = Some (cfg1, old) \<and> (\<forall>s. old = Some s \<longrightarrow> killed (sm_rf s)) \<and>
    net_servers (h_net cfg1) (ServerName i) = None \<and> (\<forall>j\<in>ids cfg. \<not> link_on cfg1 (int i) j \<and> \<not> link_on cfg1 j (int i)) \<and>
    sm_StartServer names sa cfg1 i = Some cfg2 \<and> h_servers cfg2 ! i = Some sm \<and> net_servers (h_net cfg2) (ServerName i) = Some sa \<and>
    rstate (sm_rf sm) = follower \<and>
    ReadRaftState (persister (sm_rf sm)) = ReadRaftState p \<and> ReadSnapshot (persister (sm_rf sm)) = ReadSnapshot p"
  unfolding sm_ShutdownServer_def sm_StartServer_def using assms by (rule smr.restart)

theorem clerk_reaches_servers:
  assumes "config_ok cfg" "fresh_names names cfg" "set to \<subseteq> ids cfg"
  shows "\<exists>cfg' handles. makeClient draw names ck cfg to = Some (cfg', handles) \<and> mset handles = mset names \<and>
    h_clerks cfg' ck = Some names \<and> (\<forall>j<h_n cfg. net_connections (h_net cfg') (EndName (names ! j)) = Some (ServerName j) \<and>
      (net_enabled (h_net cfg') (EndName (names ! j)) \<longleftrightarrow> int j \<in> set to)) \<and>
    (\<forall>a b. link_on cfg' a b = link_on cfg a b)"
proof -
  have f: "length names = h_n cfg" "distinct names" "\<forall>e\<in>set names. EndName e \<notin> net_ends (h_net cfg)"
    using assms(2) by (simp_all add: fresh_names_def)
  obtain net where net: "make_ends 0 names (h_net cfg) = Some net"
    "\<forall>e. e \<notin> EndName ` set names \<longrightarrow> net_enabled net e = net_enabled (h_net cfg) e"
    "\<forall>j<length names. net_connections net (EndName (names ! j)) = Some (ServerName j) \<and> \<not> net_enabled net (EndName (names ! j))"
    using make_ends_spec[OF f(2,3), of 0] by auto
  define c1 where "c1 = cfg\<lparr>h_net := net, h_clerks := (h_clerks cfg)(ck \<mapsto> names), h_nextClientId := h_nextClientId cfg + 1\<rparr>"
  have "those (map (at names) to) = Some (map (\<lambda>j. names ! nat j) to)"
    using assms(3) f(1) by (intro those_map) (auto simp: at_def)
  then have cc: "ConnectClientUnlocked c1 ck to = Some (c1\<lparr>h_net := enable_all True (map (\<lambda>j. names ! nat j) to) net\<rparr>)"
    by (simp add: ConnectClientUnlocked_def c1_def Let_def)
  define cfg' where "cfg' = c1\<lparr>h_net := enable_all True (map (\<lambda>j. names ! nat j) to) net\<rparr>"
  have run: "makeClient draw names ck cfg to = Some (cfg', random_handles draw names)"
    using net(1) cc by (simp add: makeClient_def Let_def c1_def[symmetric] cfg'_def)
  have mem: "names ! j \<in> (\<lambda>j. names ! nat j) ` set to \<longleftrightarrow> int j \<in> set to" if "j < h_n cfg" for j
  proof -
    have "names ! j = names ! nat k \<longleftrightarrow> k = int j" if "k \<in> set to" for k
      using nth_eq_iff_index_eq[OF f(2), of j "nat k"] assms(3) that \<open>j < h_n cfg\<close> f(1) by fastforce
    then show ?thesis by (auto simp: image_iff)
  qed
  have sub: "(\<lambda>j. names ! nat j) ` set to \<subseteq> set names" using assms(3) f(1) by (auto simp: nat_less_iff)
  have en: "end_of cfg' = end_of cfg" by (simp add: fun_eq_iff end_of_def cfg'_def c1_def)
  have "link_on cfg' a b = link_on cfg a b" for a b
  proof -
    have "net_enabled (h_net cfg') (EndName e) = net_enabled (h_net cfg) (EndName e)" if "end_of cfg a b = Some e" for e
    proof -
      have "e \<notin> set names" using config_okD(5)[OF assms(1) that] f(3) by blast
      then show ?thesis using net(2) sub by (auto simp: cfg'_def enable_all_enabled)
    qed
    then show ?thesis unfolding link_on_def en by auto
  qed
  then show ?thesis using run net(3) f(1) mem
    by (intro exI[of _ cfg'] exI[of _ "random_handles draw names"]) (simp add: random_handles_perm cfg'_def c1_def enable_all_enabled)
qed


section \<open>Examples\<close>

definition three_names :: "nat \<Rightarrow> string list" where
  "three_names i = (if i = 0 then [''a0'', ''a1'', ''a2''] else if i = 1 then [''b0'', ''b1'', ''b2''] else [''c0'', ''c1'', ''c2''])"

lemma three_names_fresh: "fresh_table 3 three_names"
  by (auto simp: fresh_table_def three_names_def)

theorem make_config_ready_witness:
  "\<exists>cfg :: nat kvcfg. make_config three_names id 0 3 True 1000 = Some cfg \<and> h_n cfg = 3 \<and>
    fully_up (\<lambda>i. StartKVServer 3 i MakePersister 1000) False cfg"
  using make_config_ready[OF three_names_fresh, of id 0 True 1000] by simp

theorem leader_in_minority_witness:
  "\<exists>(cfg :: nat kvcfg) p1 p2 cfg'. make_config three_names id 0 3 False 1000 = Some cfg \<and> make_partition cfg = Some (p1, p2) \<and>
    length p2 < length p1 \<and> set (p1 @ p2) = {0..<3} \<and> cfg_partition cfg p1 p2 = Some cfg'"
proof -
  obtain cfg :: "nat kvcfg" where cfg: "make_config three_names id 0 3 False 1000 = Some cfg" "h_n cfg = 3"
    "fully_up (\<lambda>i. StartKVServer 3 i MakePersister 1000) True cfg"
    using kv_build[OF three_names_fresh, of id 0 False 1000] by auto
  have "all_started cfg" "\<forall>i<h_n cfg. h_servers cfg ! i \<noteq> None" "odd (h_n cfg)" "3 \<le> h_n cfg"
    using cfg(2,3) by (simp_all add: fully_up_def)
  from leader_in_minority[OF this] cfg(1) show ?thesis unfolding cfg(2) by auto
qed

theorem harness_keeps_config_witness:
  "\<exists>cfg :: nat kvcfg. make_config three_names id 0 3 False 1000 = Some cfg \<and> config_ok cfg \<and>
    (\<forall>p1 p2 cfg'. cfg_partition cfg p1 p2 = Some cfg' \<longrightarrow> config_ok cfg')"
proof -
  obtain cfg :: "nat kvcfg" where cfg: "make_config three_names id 0 3 False 1000 = Some cfg"
    "fully_up (\<lambda>i. StartKVServer 3 i MakePersister 1000) True cfg"
    using kv_build[OF three_names_fresh, of id 0 False 1000] by auto
  then have ok: "config_ok cfg" by (simp add: fully_up_def all_started_def)
  from harness_keeps_config[OF ok] have "\<forall>p1 p2 cfg'. cfg_partition cfg p1 p2 = Some cfg' \<longrightarrow> config_ok cfg'" by simp
  with cfg(1) ok show ?thesis by auto
qed

definition one_server :: "nat kvcfg" where
  "one_server = \<lparr>h_net = MakeNetwork\<lparr>net_ends := {EndName ''a''}, net_connections := [EndName ''a'' \<mapsto> ServerName 0],
       net_servers := [ServerName 0 \<mapsto> 7]\<rparr>, h_n = 1,
     h_servers = [Some (StartKVServer 1 0 (SaveStateAndSnapshot MakePersister [5] [6]) 1000)],
     h_saved = [Some (SaveStateAndSnapshot MakePersister [5] [6])], h_endnames = [Some [''a'']], h_clerks = Map.empty,
     h_nextClientId = 1001, h_start = 0, kv_cfg_maxraftstate = 1000, kv_t0 = 0, kv_rpcs0 = 0, kv_ops = 0\<rparr>"

lemma one_server_started: "all_started one_server" "fresh_names [''b''] one_server"
proof -
  have "end_of one_server i j = (if i = 0 \<and> j = 0 then Some ''a'' else None)" for i j
    by (auto simp: end_of_def one_server_def at_def)
  then show "all_started one_server"
    by (auto simp: all_started_def config_ok_def one_server_def at_def split: if_splits)
  show "fresh_names [''b''] one_server" by (simp add: fresh_names_def one_server_def)
qed

theorem restart_keeps_state_witness:
  "\<exists>cfg1 old cfg2 kv. ShutdownServer one_server 0 = Some (cfg1, old) \<and> StartServer [''b''] 8 cfg1 0 = Some cfg2 \<and>
    h_servers cfg2 ! 0 = Some kv \<and> ReadRaftState (persister (kv_rf kv)) = [5] \<and> ReadSnapshot (persister (kv_rf kv)) = [6]"
proof -
  have p: "0 < h_n one_server" "h_saved one_server ! 0 = Some (SaveStateAndSnapshot MakePersister [5] [6])"
    by (simp_all add: one_server_def)
  from restart_keeps_state[OF one_server_started(1) p one_server_started(2), of 8] show ?thesis
    by (auto simp: persister_defs)
qed

theorem clerk_reaches_servers_witness:
  "\<exists>cfg' handles. makeClient (\<lambda>_. 0) [''b''] 5 one_server [0] = Some (cfg', handles) \<and> mset handles = {#''b''#} \<and>
    net_enabled (h_net cfg') (EndName ''b'')"
proof -
  have "config_ok one_server" "set [0] \<subseteq> ids one_server" using one_server_started(1) by (simp_all add: all_started_def one_server_def)
  moreover have "h_n one_server = 1" by (simp add: one_server_def)
  ultimately show ?thesis
    using clerk_reaches_servers[OF _ one_server_started(2), of "[0]" "\<lambda>_. 0" 5] by auto
qed

end
