(* ===== verification/Raft_Harness.thy ===== *)
theory Raft_Harness
  imports Kv_Harness
begin

text \<open>
  The rest of \<^verbatim>\<open>raft/config.go\<close>: \<^verbatim>\<open>make_config\<close>, which builds the network and the peers, the statistics of a
  test, and \<^verbatim>\<open>one\<close>, which submits a command and waits for agreement.  The random end names, the
  addresses of the servers and the times are arguments; times are in seconds.  What \<^verbatim>\<open>make_config\<close> builds is
  the initial state of the system of \<^verbatim>\<open>Raft_Net\<close> on a fully connected network.
\<close>

section \<open>Building and ending a test\<close>

definition rc_setunreliable :: "'c rconfig \<Rightarrow> bool \<Rightarrow> 'c rconfig" where
  "rc_setunreliable cfg unrel = cfg\<lparr>cfg_net := Reliable (cfg_net cfg) (\<not> unrel)\<rparr>"

definition rc_setlongreordering :: "'c rconfig \<Rightarrow> bool \<Rightarrow> 'c rconfig" where
  "rc_setlongreordering cfg longrel = cfg\<lparr>cfg_net := LongReordering (cfg_net cfg) longrel\<rparr>"

fun start_rafts :: "(nat \<Rightarrow> string list) \<Rightarrow> (nat \<Rightarrow> saddr) \<Rightarrow> nat list \<Rightarrow> 'c rconfig \<Rightarrow> 'c rconfig option" where
  "start_rafts names sa [] cfg = Some cfg"
| "start_rafts names sa (i # is) cfg = do {
     logs \<leftarrow> upd_at (cfg_logs cfg) (int i) Map.empty;
     cfg \<leftarrow> start1 (cfg\<lparr>cfg_logs := logs\<rparr>) i (names i) (sa i);
     start_rafts names sa is cfg }"

fun connect_rafts :: "nat list \<Rightarrow> 'c rconfig \<Rightarrow> 'c rconfig option" where
  "connect_rafts [] cfg = Some cfg"
| "connect_rafts (i # is) cfg = do { cfg \<leftarrow> connect cfg i; connect_rafts is cfg }"

definition rc_make_config :: "(nat \<Rightarrow> string list) \<Rightarrow> (nat \<Rightarrow> saddr) \<Rightarrow> int \<Rightarrow> nat \<Rightarrow> bool \<Rightarrow> 'c rconfig option" where
  "rc_make_config names sa now n unreliable = do {
     let cfg = \<lparr>cfg_n = n, cfg_net = MakeNetwork, cfg_rafts = replicate n None, cfg_applyErr = replicate n [],
       cfg_connected = replicate n False, cfg_saved = replicate n None, cfg_endnames = replicate n None,
       cfg_logs = replicate n Map.empty, cfg_maxIndex = 0, cfg_start = now, cfg_t0 = 0, cfg_rpcs0 = 0, cfg_cmds0 = 0,
       cfg_bytes0 = 0, cfg_maxIndex0 = 0\<rparr>;
     let cfg = rc_setunreliable cfg unreliable;
     let cfg = cfg\<lparr>cfg_net := LongDelays (cfg_net cfg) True\<rparr>;
     cfg \<leftarrow> start_rafts names sa [0..<n] cfg;
     connect_rafts [0..<n] cfg }"

definition rc_checkTimeout :: "bool \<Rightarrow> int \<Rightarrow> 'c rconfig \<Rightarrow> 'c rconfig outcome" where
  "rc_checkTimeout failed now cfg =
    (if \<not> failed \<and> now - cfg_start cfg > 120 then Fatal ''test took longer than 120 seconds'' else Pass cfg)"

definition rc_cleanup :: "bool \<Rightarrow> int \<Rightarrow> 'c rconfig \<Rightarrow> 'c rconfig outcome option" where
  "rc_cleanup failed now cfg = do {
     let cfg = cfg\<lparr>cfg_rafts := map (map_option Kill) (cfg_rafts cfg)\<rparr>;
     net \<leftarrow> Cleanup (cfg_net cfg);
     Some (rc_checkTimeout failed now (cfg\<lparr>cfg_net := net\<rparr>)) }"

section \<open>Statistics\<close>

definition rc_rpcCount :: "'c rconfig \<Rightarrow> (saddr \<Rightarrow> 'o server) \<Rightarrow> nat \<Rightarrow> int option" where
  "rc_rpcCount cfg store server = GetCount (cfg_net cfg) store (ServerName server)"

definition rc_rpcTotal :: "'c rconfig \<Rightarrow> int" where
  "rc_rpcTotal cfg = GetTotalCount (cfg_net cfg)"

definition rc_bytesTotal :: "'c rconfig \<Rightarrow> int" where
  "rc_bytesTotal cfg = GetTotalBytes (cfg_net cfg)"

definition rc_begin :: "int \<Rightarrow> 'c rconfig \<Rightarrow> 'c rconfig" where
  "rc_begin now cfg = cfg\<lparr>cfg_t0 := now, cfg_rpcs0 := rc_rpcTotal cfg, cfg_bytes0 := rc_bytesTotal cfg, cfg_cmds0 := 0,
     cfg_maxIndex0 := cfg_maxIndex cfg\<rparr>"

text \<open>What \<^verbatim>\<open>end\<close> prints: the time, the peers, and the RPCs, bytes and agreements since \<^verbatim>\<open>begin\<close>.\<close>

definition rc_end :: "bool \<Rightarrow> int \<Rightarrow> 'c rconfig \<Rightarrow> (int \<times> nat \<times> int \<times> int \<times> int) option outcome" where
  "rc_end failed now cfg =
    (case rc_checkTimeout failed now cfg of
       Fatal e \<Rightarrow> Fatal e
     | Pass _ \<Rightarrow> Pass (if \<not> failed then Some (now - cfg_t0 cfg, cfg_n cfg, rc_rpcTotal cfg - cfg_rpcs0 cfg,
         rc_bytesTotal cfg - cfg_bytes0 cfg, cfg_maxIndex cfg - cfg_maxIndex0 cfg) else None))"

section \<open>Agreement on one command\<close>

text \<open>
  The inner loop of \<^verbatim>\<open>one\<close> looks at the logs for two seconds; \<open>looks\<close> are the states it sees.  The outer loop
  runs for ten seconds; a round is the state in which it offers the command, with the looks that follow.
\<close>

fun one_wait :: "'c rconfig list \<Rightarrow> int \<Rightarrow> 'c \<Rightarrow> int \<Rightarrow> bool outcome option" where
  "one_wait [] index cmd expectedServers = Some (Pass False)"
| "one_wait (cfg # looks) index cmd expectedServers = do {
     r \<leftarrow> nCommitted cfg index;
     case r of
       Fatal e \<Rightarrow> Some (Fatal e)
     | Pass (nd, cmd1) \<Rightarrow>
         if nd > 0 \<and> int nd \<ge> expectedServers \<and> cmd1 = Some cmd then Some (Pass True)
         else one_wait looks index cmd expectedServers }"

fun one_rounds :: "('c rconfig \<times> 'c rconfig list) list \<Rightarrow> nat \<Rightarrow> 'c \<Rightarrow> int \<Rightarrow> bool \<Rightarrow> int outcome option" where
  "one_rounds [] cur cmd expectedServers again = Some (Fatal ''failed to reach agreement'')"
| "one_rounds ((cfg, looks) # rnds) cur cmd expectedServers again = do {
     (_, cur, index) \<leftarrow> one_scan (cfg_n cfg) cfg cmd cur;
     if index \<noteq> -1 then do {
       w \<leftarrow> one_wait looks index cmd expectedServers;
       case w of
         Fatal e \<Rightarrow> Some (Fatal e)
       | Pass True \<Rightarrow> Some (Pass index)
       | Pass False \<Rightarrow>
           if \<not> again then Some (Fatal ''failed to reach agreement'')
           else one_rounds rnds cur cmd expectedServers again }
     else one_rounds rnds cur cmd expectedServers again }"

definition one_op :: "('c rconfig \<times> 'c rconfig list) list \<Rightarrow> 'c \<Rightarrow> int \<Rightarrow> bool \<Rightarrow> int outcome option" where
  "one_op rnds cmd expectedServers again = one_rounds rnds 0 cmd expectedServers again"

section \<open>What \<^verbatim>\<open>make_config\<close> builds\<close>

text \<open>The configuration after the first \<open>k\<close> peers have been started and the first \<open>m\<close> have been connected.\<close>

definition rc_up :: "(nat \<Rightarrow> string list) \<Rightarrow> (nat \<Rightarrow> saddr) \<Rightarrow> bool \<Rightarrow> nat \<Rightarrow> nat \<Rightarrow> nat \<Rightarrow> 'c rconfig \<Rightarrow> bool" where
  "rc_up names sa rel n k m cfg \<longleftrightarrow> cfg_n cfg = n \<and> cfg_connected cfg = map (\<lambda>i. i < m) [0..<n] \<and>
     cfg_endnames cfg = map (\<lambda>i. if i < k then Some (names i) else None) [0..<n] \<and>
     cfg_saved cfg = map (\<lambda>i. if i < k then Some MakePersister else None) [0..<n] \<and>
     cfg_rafts cfg = map (\<lambda>i. if i < k then Some (Make n i MakePersister) else None) [0..<n] \<and>
     cfg_logs cfg = replicate n Map.empty \<and> cfg_applyErr cfg = replicate n [] \<and>
     net_reliable (cfg_net cfg) = rel \<and> net_ends (cfg_net cfg) = (\<Union>i<k. EndName ` set (names i)) \<and>
     (\<forall>i<k. net_servers (cfg_net cfg) (ServerName i) = Some (sa i) \<and>
        (\<forall>j<n. net_connections (cfg_net cfg) (EndName (names i ! j)) = Some (ServerName j))) \<and>
     (\<forall>i<m. \<forall>j<m. net_enabled (cfg_net cfg) (EndName (names i ! j)))"

lemma rc_up_endname:
  assumes "rc_up names sa rel n k m cfg" "i < k" "k \<le> n" "j < length (names i)"
  shows "endname cfg i j = Some (names i ! j)"
  using assms by (simp add: rc_up_def endname_def at_def)

lemma map_update_upt: "k < n \<Longrightarrow> (map f [0..<n])[k := v] = map (f(k := v)) [0..<n]"
  by (rule nth_equalityI) (auto simp: nth_list_update)

lemma disconnect_fresh:
  assumes up: "rc_up names sa rel n k 0 cfg" and f: "fresh_table n names" and k: "k < n"
  shows "disconnect cfg k = Some (cfg\<lparr>cfg_net := enable_all False (map (\<lambda>j. names j ! k) [0..<k]) (cfg_net cfg)\<rparr>)"
proof -
  have js: "filter (\<lambda>j. cfg_endnames cfg ! j \<noteq> None) [0..<cfg_n cfg] = [0..<k]"
  proof -
    have "filter (\<lambda>j. cfg_endnames cfg ! j \<noteq> None) [0..<cfg_n cfg] = filter (\<lambda>j. j < k) [0..<n]"
      using up by (intro filter_cong) (auto simp: rc_up_def)
    also have "[0..<n] = [0..<k] @ [k..<n]" using k by (metis less_imp_le upt_add_eq_append zero_le le_add_diff_inverse)
    finally show ?thesis by simp
  qed
  have "those (map (\<lambda>j. endname cfg j k) [0..<k]) = Some (map (\<lambda>j. names j ! k) [0..<k])"
    using f k by (intro those_map) (auto intro!: rc_up_endname[OF up] simp: fresh_table_def)
  moreover have "upd_at (cfg_connected cfg) (int k) False = Some (cfg_connected cfg)" "at (cfg_endnames cfg) (int k) = Some None"
    using up k by (auto simp: rc_up_def map_update_upt upd_at_def at_def)
  ultimately have "disconnect cfg k = Some (cfg\<lparr>cfg_connected := cfg_connected cfg,
      cfg_net := enable_all False (map (\<lambda>j. names j ! k) [0..<k]) (cfg_net cfg)\<rparr>)"
    by (simp only: disconnect_def js Let_def) (simp add: enable_all_def)
  then show ?thesis by (cases cfg) simp
qed

lemma start1_up:
  assumes up: "rc_up names sa rel n k 0 cfg" and f: "fresh_table n names" and k: "k < n"
  shows "\<exists>cfg'. start1 cfg k (names k) (sa k) = Some cfg' \<and> rc_up names sa rel n (Suc k) 0 cfg'"
proof -
  define net where "net = DeleteServer (enable_all False (map (\<lambda>j. names j ! k) [0..<k]) (cfg_net cfg)) (ServerName k)"
  have net: "net_ends net = net_ends (cfg_net cfg)" "net_connections net = net_connections (cfg_net cfg)" "net_reliable net = net_reliable (cfg_net cfg)"
    "net_servers net = (net_servers (cfg_net cfg))(ServerName k := None)" by (simp_all add: net_def DeleteServer_def)
  have u: "cfg_n cfg = n" "net_ends (cfg_net cfg) = (\<Union>i<k. EndName ` set (names i))" using up by (simp_all add: rc_up_def)
  have new: "\<forall>e\<in>set (names k). EndName e \<notin> net_ends net"
    using f k unfolding net(1) u(2) fresh_table_def by (auto simp: disjoint_iff)
  have d: "distinct (names k)" "length (names k) = n" using f k by (simp_all add: fresh_table_def)
  obtain net' where n': "make_ends 0 (names k) net = Some net'" "net_ends net' = net_ends net \<union> EndName ` set (names k)"
    "net_servers net' = net_servers net" "net_reliable net' = net_reliable net"
    "\<forall>e. e \<notin> EndName ` set (names k) \<longrightarrow> net_connections net' e = net_connections net e"
    "\<forall>j<length (names k). net_connections net' (EndName (names k ! j)) = Some (ServerName (0 + j))"
    using make_ends_spec[OF d(1) new, of 0] by blast
  define cfg' where "cfg' = cfg\<lparr>cfg_endnames := (cfg_endnames cfg)[k := Some (names k)], cfg_saved := (cfg_saved cfg)[k := Some MakePersister],
      cfg_rafts := (cfg_rafts cfg)[k := Some (Make n k MakePersister)], cfg_net := AddServer net' (ServerName k) (sa k)\<rparr>"
  have "start1 cfg k (names k) (sa k) = Some cfg'"
    using up k n'(1) unfolding net_def
    by (simp add: start1_def crash1_def disconnect_fresh[OF up f k] at_def rc_up_def Let_def cfg'_def)
  moreover have "EndName (names i ! j) \<notin> EndName ` set (names k)" if "i < k" "j < n" for i j
    using f that k unfolding fresh_table_def by (auto simp: disjoint_iff) (metis less_trans nth_mem less_irrefl)
  then have "rc_up names sa rel n (Suc k) 0 cfg'" unfolding rc_up_def
    using up k n' net d(2)
    by (auto simp: cfg'_def rc_up_def map_update_upt AddServer_def less_Suc_eq lessThan_Suc)
  ultimately show ?thesis by blast
qed

lemma start_rafts_up:
  assumes f: "fresh_table n names"
  shows "rc_up names sa rel n k 0 cfg \<Longrightarrow> k \<le> n \<Longrightarrow> \<exists>cfg'. start_rafts names sa [k..<n] cfg = Some cfg' \<and> rc_up names sa rel n n 0 cfg'"
proof (induction "n - k" arbitrary: k cfg)
  case (Suc d)
  then have k: "k < n" by simp
  have "upd_at (cfg_logs cfg) (int k) Map.empty = Some (cfg_logs cfg)"
    using Suc.prems(1) k by (simp add: rc_up_def upd_at_def list_update_same_conv)
  moreover obtain cfg' where "start1 cfg k (names k) (sa k) = Some cfg'" "rc_up names sa rel n (Suc k) 0 cfg'"
    using start1_up[OF Suc.prems(1) f k] by blast
  ultimately show ?case using Suc.hyps(1)[of "Suc k" cfg'] Suc.hyps(2) k by (simp add: upt_conv_Cons)
qed simp

lemma connect_up:
  assumes up: "rc_up names sa rel n n m cfg" and f: "fresh_table n names" and m: "m < n"
  shows "\<exists>cfg'. connect cfg m = Some cfg' \<and> rc_up names sa rel n n (Suc m) cfg'"
proof -
  have len: "length (names i) = n" if "i < n" for i using f that by (simp add: fresh_table_def)
  have n: "cfg_n cfg = n" using up by (simp add: rc_up_def)
  have c: "upd_at (cfg_connected cfg) (int m) True = Some (map (\<lambda>i. i < Suc m) [0..<n])"
    using up m by (auto simp: rc_up_def upd_at_def map_update_upt)
  have "[0..<n] = [0..<Suc m] @ [Suc m..<n]" using m by (metis Suc_leI upt_add_eq_append zero_le le_add_diff_inverse)
  then have js: "filter (\<lambda>j. map (\<lambda>i. i < Suc m) [0..<n] ! j) [0..<n] = [0..<Suc m]"
    by (subst filter_cong[where Q = "\<lambda>j. j < Suc m", OF refl]) (auto simp: nth_append simp del: upt_Suc)
  have e: "endname cfg i j = Some (names i ! j)" if "i < n" "j < n" for i j
    using rc_up_endname[OF up that(1)] len that by simp
  have o: "those (map (\<lambda>j. endname cfg m j) [0..<Suc m]) = Some (map (\<lambda>j. names m ! j) [0..<Suc m])"
    "those (map (\<lambda>j. endname cfg j m) [0..<Suc m]) = Some (map (\<lambda>j. names j ! m) [0..<Suc m])"
    using m e by (auto intro!: those_map simp del: upt_Suc)
  define cfg' where "cfg' = cfg\<lparr>cfg_connected := map (\<lambda>i. i < Suc m) [0..<n], cfg_net := enable_all True (map (\<lambda>j. names j ! m) [0..<Suc m])
      (enable_all True (map (\<lambda>j. names m ! j) [0..<Suc m]) (cfg_net cfg))\<rparr>"
  have "connect cfg m = Some cfg'"
    unfolding connect_def c js n cfg'_def Let_def Option.bind.bind_lunit o by simp
  moreover have "rc_up names sa rel n n (Suc m) cfg'" unfolding rc_up_def
    using up by (auto simp: cfg'_def rc_up_def enable_all_enabled less_Suc_eq simp del: upt_Suc)
  ultimately show ?thesis by blast
qed

lemma connect_rafts_up:
  assumes f: "fresh_table n names"
  shows "rc_up names sa rel n n m cfg \<Longrightarrow> m \<le> n \<Longrightarrow> \<exists>cfg'. connect_rafts [m..<n] cfg = Some cfg' \<and> rc_up names sa rel n n n cfg'"
proof (induction "n - m" arbitrary: m cfg)
  case (Suc d)
  then have m: "m < n" by simp
  obtain cfg' where "connect cfg m = Some cfg'" "rc_up names sa rel n n (Suc m) cfg'"
    using connect_up[OF Suc.prems(1) f m] by blast
  then show ?case using Suc.hyps(1)[of "Suc m" cfg'] Suc.hyps(2) m by (simp add: upt_conv_Cons)
qed simp

lemma terms_loop_same:
  assumes "\<forall>i\<in>set is. i < length (cfg_connected cfg) \<and> cfg_connected cfg ! i \<and> i < length (cfg_rafts cfg) \<and>
      (\<exists>rf. cfg_rafts cfg ! i = Some rf \<and> fst (GetState rf) = t)" and "t \<noteq> -1" "term = -1 \<or> term = t"
  shows "terms_loop cfg is term = Some (Pass (if is = [] then term else t))"
  using assms(1,3) by (induction "is" arbitrary: "term") (use assms(2) in \<open>auto simp: at_def\<close>)

lemma raft_config_built:
  assumes f: "fresh_table n names"
  shows "\<exists>cfg :: 'c rconfig. rc_make_config names sa now n unreliable = Some cfg \<and> rc_up names sa (\<not> unreliable) n n n cfg \<and> sees n (start_sys n) cfg"
proof -
  let ?cfg = "\<lparr>cfg_n = n, cfg_net = LongDelays (Reliable MakeNetwork (\<not> unreliable)) True, cfg_rafts = replicate n None, cfg_applyErr = replicate n [],
       cfg_connected = replicate n False, cfg_saved = replicate n None, cfg_endnames = replicate n None,
       cfg_logs = replicate n Map.empty, cfg_maxIndex = 0, cfg_start = now, cfg_t0 = 0, cfg_rpcs0 = 0, cfg_cmds0 = 0,
       cfg_bytes0 = 0, cfg_maxIndex0 = 0\<rparr> :: 'c rconfig"
  have "rc_up names sa (\<not> unreliable) n 0 0 ?cfg"
    by (simp add: rc_up_def map_replicate_const MakeNetwork_def LongDelays_def Reliable_def)
  from start_rafts_up[OF f this] obtain c1 where c1: "start_rafts names sa [0..<n] ?cfg = Some c1" "rc_up names sa (\<not> unreliable) n n 0 c1" by auto
  from connect_rafts_up[OF f c1(2)] obtain cfg where c: "connect_rafts [0..<n] c1 = Some cfg" "rc_up names sa (\<not> unreliable) n n n cfg" by auto
  have "rc_make_config names sa now n unreliable = Some cfg"
    using c1(1) c(1) by (simp add: rc_make_config_def rc_setunreliable_def Let_def)
  moreover have "sees n (start_sys n) cfg" using c(2) by (auto simp: rc_up_def sees_def start_sys_def)
  ultimately show ?thesis using c(2) by blast
qed

lemma raft_config_ready:
  assumes f: "fresh_table n names"
  shows "\<exists>cfg :: 'c rconfig. rc_make_config names sa now n unreliable = Some cfg \<and> sees n (start_sys n) cfg \<and>
    (\<forall>i<n. cfg_connected cfg ! i \<and> net_servers (cfg_net cfg) (ServerName i) = Some (sa i) \<and> (cfg_logs cfg ! i) = Map.empty) \<and>
    (\<forall>i<n. \<forall>j<n. \<exists>e. endname cfg i j = Some e \<and> net_connections (cfg_net cfg) (EndName e) = Some (ServerName j) \<and>
       net_enabled (cfg_net cfg) (EndName e)) \<and>
    net_reliable (cfg_net cfg) = (\<not> unreliable) \<and>
    (checkNoLeader cfg = Some (Pass ()) \<and> (0 < n \<longrightarrow> checkTerms cfg = Some (Pass 0)))"
proof -
  obtain cfg :: "'c rconfig" where mk: "rc_make_config names sa now n unreliable = Some cfg" and c: "rc_up names sa (\<not> unreliable) n n n cfg"
    and s: "sees n (start_sys n) cfg" using raft_config_built[OF f] by blast
  have no: "filter (leading (start_sys n) cfg) [0..<n] = []"
    by (simp add: leading_def start_sys_def Make_def readPersist_def)
  have "checkNoLeader cfg = Some (Pass ())"
    using scan_leaders_sees[OF s, of "[0..<n]"] no s by (simp add: checkNoLeader_def sees_def atLeast0LessThan)
  moreover have "checkTerms cfg = Some (Pass 0)" if "0 < n"
    unfolding checkTerms_def using c that
    by (subst terms_loop_same[where t = 0]) (auto simp: rc_up_def GetState_def Make_def readPersist_def)
  moreover have "endname cfg i j = Some (names i ! j)" if "i < n" "j < n" for i j
    using rc_up_endname[OF c, of i j] that f by (simp add: fresh_table_def)
  moreover have "\<forall>i<n. cfg_connected cfg ! i \<and> net_servers (cfg_net cfg) (ServerName i) = Some (sa i) \<and> cfg_logs cfg ! i = Map.empty"
    "\<forall>i<n. \<forall>j<n. net_connections (cfg_net cfg) (EndName (names i ! j)) = Some (ServerName j) \<and> net_enabled (cfg_net cfg) (EndName (names i ! j))"
    "net_reliable (cfg_net cfg) = (\<not> unreliable)"
    using c by (auto simp: rc_up_def)
  ultimately show ?thesis using mk s by (intro exI[of _ cfg]) simp
qed

section \<open>What \<^verbatim>\<open>one\<close> reports\<close>

lemma Start_follower: "rstate rf \<noteq> leader \<Longrightarrow> Start rf cmd = (rf, 0, currentTerm rf, False)"
  by (simp add: Start_def GetState_def)

lemma Start_leader: "rstate rf = leader \<Longrightarrow> \<exists>rf'. Start rf cmd = (rf', int (length (rlog rf)), currentTerm rf, True)"
  by (simp add: Start_def GetState_def Start_append_def)

definition leads_at :: "'c rconfig \<Rightarrow> nat \<Rightarrow> 'c raft \<Rightarrow> bool" where
  "leads_at cfg i rf \<longleftrightarrow> i < cfg_n cfg \<and> cfg_connected cfg ! i \<and> cfg_rafts cfg ! i = Some rf \<and> rstate rf = leader"

definition scan_ok :: "'c rconfig \<Rightarrow> bool" where
  "scan_ok cfg \<longleftrightarrow> 0 < cfg_n cfg \<and> length (cfg_connected cfg) = cfg_n cfg \<and> length (cfg_rafts cfg) = cfg_n cfg"

definition look_ok :: "'c rconfig \<Rightarrow> bool" where
  "look_ok cfg \<longleftrightarrow> length (cfg_logs cfg) = length (cfg_rafts cfg) \<and> cfg_applyErr cfg = replicate (length (cfg_rafts cfg)) []"

text \<open>One step of the scan.\<close>

lemma one_scan_Suc:
  assumes "scan_ok cfg" and i: "i = (cur + 1) mod cfg_n cfg"
  shows "one_scan (Suc k) cfg cmd cur =
    (case (if cfg_connected cfg ! i then cfg_rafts cfg ! i else None) of
       Some rf \<Rightarrow> if rstate rf = leader then Some (cfg\<lparr>cfg_rafts := (cfg_rafts cfg)[i := Some (fst (Start rf cmd))]\<rparr>, i, int (length (rlog rf)))
                  else one_scan k cfg cmd i
     | None \<Rightarrow> one_scan k cfg cmd i)"
proof -
  have l: "i < cfg_n cfg" "cfg_n cfg = length (cfg_connected cfg)" "cfg_n cfg = length (cfg_rafts cfg)"
    using assms by (simp_all add: scan_ok_def)
  have "cfg\<lparr>cfg_rafts := (cfg_rafts cfg)[i := Some rf]\<rparr> = cfg" if "cfg_rafts cfg ! i = Some rf" for rf
    using that by (cases cfg) (metis list_update_id rconfig.update_convs(3) rconfig.simps(3))
  moreover have "one_scan (Suc k) cfg cmd cur = (do {
      rf \<leftarrow> (if cfg_connected cfg ! i then Some (cfg_rafts cfg ! i) else Some None);
      case rf of None \<Rightarrow> one_scan k cfg cmd i
      | Some rf \<Rightarrow> let (rf, index, term, ok) = Start rf cmd; cfg = cfg\<lparr>cfg_rafts := (cfg_rafts cfg)[i := Some rf]\<rparr>
                   in if ok then Some (cfg, i, index) else one_scan k cfg cmd i })"
    using l unfolding one_scan.simps Let_def i[symmetric] by (simp add: at_def)
  ultimately show ?thesis
    by (simp add: Start_follower Let_def Start_def GetState_def Start_append_def split: option.split)
qed

lemma one_scan_total: "scan_ok cfg \<Longrightarrow> \<exists>r. one_scan k cfg cmd cur = Some r"
proof (induction k arbitrary: cur)
  case (Suc k)
  then show ?case unfolding one_scan_Suc[OF Suc.prems refl] by (auto split: option.split)
qed simp

lemma one_scan_claims:
  assumes "scan_ok cfg" "one_scan k cfg cmd cur = Some (cfg', cur', index)" "index \<noteq> -1"
  shows "\<exists>i rf. leads_at cfg i rf \<and> index = int (length (rlog rf))"
  using assms(2)
proof (induction k arbitrary: cur)
  case (Suc k)
  let ?i = "(cur + 1) mod cfg_n cfg"
  have i: "?i < cfg_n cfg" using assms(1) by (simp add: scan_ok_def)
  show ?case
    using Suc.prems Suc.IH[of ?i] i unfolding one_scan_Suc[OF assms(1) refl]
    by (auto simp: leads_at_def split: option.splits if_splits)
qed (use assms(3) in simp)

lemma one_scan_finds:
  assumes ok: "scan_ok cfg" and l: "leads_at cfg i rf" and u: "\<And>j rf'. leads_at cfg j rf' \<Longrightarrow> j = i"
  shows "0 < t \<Longrightarrow> t \<le> k \<Longrightarrow> (cur + t) mod cfg_n cfg = i \<Longrightarrow> \<exists>cfg'. one_scan k cfg cmd cur = Some (cfg', i, int (length (rlog rf)))"
proof (induction k arbitrary: cur t)
  case (Suc k)
  let ?i = "(cur + 1) mod cfg_n cfg"
  have lt: "?i < cfg_n cfg" using ok by (simp add: scan_ok_def)
  show ?case
  proof (cases "?i = i")
    case True
    then show ?thesis using l unfolding one_scan_Suc[OF ok refl] by (simp add: leads_at_def)
  next
    case False
    then have "one_scan (Suc k) cfg cmd cur = one_scan k cfg cmd ?i"
      using u[of ?i] lt unfolding one_scan_Suc[OF ok refl] by (auto simp: leads_at_def split: option.split)
    moreover have "t \<noteq> 1" using False Suc.prems(3) by auto
    moreover have "(?i + (t - 1)) mod cfg_n cfg = i" unfolding mod_add_left_eq using Suc.prems(1,3) by simp
    ultimately show ?thesis using Suc.IH[of "t - 1" ?i] Suc.prems(1,2) by simp
  qed
qed simp

text \<open>\<open>cmd\<close> is committed at \<open>index\<close> by at least \<open>expected\<close> peers, and no peer has another command there.\<close>

definition agreed :: "int \<Rightarrow> 'c \<Rightarrow> int \<Rightarrow> 'c rconfig \<Rightarrow> bool" where
  "agreed index cmd expected cfg \<longleftrightarrow> 0 < length (filter (\<lambda>lg. lg index = Some (Some cmd)) (cfg_logs cfg)) \<and>
     expected \<le> int (length (filter (\<lambda>lg. lg index = Some (Some cmd)) (cfg_logs cfg))) \<and>
     (\<forall>lg\<in>set (cfg_logs cfg). \<forall>v. lg index = Some v \<longrightarrow> v = Some cmd)"

definition consistent :: "int \<Rightarrow> 'c rconfig \<Rightarrow> bool" where
  "consistent index cfg \<longleftrightarrow> (\<forall>lg\<in>set (cfg_logs cfg). \<forall>lg'\<in>set (cfg_logs cfg). \<forall>v w. lg index = Some v \<longrightarrow> lg' index = Some w \<longrightarrow> v = w)"

lemma nCommitted_look:
  assumes "look_ok cfg"
  shows "\<exists>r. nCommitted cfg index = Some r \<and> (consistent index cfg \<longrightarrow> (\<exists>nd c. r = Pass (nd, c))) \<and>
    (\<forall>nd c. r = Pass (nd, c) \<longrightarrow> (0 < nd \<and> e \<le> int nd \<and> c = Some cmd \<longleftrightarrow> agreed index cmd e cfg))"
proof -
  have look: "length (cfg_logs cfg) = length (cfg_rafts cfg)" "length (cfg_applyErr cfg) = length (cfg_rafts cfg)" "\<forall>e\<in>set (cfg_applyErr cfg). e = []"
    using assms by (simp_all add: look_ok_def)
  obtain r where r: "nCommitted cfg index = Some r"
    "\<forall>nd c. r = Pass (nd, c) \<longrightarrow> nd = length (filter (\<lambda>lg. lg index \<noteq> None) (cfg_logs cfg)) \<and> (\<forall>lg\<in>set (cfg_logs cfg). \<forall>v. lg index = Some v \<longrightarrow> v = c)"
    "\<forall>e. r = Fatal e \<longrightarrow> (\<exists>lg\<in>set (cfg_logs cfg). \<exists>lg'\<in>set (cfg_logs cfg). \<exists>v w. lg index = Some v \<and> lg' index = Some w \<and> v \<noteq> w)"
    using committed_count[OF look(1-3), of index] by blast
  have "0 < nd \<and> e \<le> int nd \<and> c = Some cmd \<longleftrightarrow> agreed index cmd e cfg" if "r = Pass (nd, c)" for nd c
  proof -
    have nd: "nd = length (filter (\<lambda>lg. lg index \<noteq> None) (cfg_logs cfg))" "\<forall>lg\<in>set (cfg_logs cfg). \<forall>v. lg index = Some v \<longrightarrow> v = c"
      using r(2) that by blast+
    then have "filter (\<lambda>lg. lg index = Some (Some cmd)) (cfg_logs cfg) = (if c = Some cmd then filter (\<lambda>lg. lg index \<noteq> None) (cfg_logs cfg) else [])"
      by (auto intro!: filter_cong simp: filter_empty_conv)
    with nd show ?thesis by (auto simp: agreed_def)
  qed
  moreover have "\<exists>nd c. r = Pass (nd, c)" if "consistent index cfg"
    using that r(3) unfolding consistent_def by (metis outcome.exhaust surj_pair)
  ultimately show ?thesis using r(1) by blast
qed

lemma one_wait_spec:
  assumes "\<forall>look\<in>set looks. look_ok look"
  shows "\<exists>r. one_wait looks index cmd e = Some r \<and> (r = Pass True \<longrightarrow> (\<exists>look\<in>set looks. agreed index cmd e look)) \<and>
    ((\<exists>look\<in>set looks. agreed index cmd e look) \<and> (\<forall>look\<in>set looks. consistent index look) \<longrightarrow> r = Pass True)"
  using assms
proof (induction looks)
  case (Cons look looks)
  from nCommitted_look[of look index e cmd] Cons.prems obtain r where r: "nCommitted look index = Some r"
    "consistent index look \<longrightarrow> (\<exists>nd c. r = Pass (nd, c))" "\<forall>nd c. r = Pass (nd, c) \<longrightarrow> (0 < nd \<and> e \<le> int nd \<and> c = Some cmd \<longleftrightarrow> agreed index cmd e look)"
    by auto
  show ?case
  proof (cases r)
    case (Pass p)
    obtain nd c where p: "p = (nd, c)" by (cases p)
    have "one_wait (look # looks) index cmd e = (if agreed index cmd e look then Some (Pass True) else one_wait looks index cmd e)"
      using r(1,3) unfolding Pass p by auto
    then show ?thesis using Cons.IH Cons.prems by auto
  qed (use r in auto)
qed simp

lemma one_rounds_spec:
  assumes "\<forall>(cfg, looks)\<in>set rnds. scan_ok cfg \<and> (\<forall>look\<in>set looks. look_ok look)"
  shows "\<exists>r. one_rounds rnds cur cmd e again = Some r \<and> (\<forall>index. r = Pass index \<longrightarrow>
    (\<exists>(cfg, looks)\<in>set rnds. (\<exists>i rf. leads_at cfg i rf \<and> index = int (length (rlog rf))) \<and> (\<exists>look\<in>set looks. agreed index cmd e look)))"
  using assms
proof (induction rnds arbitrary: cur)
  case (Cons rnd rnds)
  obtain cfg looks where rnd: "rnd = (cfg, looks)" by (cases rnd)
  have ok: "scan_ok cfg" "\<forall>look\<in>set looks. look_ok look" using Cons.prems rnd by auto
  obtain cfg' cur' index where s: "one_scan (cfg_n cfg) cfg cmd cur = Some (cfg', cur', index)"
    using one_scan_total[OF ok(1)] by (metis prod_cases3)
  obtain r where rest: "one_rounds rnds cur' cmd e again = Some r" "\<forall>index. r = Pass index \<longrightarrow>
    (\<exists>(cfg, looks)\<in>set rnds. (\<exists>i rf. leads_at cfg i rf \<and> index = int (length (rlog rf))) \<and> (\<exists>look\<in>set looks. agreed index cmd e look))"
    using Cons.IH[of cur'] Cons.prems by auto
  obtain w where w: "one_wait looks index cmd e = Some w" "w = Pass True \<longrightarrow> (\<exists>look\<in>set looks. agreed index cmd e look)"
    using one_wait_spec[OF ok(2)] by blast
  show ?case
  proof (cases "index \<noteq> -1 \<and> w = Pass True")
    case True
    then show ?thesis using s w one_scan_claims[OF ok(1) s] unfolding rnd by auto
  next
    case False
    then show ?thesis using s w(1) rest unfolding rnd by (cases w) (auto split: bool.split)
  qed
qed simp

text \<open>
  \<^bold>\<open>C18\<close>. one does not panic on states whose arrays fit, and an index it returns is the log position of a
  connected leader to which the command was submitted, with at least the expected number of peers
  having applied that command there and none another.
\<close>

theorem one_agreement:
  assumes "\<forall>(cfg, looks)\<in>set rnds. scan_ok cfg \<and> (\<forall>look\<in>set looks. look_ok look)"
  shows "\<exists>r. one_op rnds cmd expected again = Some r \<and> (\<forall>index. r = Pass index \<longrightarrow>
    (\<exists>(cfg, looks)\<in>set rnds. (\<exists>i rf. leads_at cfg i rf \<and> index = int (length (rlog rf))) \<and> (\<exists>look\<in>set looks. agreed index cmd expected look)))"
  unfolding one_op_def using assms by (rule one_rounds_spec)

text \<open>
  \<^bold>\<open>C25\<close>. one returns the index of the command when a single connected leader takes it and one of the looks
  that follow finds enough peers that have applied it, wherever the leader is in the order of the
  servers, provided no look finds two peers that have applied different commands at that index.
\<close>

theorem one_returns:
  assumes "scan_ok cfg" "\<forall>look\<in>set looks. look_ok look \<and> consistent index look"
    and "leads_at cfg i rf" "\<forall>j rf'. leads_at cfg j rf' \<longrightarrow> j = i" "index = int (length (rlog rf))"
    and "\<exists>look\<in>set looks. agreed index cmd expected look"
  shows "one_op ((cfg, looks) # rnds) cmd expected again = Some (Pass index)"
proof -
  have i: "i < cfg_n cfg" using assms(3) by (simp add: leads_at_def)
  have "\<exists>t>0. t \<le> cfg_n cfg \<and> (0 + t) mod cfg_n cfg = i"
    by (rule exI[of _ "if i = 0 then cfg_n cfg else i"]) (use i in auto)
  then obtain cfg' where "one_scan (cfg_n cfg) cfg cmd 0 = Some (cfg', i, index)"
    using one_scan_finds[OF assms(1,3)] assms(4,5) by blast
  moreover have "one_wait looks index cmd expected = Some (Pass True)"
    using one_wait_spec[of looks index cmd expected] assms(2,6) by blast
  ultimately show ?thesis using assms(5) by (simp add: one_op_def)
qed

section \<open>Examples\<close>

text \<open>Two peers, of which the second leads, and a later state in which both have applied command 7.\<close>

definition agree_start :: "nat rconfig" where
  "agree_start = demo_config\<lparr>cfg_rafts := [Some (Make 2 0 MakePersister), Some ((Make 2 1 MakePersister)\<lparr>rstate := leader\<rparr>)]\<rparr>"

lemma agree_start_ok:
  "scan_ok agree_start" "look_ok agree_start" "consistent 1 agree_start" "agreed 1 7 2 agree_start"
  "leads_at agree_start i rf \<longleftrightarrow> i = 1 \<and> rf = (Make 2 1 MakePersister)\<lparr>rstate := leader\<rparr>"
proof -
  show "leads_at agree_start i rf \<longleftrightarrow> i = 1 \<and> rf = (Make 2 1 MakePersister)\<lparr>rstate := leader\<rparr>"
    unfolding leads_at_def by (auto simp: agree_start_def demo_config_def less_2_cases_iff Make_def readPersist_def)
qed (auto simp: agree_start_def demo_config_def scan_ok_def look_ok_def consistent_def agreed_def numeral_2_eq_2)

theorem one_agreement_witness:
  "\<exists>r. one_op [(agree_start, [agree_start])] 7 2 True = Some r \<and> (\<forall>index. r = Pass index \<longrightarrow> agreed index 7 2 agree_start)"
  using one_agreement[of "[(agree_start, [agree_start])]" 7 2 True] agree_start_ok(1,2) by auto

theorem one_returns_witness: "one_op [(agree_start, [agree_start])] 7 2 False = Some (Pass 1)"
proof -
  have "1 = int (length (rlog ((Make 2 1 MakePersister :: nat raft)\<lparr>rstate := leader\<rparr>)))" by (simp add: Make_def readPersist_def)
  from one_returns[OF agree_start_ok(1) _ _ _ this, of "[agree_start]" 1 7 2 "[]" False] agree_start_ok show ?thesis by simp
qed

end
