(* ===== verification/Raft_Restart.thy ===== *)
theory Raft_Restart
  imports Raft_Harness
begin

text \<open>
  What a restart costs: \<^verbatim>\<open>persist\<close> and \<^verbatim>\<open>readPersist\<close> of \<^verbatim>\<open>raft/raft.go\<close> have empty bodies, so a peer that the harness
  restarts has forgotten its term and its vote.  Election safety holds as long as no peer is restarted,
  and not beyond.
\<close>

text \<open>The system after the harness has changed the peers of a configuration.\<close>

definition peers_of :: "'c rconfig \<Rightarrow> 'c sys \<Rightarrow> 'c sys" where
  "peers_of cfg s = s\<lparr>srv := (\<lambda>i. case cfg_rafts cfg ! i of Some rf \<Rightarrow> rf | None \<Rightarrow> srv s i)\<rparr>"

lemma start1_peer:
  assumes "start1 cfg i names sa = Some cfg'" "i < length (cfg_rafts cfg)"
  shows "\<exists>p. cfg_rafts cfg' = (cfg_rafts cfg)[i := Some (Make (cfg_n cfg) i p)]"
  using assms by (auto simp: start1_def crash1_def disconnect_def bind_Some_iff Let_def)

text \<open>A restarted peer is in term 0 again and grants its vote to whoever asks first.\<close>

lemma restart_forgets:
  assumes "start1 cfg i names sa = Some cfg'" "i < length (cfg_rafts cfg)"
  shows "\<exists>rf. cfg_rafts cfg' ! i = Some rf \<and> currentTerm rf = 0 \<and> voteFor rf = -1 \<and>
    (\<forall>args. rv_Term args \<ge> 0 \<longrightarrow> rvr_VoteGranted (snd (RequestVoteReply rf args)))"
proof -
  obtain p where p: "cfg_rafts cfg' ! i = Some (Make (cfg_n cfg) i p)" using start1_peer[OF assms] assms(2) by auto
  have "rvr_VoteGranted (snd (RequestVoteReply (Make (cfg_n cfg) i p) args))" if "rv_Term args \<ge> 0" for args
    using that by (simp add: Make_def readPersist_def RequestVoteReply_def Let_def)
  with p show ?thesis by (auto simp: Make_def readPersist_def)
qed

definition second_election :: "nat ev list" where
  "second_election = [Timeout 2, Campaign 0, VoteRequest 1 1, VoteResult 1 1]"

text \<open>
  \<^bold>\<open>C37\<close>. Nothing is persisted: when the harness restarts a peer that has voted, it votes again in the same
  term; a run of three peers with one restart ends with two leaders in one term.
\<close>

theorem forgotten_vote_two_leaders:
  "do { cfg \<leftarrow> rc_make_config three_names (\<lambda>i. i) 0 3 False;
        s \<leftarrow> run_sys 3 (start_sys 3) first_election;
        cfg \<leftarrow> start1 (cfg\<lparr>cfg_rafts := map (\<lambda>i. Some (srv s i)) [0..<3]\<rparr>) 1 [''x'', ''y'', ''z''] 7;
        s \<leftarrow> run_sys 3 (peers_of cfg s) second_election;
        Some (rstate (srv s 0), currentTerm (srv s 0), rstate (srv s 2), currentTerm (srv s 2)) } =
   Some (leader, 1, leader, 1)"
  unfolding first_election_def second_election_def by code_simp

end
