(* ===== verification/Util.thy ===== *)
theory Util
  imports Raft_Harness "HOL-Library.Word"
begin

text \<open>
  Helpers that every package has a copy of: the random names of network ends (\<^verbatim>\<open>randstring\<close> in the four
  files \<^verbatim>\<open>config.go\<close>), the seed of the generator, and debug printing.  The bytes that the system delivers
  are arguments.  The names of ends must be new for the network to accept them; the last section reduces
  this to the bytes.
\<close>

section \<open>Base64\<close>

definition encodeURL :: string where
  "encodeURL = ''ABCDEFGHIJKLMNOPQRSTUVWXYZabcdefghijklmnopqrstuvwxyz0123456789-_''"

text \<open>The four digits of three bytes.\<close>

definition digit_at :: "nat \<Rightarrow> nat \<Rightarrow> nat \<Rightarrow> nat \<Rightarrow> nat" where
  "digit_at k a b c = (if k = 0 then a div 4 else if k = 1 then (a mod 4) * 16 + b div 16 else if k = 2 then (b mod 16) * 4 + c div 64 else c mod 64)"

definition quad :: "8 word \<Rightarrow> 8 word \<Rightarrow> 8 word \<Rightarrow> string" where
  "quad a b c = map (\<lambda>k. encodeURL ! digit_at k (unat a) (unat b) (unat c)) [0..<4]"

fun EncodeToString :: "8 word list \<Rightarrow> string" where
  "EncodeToString (a # b # c # src) = quad a b c @ EncodeToString src"
| "EncodeToString [a, b] = take 3 (quad a b 0) @ ''=''"
| "EncodeToString [a] = take 2 (quad a 0 0) @ ''==''"
| "EncodeToString [] = ''''"

section \<open>The helpers\<close>

text \<open>\<open>b\<close> are the \<^verbatim>\<open>2*n\<close> bytes that \<^verbatim>\<open>crand.Read\<close> delivers.\<close>

definition randstring :: "nat \<Rightarrow> 8 word list \<Rightarrow> string option" where
  "randstring n b = slice_to (EncodeToString b) (int n)"

text \<open>\<open>draw\<close> is the number that \<^verbatim>\<open>crand.Int\<close> delivers for the bound \<^verbatim>\<open>1 << 62\<close>.\<close>

definition makeSeed :: "nat \<Rightarrow> 64 word" where
  "makeSeed draw = of_nat (draw mod 2 ^ 62)"

definition Debug :: int where
  "Debug = 0"

definition DPrintf :: "string list \<Rightarrow> string \<Rightarrow> string list" where
  "DPrintf out line = (if Debug > 0 then out @ [line] else out)"

section \<open>Names are as new as their bytes\<close>

lemma length_EncodeToString: "length (EncodeToString b) = 4 * ((length b + 2) div 3)"
proof (induction b rule: EncodeToString.induct)
  case (1 a b c src)
  have "(length (a # b # c # src) + 2) div 3 = (length src + 2) div 3 + 1" by simp
  then show ?case using 1 by (simp add: quad_def)
qed (simp_all add: quad_def)

lemma encodeURL_inj: "i < 64 \<Longrightarrow> j < 64 \<Longrightarrow> encodeURL ! i = encodeURL ! j \<longleftrightarrow> i = j"
proof -
  have "distinct encodeURL" "length encodeURL = 64" by (simp_all add: encodeURL_def)
  then show "i < 64 \<Longrightarrow> j < 64 \<Longrightarrow> encodeURL ! i = encodeURL ! j \<longleftrightarrow> i = j" by (simp add: nth_eq_iff_index_eq)
qed

lemma digit_at_bound: "a < 256 \<Longrightarrow> b < 256 \<Longrightarrow> c < 256 \<Longrightarrow> digit_at k a b c < 64"
proof -
  assume "a < 256" "b < 256" "c < 256"
  then have "a div 4 < 64" "b div 16 < 16" "c div 64 < 4" by (simp_all add: less_mult_imp_div_less)
  moreover have "a mod 4 < 4" "b mod 16 < 16" "c mod 64 < 64" by simp_all
  ultimately show ?thesis unfolding digit_at_def by (auto simp del: mod_less_divisor)
qed

lemma two_digits: "x * m + y = x' * m + y' \<longleftrightarrow> x = x' \<and> y = y'" if "y < m" "y' < m" for x y x' y' m :: nat
proof
  assume e: "x * m + y = x' * m + y'"
  then have "(x * m + y) mod m = (x' * m + y') mod m" "(x * m + y) div m = (x' * m + y') div m" by simp_all
  then show "x = x' \<and> y = y'" using that by simp
qed simp

lemma div_mod_eqI: "(x :: nat) div m = x' div m \<Longrightarrow> x mod m = x' mod m \<Longrightarrow> x = x'"
  by (metis div_mult_mod_eq)

lemma digits_eq:
  assumes "b < 256" "c < 256" "b' < 256" "c' < 256" "\<forall>k<4. digit_at k a b c = digit_at k a' b' c'"
  shows "a = a' \<and> b = b' \<and> c = c'"
proof -
  have e: "a div 4 = a' div 4" "a mod 4 * 16 + b div 16 = a' mod 4 * 16 + b' div 16" "b mod 16 * 4 + c div 64 = b' mod 16 * 4 + c' div 64"
      "c mod 64 = c' mod 64"
    using assms(5)[rule_format, of 0] assms(5)[rule_format, of 1] assms(5)[rule_format, of 2] assms(5)[rule_format, of 3] by (simp_all add: digit_at_def)
  have "b div 16 < 16" "b' div 16 < 16" "c div 64 < 4" "c' div 64 < 4" using assms(1-4) by (simp_all add: less_mult_imp_div_less)
  then have "a mod 4 = a' mod 4" "b div 16 = b' div 16" "b mod 16 = b' mod 16" "c div 64 = c' div 64"
    using e(2,3) by (simp_all add: two_digits)
  with e(1,4) show ?thesis using div_mod_eqI[of a 4 a'] div_mod_eqI[of b 16 b'] div_mod_eqI[of c 64 c'] by simp
qed

lemma byte_bound: "unat (a :: 8 word) < 256"
  using unsigned_less[of a] by simp

lemma length_quad: "length (quad a b c) = 4"
  by (simp add: quad_def)

lemma quad_inj: "quad a b c = quad a' b' c' \<longleftrightarrow> a = a' \<and> b = b' \<and> c = c'"
proof
  assume "quad a b c = quad a' b' c'"
  then have "\<forall>k<4. digit_at k (unat a) (unat b) (unat c) = digit_at k (unat a') (unat b') (unat c')"
    unfolding quad_def map_eq_conv using encodeURL_inj digit_at_bound byte_bound by simp
  then have "unat a = unat a' \<and> unat b = unat b' \<and> unat c = unat c'" by (intro digits_eq byte_bound)
  then show "a = a' \<and> b = b' \<and> c = c'" by (simp add: word_unat_eq_iff)
qed simp

lemma take_EncodeToString:
  "3 * k \<le> length b \<Longrightarrow> 3 * k \<le> length b' \<Longrightarrow>
    take (4 * k) (EncodeToString b) = take (4 * k) (EncodeToString b') \<longleftrightarrow> take (3 * k) b = take (3 * k) b'"
proof (induction k arbitrary: b b')
  case (Suc k)
  have "\<exists>x y z r. xs = x # y # z # r \<and> 3 * k \<le> length r" if "3 * Suc k \<le> length xs" for xs :: "8 word list"
    using that by (cases xs; cases "tl xs"; cases "tl (tl xs)") auto
  from this[OF Suc.prems(1)] this[OF Suc.prems(2)] obtain x y z r x' y' z' r' where
    b: "b = x # y # z # r" "3 * k \<le> length r" and b': "b' = x' # y' # z' # r'" "3 * k \<le> length r'" by blast
  have "take (4 * Suc k) (EncodeToString (x # y # z # r)) = quad x y z @ take (4 * k) (EncodeToString r)" for x y z r
    by (simp add: length_quad)
  then have "take (4 * Suc k) (EncodeToString b) = take (4 * Suc k) (EncodeToString b') \<longleftrightarrow>
      quad x y z = quad x' y' z' \<and> take (4 * k) (EncodeToString r) = take (4 * k) (EncodeToString r')"
    unfolding b(1) b'(1) by (simp add: length_quad)
  also have "\<dots> \<longleftrightarrow> take (3 * Suc k) b = take (3 * Suc k) b'"
    unfolding b(1) b'(1) quad_inj Suc.IH[OF b(2) b'(2)] by (auto simp: numeral_3_eq_3)
  finally show ?case .
qed simp

lemma randstring_names:
  assumes "length b = 2 * n" "length b' = 2 * n" "4 dvd n"
  shows "\<exists>s s'. randstring n b = Some s \<and> randstring n b' = Some s' \<and> length s = n \<and> length s' = n \<and>
    (s = s' \<longleftrightarrow> take (3 * n div 4) b = take (3 * n div 4) b')"
proof -
  obtain k where n: "n = 4 * k" using assms(3) by (elim dvdE)
  have "n \<le> length (EncodeToString x)" if "length x = 2 * n" for x
    using that unfolding length_EncodeToString n by simp
  then have "randstring n x = Some (take n (EncodeToString x)) \<and> length (take n (EncodeToString x)) = n" if "length x = 2 * n" for x
    using that by (force simp: randstring_def slice_to_def)
  then show ?thesis using take_EncodeToString[of k b b'] assms(1,2) by (simp add: n)
qed

text \<open>
  The harness draws forty bytes for each end.  If no two draws share their first fifteen bytes, the names
  are fresh, and \<^verbatim>\<open>make_config\<close> builds the initial system on a connected network.
\<close>

text \<open>
  \<^bold>\<open>C27\<close>. If no two of the random draws of the harness agree in their first fifteen bytes, make_config of
  raft, with the names that randstring makes of them, builds the initial state of the system of
  peers, all connected, every end enabled and leading to its server; its checks find no leader and
  all peers in term 0.
\<close>

theorem random_names_ready:
  assumes len: "\<forall>i<n. \<forall>j<n. length (bytes i j) = 40" and inj: "inj_on (\<lambda>(i, j). take 15 (bytes i j)) ({..<n} \<times> {..<n})"
  shows "\<exists>names. (\<forall>i<n. those (map (\<lambda>j. randstring 20 (bytes i j)) [0..<n]) = Some (names i)) \<and>
    (\<exists>cfg :: 'c rconfig. rc_make_config names sa now n unreliable = Some cfg \<and> sees n (start_sys n) cfg \<and>
      (\<forall>i<n. cfg_connected cfg ! i \<and> net_servers (cfg_net cfg) (ServerName i) = Some (sa i) \<and> (cfg_logs cfg ! i) = Map.empty) \<and>
      (\<forall>i<n. \<forall>j<n. \<exists>e. endname cfg i j = Some e \<and> net_connections (cfg_net cfg) (EndName e) = Some (ServerName j) \<and>
         net_enabled (cfg_net cfg) (EndName e)) \<and>
      net_reliable (cfg_net cfg) = (\<not> unreliable) \<and>
      (checkNoLeader cfg = Some (Pass ()) \<and> (0 < n \<longrightarrow> checkTerms cfg = Some (Pass 0))))"
proof -
  define name where "name i j = the (randstring 20 (bytes i j))" for i j
  define names where "names i = map (name i) [0..<n]" for i
  have r: "randstring 20 (bytes i j) = Some (name i j) \<and> (name i j = name i' j' \<longleftrightarrow> (i, j) = (i', j'))"
    if "i < n" "j < n" "i' < n" "j' < n" for i j i' j'
  proof -
    have "take 15 (bytes i j) = take 15 (bytes i' j') \<longleftrightarrow> (i, j) = (i', j')"
      using inj_on_eq_iff[OF inj, of "(i, j)" "(i', j')"] that by simp
    then show ?thesis using randstring_names[of "bytes i j" 20 "bytes i' j'"] len that by (auto simp: name_def)
  qed
  then have "\<forall>i<n. those (map (\<lambda>j. randstring 20 (bytes i j)) [0..<n]) = Some (names i)"
    unfolding names_def by (auto intro!: those_map)
  moreover have f: "fresh_table n names"
    using r by (auto simp: fresh_table_def names_def distinct_conv_nth)
  ultimately show ?thesis using raft_config_ready[OF f, of sa now unreliable] by blast
qed

definition counted_bytes :: "nat \<Rightarrow> nat \<Rightarrow> 8 word list" where
  "counted_bytes i j = of_nat i # of_nat j # replicate 38 0"

theorem random_names_ready_witness:
  "\<exists>names. (\<forall>i<3. those (map (\<lambda>j. randstring 20 (counted_bytes i j)) [0..<3]) = Some (names i)) \<and>
    (\<exists>cfg :: nat rconfig. rc_make_config names (\<lambda>i. i) 0 3 False = Some cfg \<and> sees 3 (start_sys 3) cfg)"
proof -
  have "\<forall>i<3. \<forall>j<3. length (counted_bytes i j) = 40" by (simp add: counted_bytes_def)
  moreover have "i = j" if "(of_nat i :: 8 word) = of_nat j" "i < 3" "j < 3" for i j :: nat
    using that by (auto simp: numeral_3_eq_3 less_Suc_eq)
  then have "inj_on (\<lambda>(i, j). take 15 (counted_bytes i j)) ({..<3} \<times> {..<3})"
    by (auto simp: inj_on_def counted_bytes_def)
  ultimately show ?thesis using random_names_ready[of 3 counted_bytes "\<lambda>i. i" 0 False] by blast
qed

end
