(* ===== verification/Strconv.thy ===== *)
theory Strconv
  imports Prelude
begin

text \<open>
  Numbers as text: the formatting verb \<^verbatim>\<open>%d\<close> and \<^verbatim>\<open>strconv.Itoa\<close>, with what names that end in a number
  need of them.
\<close>

fun decimal :: "nat \<Rightarrow> string" where
  "decimal n = (if n < 10 then [char_of (48 + n)] else decimal (n div 10) @ [char_of (48 + n mod 10)])"

definition itoa :: "int \<Rightarrow> string" where
  "itoa i = (if i < 0 then ''-'' @ decimal (nat (- i)) else decimal (nat i))"

declare decimal.simps [simp del]

definition digit :: "char \<Rightarrow> bool" where
  "digit c \<longleftrightarrow> 48 \<le> (of_char c :: nat) \<and> (of_char c :: nat) \<le> 57"

lemma digit_char: "(d :: nat) < 10 \<Longrightarrow> digit (char_of (48 + d))"
  by (simp add: digit_def)

lemma decimal_digits: "\<forall>c\<in>set (decimal n). digit c"
proof (induction n rule: decimal.induct)
  case (1 n)
  show ?case
  proof (cases "n < 10")
    case False
    moreover have "n mod 10 < 10" by simp
    ultimately show ?thesis using 1 digit_char by (subst decimal.simps) auto
  qed (subst decimal.simps, simp add: digit_char)
qed

lemma decimal_nonempty: "decimal n \<noteq> []"
  by (subst decimal.simps) simp

definition undecimal :: "string \<Rightarrow> nat" where
  "undecimal s = foldl (\<lambda>n c. 10 * n + (of_char c - 48)) 0 s"

lemma undecimal_decimal: "undecimal (decimal n) = n"
proof (induction n rule: decimal.induct)
  case (1 n)
  show ?case
  proof (cases "n < 10")
    case False
    have "of_char (char_of (48 + n mod 10) :: char) = 48 + n mod 10" by simp
    with False 1 show ?thesis by (subst decimal.simps) (simp add: undecimal_def)
  qed (subst decimal.simps, simp add: undecimal_def)
qed

lemma itoa_inj: "0 \<le> i \<Longrightarrow> 0 \<le> j \<Longrightarrow> itoa i = itoa j \<longleftrightarrow> i = j"
  unfolding itoa_def by (metis not_less undecimal_decimal int_nat_eq)

lemma itoa_digits: "0 \<le> i \<Longrightarrow> \<forall>c\<in>set (itoa i). digit c"
  by (simp add: itoa_def decimal_digits)

lemma digit_not [simp]: "\<not> digit (CHR ''-'')" "\<not> digit (CHR ''/'')"
  by (simp_all add: digit_def)

text \<open>The last dash of a name separates its last number.\<close>

lemma dash_split:
  assumes "xs @ ''-'' @ ds = ys @ ''-'' @ es" "\<forall>c\<in>set ds. digit c" "\<forall>c\<in>set es. digit c"
  shows "xs = ys \<and> ds = es"
proof -
  have key: "takeWhile digit (rev (as @ ''-'' @ cs)) = rev cs" if "\<forall>c\<in>set cs. digit c" for as cs
    using takeWhile_append2[of "rev cs" digit "CHR ''-'' # rev as"] that by simp
  have "rev ds = rev es" unfolding key[OF assms(2), of xs, symmetric] key[OF assms(3), of ys, symmetric] assms(1) ..
  with assms(1) show ?thesis by simp
qed

end
