(* ===== verification/Shardkv_Config.thy ===== *)
theory Shardkv_Config
  imports Kv_Config Strconv
begin

text \<open>
  The harness of the sharded store, \<^verbatim>\<open>shardkv/config.go\<close>: three shard masters, three groups of \<open>n\<close>
  servers, and clerks, on one simulated network.  Ends and servers have strings for names, in
  separate maps.  Every end is switched on as soon as it is made.  The random names and the
  addresses of new servers are arguments; a \<open>None\<close> is a panic.
\<close>

section \<open>State\<close>

record 'c group =
  g_gid :: int
  g_servers :: "'c ShardKV option list"
  g_saved :: "Persister option list"
  g_endnames :: "string list option list"
  g_mendnames :: "string list option list"

record 'c skcfg =
  skc_net :: "string network"
  skc_start :: int
  skc_nmasters :: nat
  skc_masterservers :: "'c ShardMaster option list"
  skc_mck :: "string list" \<comment> \<open>the ends of the clerk \<^verbatim>\<open>mck\<close>\<close>
  skc_ngroups :: nat
  skc_n :: nat
  skc_groups :: "'c group list"
  skc_clerks :: "nat \<rightharpoonup> string list"
  skc_nextClientId :: int
  skc_maxraftstate :: int

definition skc_checkTimeout :: "bool \<Rightarrow> int \<Rightarrow> 'c skcfg \<Rightarrow> 'c skcfg outcome" where
  "skc_checkTimeout failed now cfg =
    (if \<not> failed \<and> now - skc_start cfg > 120 then Fatal ''test took longer than 120 seconds'' else Pass cfg)"

definition mastername :: "nat \<Rightarrow> string" where
  "mastername i = ''master'' @ itoa (int i)"

definition servername :: "int \<Rightarrow> nat \<Rightarrow> string" where
  "servername gid i = ''server-'' @ itoa gid @ ''-'' @ itoa (int i)"

text \<open>The check of one server, and of all servers of all groups.\<close>

definition checklog :: "'c skcfg \<Rightarrow> Persister \<Rightarrow> unit outcome" where
  "checklog cfg p =
    (let rs = int (RaftStateSize p); snap = length (ReadSnapshot p)
     in if skc_maxraftstate cfg \<ge> 0 \<and> rs > 8 * skc_maxraftstate cfg then Fatal ''persister.RaftStateSize() too big''
        else if skc_maxraftstate cfg < 0 \<and> snap > 0 then Fatal ''maxraftstate is -1, but snapshot is non-empty!''
        else Pass ())"

fun checklogs_loop :: "'c skcfg \<Rightarrow> (nat \<times> nat) list \<Rightarrow> unit outcome option" where
  "checklogs_loop cfg [] = Some (Pass ())"
| "checklogs_loop cfg ((gi, i) # rest) = do {
     gg \<leftarrow> at (skc_groups cfg) (int gi);
     p \<leftarrow> at (g_saved gg) (int i);
     p \<leftarrow> p;
     (case checklog cfg p of Fatal e \<Rightarrow> Some (Fatal e) | Pass _ \<Rightarrow> checklogs_loop cfg rest) }"

definition checklogs :: "'c skcfg \<Rightarrow> unit outcome option" where
  "checklogs cfg = checklogs_loop cfg (List.product [0..<skc_ngroups cfg] [0..<skc_n cfg])"

section \<open>Ends and clerks\<close>

text \<open>\<^verbatim>\<open>MakeEnd\<close>, \<^verbatim>\<open>Connect\<close> and \<^verbatim>\<open>Enable\<close> of an end to a server.\<close>

definition open_end :: "string \<Rightarrow> string \<Rightarrow> string network \<Rightarrow> string network option" where
  "open_end name server net = do {
     net \<leftarrow> MakeEnd net name;
     Some (Enable (Connect net name server) name True) }"

fun open_ends :: "(string \<times> string) list \<Rightarrow> string network \<Rightarrow> string network option" where
  "open_ends [] net = Some net"
| "open_ends ((name, server) # rest) net = do { net \<leftarrow> open_end name server net; open_ends rest net }"

text \<open>
  The loop of \<^verbatim>\<open>makeClient\<close>: it stores the names of \<^verbatim>\<open>nmasters\<close> ends in an array of length \<^verbatim>\<open>cfg.n\<close>.
\<close>

fun client_ends :: "nat \<Rightarrow> string list \<Rightarrow> string list \<Rightarrow> string network \<Rightarrow> (string list \<times> string network) option" where
  "client_ends j [] endnames net = Some (endnames, net)"
| "client_ends j (name # names) endnames net = do {
     endnames \<leftarrow> upd_at endnames (int j) name;
     net \<leftarrow> open_end name (mastername j) net;
     client_ends (j + 1) names endnames net }"

text \<open>\<open>names\<close> are the \<^verbatim>\<open>nmasters\<close> random names, \<open>ck\<close> the address of the clerk.\<close>

definition skc_makeClient :: "string list \<Rightarrow> nat \<Rightarrow> 'c skcfg \<Rightarrow> 'c skcfg option" where
  "skc_makeClient names ck cfg = do {
     (endnames, net) \<leftarrow> client_ends 0 names (replicate (skc_n cfg) []) (skc_net cfg);
     Some (cfg\<lparr>skc_net := net, skc_clerks := (skc_clerks cfg)(ck \<mapsto> endnames), skc_nextClientId := skc_nextClientId cfg + 1\<rparr>) }"

text \<open>The function \<^verbatim>\<open>make_end\<close> that a clerk and a server get: a new end to a server of the given name.\<close>

definition make_end :: "string \<Rightarrow> string \<Rightarrow> 'c skcfg \<Rightarrow> 'c skcfg option" where
  "make_end name server cfg = map_option (\<lambda>net. cfg\<lparr>skc_net := net\<rparr>) (open_end name server (skc_net cfg))"

definition skc_deleteClient :: "'c skcfg \<Rightarrow> nat \<Rightarrow> 'c skcfg \<times> string list" where
  "skc_deleteClient cfg ck =
    (let v = (case skc_clerks cfg ck of None \<Rightarrow> [] | Some ns \<Rightarrow> ns)
     in (cfg\<lparr>skc_clerks := (skc_clerks cfg)(ck := None)\<rparr>, v))"

section \<open>Servers and groups\<close>

definition switch_off :: "string list \<Rightarrow> string network \<Rightarrow> string network" where
  "switch_off names net = foldl (\<lambda>net e. Enable net e False) net names"

definition skc_ShutdownServer :: "'c skcfg \<Rightarrow> nat \<Rightarrow> nat \<Rightarrow> ('c skcfg \<times> 'c ShardKV option) option" where
  "skc_ShutdownServer cfg gi i = do {
     gg \<leftarrow> at (skc_groups cfg) (int gi);
     out \<leftarrow> those (map (\<lambda>j. do { row \<leftarrow> at (g_endnames gg) (int i); names \<leftarrow> row; at names (int j) }) [0..<length (g_servers gg)]);
     row \<leftarrow> at (g_mendnames gg) (int i);
     let mout = (case row of None \<Rightarrow> [] | Some names \<Rightarrow> names);
     let net = DeleteServer (switch_off mout (switch_off out (skc_net cfg))) (servername (g_gid gg) i);
     saved \<leftarrow> at (g_saved gg) (int i);
     kv \<leftarrow> at (g_servers gg) (int i);
     let gg = gg\<lparr>g_saved := (g_saved gg)[i := map_option Copy saved], g_servers := (g_servers gg)[i := None]\<rparr>;
     Some (cfg\<lparr>skc_net := net, skc_groups := (skc_groups cfg)[gi := gg]\<rparr>, map_option ShardKV_Kill kv) }"

fun shutdown_each :: "nat list \<Rightarrow> nat \<Rightarrow> 'c skcfg \<Rightarrow> 'c skcfg option" where
  "shutdown_each [] gi cfg = Some cfg"
| "shutdown_each (i # is) gi cfg = do { (cfg, _) \<leftarrow> skc_ShutdownServer cfg gi i; shutdown_each is gi cfg }"

definition ShutdownGroup :: "'c skcfg \<Rightarrow> nat \<Rightarrow> 'c skcfg option" where
  "ShutdownGroup cfg gi = shutdown_each [0..<skc_n cfg] gi cfg"

fun shutdown_groups :: "nat list \<Rightarrow> 'c skcfg \<Rightarrow> 'c skcfg option" where
  "shutdown_groups [] cfg = Some cfg"
| "shutdown_groups (gi # gis) cfg = do { cfg \<leftarrow> ShutdownGroup cfg gi; shutdown_groups gis cfg }"

definition skc_cleanup :: "bool \<Rightarrow> int \<Rightarrow> 'c skcfg \<Rightarrow> 'c skcfg outcome option" where
  "skc_cleanup failed now cfg = do {
     cfg \<leftarrow> shutdown_groups [0..<skc_ngroups cfg] cfg;
     net \<leftarrow> Cleanup (skc_net cfg);
     Some (skc_checkTimeout failed now (cfg\<lparr>skc_net := net\<rparr>)) }"

text \<open>\<open>names\<close> and \<open>mnames\<close> are the random names of the ends to the group and to the masters.\<close>

definition skc_StartServer :: "string list \<Rightarrow> string list \<Rightarrow> saddr \<Rightarrow> 'c skcfg \<Rightarrow> nat \<Rightarrow> nat \<Rightarrow> 'c skcfg option" where
  "skc_StartServer names mnames sa cfg gi i = do {
     gg \<leftarrow> at (skc_groups cfg) (int gi);
     rows \<leftarrow> upd_at (g_endnames gg) (int i) (Some names);
     net \<leftarrow> open_ends (zip names (map (servername (g_gid gg)) [0..<skc_n cfg])) (skc_net cfg);
     mrows \<leftarrow> upd_at (g_mendnames gg) (int i) (Some mnames);
     net \<leftarrow> open_ends (zip mnames (map mastername [0..<skc_nmasters cfg])) net;
     saved \<leftarrow> at (g_saved gg) (int i);
     let ps = (case saved of Some p \<Rightarrow> Copy p | None \<Rightarrow> MakePersister);
     servers \<leftarrow> upd_at (g_servers gg) (int i) (Some (ShardKV_StartServer (skc_n cfg) i ps (skc_maxraftstate cfg) (g_gid gg)));
     let gg = gg\<lparr>g_endnames := rows, g_mendnames := mrows, g_saved := (g_saved gg)[i := Some ps], g_servers := servers\<rparr>;
     Some (cfg\<lparr>skc_net := AddServer net (servername (g_gid gg) i) sa, skc_groups := (skc_groups cfg)[gi := gg]\<rparr>) }"

text \<open>The random names and the addresses that the harness draws for server \<open>i\<close> of group \<open>gi\<close>.\<close>

type_synonym fresh = "nat \<Rightarrow> nat \<Rightarrow> string list \<times> string list \<times> saddr"

fun start_each :: "fresh \<Rightarrow> nat list \<Rightarrow> nat \<Rightarrow> 'c skcfg \<Rightarrow> 'c skcfg option" where
  "start_each fr [] gi cfg = Some cfg"
| "start_each fr (i # is) gi cfg = do {
     let (names, mnames, sa) = fr gi i;
     cfg \<leftarrow> skc_StartServer names mnames sa cfg gi i;
     start_each fr is gi cfg }"

definition StartGroup :: "fresh \<Rightarrow> 'c skcfg \<Rightarrow> nat \<Rightarrow> 'c skcfg option" where
  "StartGroup fr cfg gi = start_each fr [0..<skc_n cfg] gi cfg"

definition StartMasterServer :: "string list \<Rightarrow> saddr \<Rightarrow> 'c skcfg \<Rightarrow> nat \<Rightarrow> 'c skcfg option" where
  "StartMasterServer names sa cfg i = do {
     net \<leftarrow> open_ends (zip names (map mastername [0..<skc_nmasters cfg])) (skc_net cfg);
     ms \<leftarrow> upd_at (skc_masterservers cfg) (int i) (Some (ShardMaster_StartServer (skc_nmasters cfg) i MakePersister));
     Some (cfg\<lparr>skc_masterservers := ms, skc_net := AddServer net (mastername i) sa\<rparr>) }"

definition shardclerk :: "string list \<Rightarrow> 'c skcfg \<Rightarrow> ('c skcfg \<times> string list) option" where
  "shardclerk names cfg = do {
     net \<leftarrow> open_ends (zip names (map mastername [0..<skc_nmasters cfg])) (skc_net cfg);
     Some (cfg\<lparr>skc_net := net\<rparr>, names) }"

section \<open>Joining and leaving\<close>

fun join_map :: "'c skcfg \<Rightarrow> int list \<Rightarrow> (int \<rightharpoonup> string list) \<Rightarrow> (int \<rightharpoonup> string list) option" where
  "join_map cfg [] m = Some m"
| "join_map cfg (g # gis) m = do {
     gg \<leftarrow> at (skc_groups cfg) g;
     join_map cfg gis (m(g_gid gg \<mapsto> map (servername (g_gid gg)) [0..<skc_n cfg])) }"

text \<open>\<open>calls\<close> gives the answers of the masters, as for the clerk of the shard master.\<close>

definition joinm :: "((int \<rightharpoonup> string list) \<Rightarrow> nat \<Rightarrow> SmReply option list) \<Rightarrow> 'c skcfg \<Rightarrow> int list \<Rightarrow> unit option" where
  "joinm calls cfg gis = do { m \<leftarrow> join_map cfg gis Map.empty; Join calls m }"

definition join :: "((int \<rightharpoonup> string list) \<Rightarrow> nat \<Rightarrow> SmReply option list) \<Rightarrow> 'c skcfg \<Rightarrow> int \<Rightarrow> unit option" where
  "join calls cfg gi = joinm calls cfg [gi]"

definition leavem :: "(int list \<Rightarrow> nat \<Rightarrow> SmReply option list) \<Rightarrow> 'c skcfg \<Rightarrow> int list \<Rightarrow> unit option" where
  "leavem calls cfg gis = do {
     gids \<leftarrow> those (map (\<lambda>g. map_option g_gid (at (skc_groups cfg) g)) gis);
     Leave calls gids }"

definition leave :: "(int list \<Rightarrow> nat \<Rightarrow> SmReply option list) \<Rightarrow> 'c skcfg \<Rightarrow> int \<Rightarrow> unit option" where
  "leave calls cfg gi = leavem calls cfg [gi]"

section \<open>\<^verbatim>\<open>make_config\<close>\<close>

fun start_masters :: "(nat \<Rightarrow> string list \<times> saddr) \<Rightarrow> nat list \<Rightarrow> 'c skcfg \<Rightarrow> 'c skcfg option" where
  "start_masters mfr [] cfg = Some cfg"
| "start_masters mfr (i # is) cfg = do {
     cfg \<leftarrow> StartMasterServer (fst (mfr i)) (snd (mfr i)) cfg i;
     start_masters mfr is cfg }"

definition new_group :: "'c skcfg \<Rightarrow> nat \<Rightarrow> 'c group" where
  "new_group cfg gi = \<lparr>g_gid = 100 + int gi, g_servers = replicate (skc_n cfg) None, g_saved = replicate (skc_n cfg) None,
     g_endnames = replicate (skc_n cfg) None, g_mendnames = replicate (skc_nmasters cfg) None\<rparr>"

text \<open>Groups not made yet are nil pointers in the source and are not looked at; here the list grows.\<close>

fun make_group_loop :: "fresh \<Rightarrow> nat list \<Rightarrow> 'c skcfg \<Rightarrow> 'c skcfg option" where
  "make_group_loop fr [] cfg = Some cfg"
| "make_group_loop fr (gi # gis) cfg = do {
     let cfg = cfg\<lparr>skc_groups := skc_groups cfg @ [new_group cfg gi]\<rparr>;
     cfg \<leftarrow> start_each fr [0..<skc_n cfg] gi cfg;
     make_group_loop fr gis cfg }"

definition skc_make_config :: "(nat \<Rightarrow> string list \<times> saddr) \<Rightarrow> string list \<Rightarrow> fresh \<Rightarrow> int \<Rightarrow> nat \<Rightarrow> bool \<Rightarrow> int \<Rightarrow> 'c skcfg option" where
  "skc_make_config mfr cknames fr now n unreliable maxraftstate = do {
     let cfg = \<lparr>skc_net = MakeNetwork, skc_start = now, skc_nmasters = 3, skc_masterservers = replicate 3 None, skc_mck = [],
       skc_ngroups = 0, skc_n = 0, skc_groups = [], skc_clerks = Map.empty, skc_nextClientId = 0, skc_maxraftstate = maxraftstate\<rparr>;
     cfg \<leftarrow> start_masters mfr [0..<skc_nmasters cfg] cfg;
     (cfg, mck) \<leftarrow> shardclerk cknames cfg;
     let cfg = cfg\<lparr>skc_mck := mck, skc_ngroups := 3, skc_n := n\<rparr>;
     cfg \<leftarrow> make_group_loop fr [0..<skc_ngroups cfg] cfg;
     Some (cfg\<lparr>skc_clerks := Map.empty, skc_nextClientId := int (skc_n cfg) + 1000, skc_net := Reliable (skc_net cfg) (\<not> unreliable)\<rparr>) }"

section \<open>Names\<close>

lemma servername_inj:
  assumes "0 \<le> g" "0 \<le> h"
  shows "servername g i = servername h j \<longleftrightarrow> g = h \<and> i = j"
proof
  assume "servername g i = servername h j"
  then have "(''server-'' @ itoa g) @ ''-'' @ itoa (int i) = (''server-'' @ itoa h) @ ''-'' @ itoa (int j)"
    by (simp add: servername_def)
  from dash_split[OF this itoa_digits itoa_digits] have "itoa g = itoa h" "itoa (int i) = itoa (int j)" by simp_all
  then show "g = h \<and> i = j" using assms itoa_inj by simp
qed simp

lemma mastername_servername: "mastername i \<noteq> servername g j"
  by (simp add: mastername_def servername_def)

lemma mastername_inj: "mastername i = mastername j \<longleftrightarrow> i = j"
  using itoa_inj[of "int i" "int j"] by (simp add: mastername_def)

section \<open>Ends\<close>

lemma open_ends_spec:
  assumes "distinct (map fst xs)" "set (map fst xs) \<inter> net_ends net = {}"
  shows "\<exists>net'. open_ends xs net = Some net' \<and> net_ends net' = net_ends net \<union> set (map fst xs) \<and> net_servers net' = net_servers net \<and>
    (\<forall>e. e \<notin> set (map fst xs) \<longrightarrow> net_connections net' e = net_connections net e \<and> net_enabled net' e = net_enabled net e) \<and>
    (\<forall>(e, s)\<in>set xs. net_connections net' e = Some s \<and> net_enabled net' e)"
  using assms
proof (induction xs arbitrary: net)
  case (Cons x xs)
  obtain e s where x: "x = (e, s)" by (cases x)
  define net1 where "net1 = Enable (Connect (net\<lparr>net_ends := insert e (net_ends net), net_enabled := (net_enabled net)(e := False),
      net_connections := (net_connections net)(e := None)\<rparr>) e s) e True"
  have step: "open_ends (x # xs) net = open_ends xs net1"
    using Cons.prems(2) x by (simp add: open_end_def MakeEnd_def net1_def)
  have n1: "net_ends net1 = insert e (net_ends net)" "net_servers net1 = net_servers net"
    "net_connections net1 = (net_connections net)(e := Some s)" "net_enabled net1 = (net_enabled net)(e := True)"
    by (simp_all add: net1_def Enable_def Connect_def)
  obtain net' where n': "open_ends xs net1 = Some net'" "net_ends net' = net_ends net1 \<union> set (map fst xs)" "net_servers net' = net_servers net1"
    "\<forall>e. e \<notin> set (map fst xs) \<longrightarrow> net_connections net' e = net_connections net1 e \<and> net_enabled net' e = net_enabled net1 e"
    "\<forall>(e, s)\<in>set xs. net_connections net' e = Some s \<and> net_enabled net' e"
    using Cons.IH[of net1] Cons.prems x n1(1) by auto
  have "e \<notin> set (map fst xs)" using Cons.prems(1) x by simp
  then have "net_connections net' e = Some s \<and> net_enabled net' e" using n'(4) n1(3,4) by simp
  then show ?case using step n' n1 x by auto
qed simp

lemma open_ends_Some:
  "open_ends xs net = Some net' \<Longrightarrow> distinct (map fst xs) \<and> set (map fst xs) \<inter> net_ends net = {}"
proof (induction xs arbitrary: net)
  case (Cons x xs)
  obtain e s where x: "x = (e, s)" by (cases x)
  then obtain net1 where net1: "open_end e s net = Some net1" "open_ends xs net1 = Some net'" using Cons.prems by (auto simp: bind_Some_iff)
  have "e \<notin> net_ends net" "net_ends net1 = insert e (net_ends net)"
    using net1(1) by (auto simp: open_end_def MakeEnd_def Enable_def Connect_def bind_Some_iff split: if_splits)
  then show ?case using Cons.IH[OF net1(2)] x by auto
qed simp

section \<open>Starting servers\<close>

text \<open>The group \<open>gi\<close> has the arrays of \<^verbatim>\<open>make_config\<close>, and the servers below \<open>k\<close> run.\<close>

definition group_ok :: "nat \<Rightarrow> nat \<Rightarrow> 'c skcfg \<Rightarrow> bool" where
  "group_ok gi k cfg \<longleftrightarrow> gi < length (skc_groups cfg) \<and> (let gg = skc_groups cfg ! gi in g_gid gg = 100 + int gi \<and>
     length (g_servers gg) = skc_n cfg \<and> length (g_saved gg) = skc_n cfg \<and> length (g_endnames gg) = skc_n cfg \<and>
     length (g_mendnames gg) = skc_nmasters cfg \<and> (\<forall>i < skc_n cfg. k \<le> i \<longrightarrow> g_saved gg ! i = None) \<and>
     (\<forall>i<k. g_servers gg ! i = Some (ShardKV_StartServer (skc_n cfg) i MakePersister (skc_maxraftstate cfg) (100 + int gi))))"

abbreviation sizes :: "'c skcfg \<Rightarrow> nat \<times> nat \<times> int \<times> nat" where
  "sizes cfg \<equiv> (skc_n cfg, skc_nmasters cfg, skc_maxraftstate cfg, length (skc_groups cfg))"

definition drawn :: "fresh \<Rightarrow> nat \<Rightarrow> nat \<Rightarrow> string list" where
  "drawn fr gi i = fst (fr gi i) @ fst (snd (fr gi i))"

definition draws_fit :: "'c skcfg \<Rightarrow> fresh \<Rightarrow> bool" where
  "draws_fit cfg fr \<longleftrightarrow> (\<forall>gi i. length (fst (fr gi i)) = skc_n cfg \<and> length (fst (snd (fr gi i))) = skc_nmasters cfg)"

lemma StartServer_ok:
  assumes g: "group_ok gi i cfg" and i: "i < skc_n cfg" "i < skc_nmasters cfg"
    and l: "length names = skc_n cfg" "length mnames = skc_nmasters cfg"
    and f: "distinct (names @ mnames)" "set (names @ mnames) \<inter> net_ends (skc_net cfg) = {}"
  shows "\<exists>cfg'. skc_StartServer names mnames sa cfg gi i = Some cfg' \<and> group_ok gi (Suc i) cfg' \<and> sizes cfg' = sizes cfg \<and>
    (\<forall>g k. g \<noteq> gi \<longrightarrow> group_ok g k cfg \<longrightarrow> group_ok g k cfg') \<and>
    net_ends (skc_net cfg') = net_ends (skc_net cfg) \<union> set (names @ mnames)"
proof -
  define gg where "gg = skc_groups cfg ! gi"
  have gg: "gi < length (skc_groups cfg)" "g_gid gg = 100 + int gi" "length (g_servers gg) = skc_n cfg" "length (g_saved gg) = skc_n cfg"
    "length (g_endnames gg) = skc_n cfg" "length (g_mendnames gg) = skc_nmasters cfg" "\<forall>j < skc_n cfg. i \<le> j \<longrightarrow> g_saved gg ! j = None"
    "\<forall>j<i. g_servers gg ! j = Some (ShardKV_StartServer (skc_n cfg) j MakePersister (skc_maxraftstate cfg) (100 + int gi))"
    using g by (simp_all add: group_ok_def Let_def gg_def)
  have at_gg: "at (skc_groups cfg) (int gi) = Some gg" using gg(1) by (simp add: at_def gg_def)
  let ?xs = "zip names (map (servername (g_gid gg)) [0..<skc_n cfg])" and ?ys = "zip mnames (map mastername [0..<skc_nmasters cfg])"
  have m: "map fst ?xs = names" "map fst ?ys = mnames" using l by simp_all
  have "distinct names" "set names \<inter> net_ends (skc_net cfg) = {}" using f by auto
  then obtain net1 where net1: "open_ends ?xs (skc_net cfg) = Some net1" "net_ends net1 = net_ends (skc_net cfg) \<union> set names"
    using open_ends_spec[of ?xs "skc_net cfg"] unfolding m by blast
  have "distinct mnames" "set mnames \<inter> net_ends net1 = {}" unfolding net1(2) using f by auto
  then obtain net2 where net2: "open_ends ?ys net1 = Some net2" "net_ends net2 = net_ends net1 \<union> set mnames"
    using open_ends_spec[of ?ys net1] unfolding m by blast
  define g1 where "g1 = gg\<lparr>g_endnames := (g_endnames gg)[i := Some names], g_mendnames := (g_mendnames gg)[i := Some mnames],
    g_saved := (g_saved gg)[i := Some MakePersister],
    g_servers := (g_servers gg)[i := Some (ShardKV_StartServer (skc_n cfg) i MakePersister (skc_maxraftstate cfg) (g_gid gg))]\<rparr>"
  define cfg' where "cfg' = cfg\<lparr>skc_net := AddServer net2 (servername (g_gid gg) i) sa, skc_groups := (skc_groups cfg)[gi := g1]\<rparr>"
  have run: "skc_StartServer names mnames sa cfg gi i = Some cfg'"
    using at_gg gg net1(1) net2(1) i by (simp add: skc_StartServer_def upd_at_def at_def Let_def cfg'_def g1_def)
  have "group_ok gi (Suc i) cfg'" using gg i(1)
    by (auto simp: group_ok_def Let_def cfg'_def g1_def nth_list_update less_Suc_eq)
  moreover have "group_ok g k cfg'" if "g \<noteq> gi" "group_ok g k cfg" for g k
    using that by (auto simp: group_ok_def Let_def cfg'_def)
  moreover have "net_ends (skc_net cfg') = net_ends (skc_net cfg) \<union> set (names @ mnames)"
    using net1(2) net2(2) by (auto simp: cfg'_def AddServer_def)
  ultimately show ?thesis using run by (simp add: cfg'_def)
qed

lemma start_each_ok:
  assumes fit: "draws_fit cfg fr" and n: "skc_n cfg \<le> skc_nmasters cfg"
  shows "group_ok gi k cfg \<Longrightarrow> k \<le> skc_n cfg \<Longrightarrow> distinct (concat (map (drawn fr gi) [k..<skc_n cfg])) \<Longrightarrow>
    set (concat (map (drawn fr gi) [k..<skc_n cfg])) \<inter> net_ends (skc_net cfg) = {} \<Longrightarrow>
    \<exists>cfg'. start_each fr [k..<skc_n cfg] gi cfg = Some cfg' \<and> group_ok gi (skc_n cfg) cfg' \<and> sizes cfg' = sizes cfg \<and>
      (\<forall>g k. g \<noteq> gi \<longrightarrow> group_ok g k cfg \<longrightarrow> group_ok g k cfg') \<and>
      net_ends (skc_net cfg') = net_ends (skc_net cfg) \<union> set (concat (map (drawn fr gi) [k..<skc_n cfg]))"
  using fit n
proof (induction "skc_n cfg - k" arbitrary: k cfg)
  case (Suc d)
  then have k: "k < skc_n cfg" "k < skc_nmasters cfg" by simp_all
  then have up: "[k..<skc_n cfg] = k # [Suc k..<skc_n cfg]" by (simp add: upt_conv_Cons)
  obtain names mnames sa where fr: "fr gi k = (names, mnames, sa)" by (cases "fr gi k") auto
  then have d: "drawn fr gi k = names @ mnames" "length names = skc_n cfg" "length mnames = skc_nmasters cfg"
    using Suc.prems(5) unfolding drawn_def draws_fit_def by (simp, metis fst_conv, metis fst_conv snd_conv)
  let ?rest = "concat (map (drawn fr gi) [Suc k..<skc_n cfg])"
  have f: "distinct (names @ mnames)" "set (names @ mnames) \<inter> net_ends (skc_net cfg) = {}" "distinct ?rest"
    "set (names @ mnames) \<inter> set ?rest = {}" "set ?rest \<inter> net_ends (skc_net cfg) = {}"
    using Suc.prems(3,4) unfolding up d(1) list.map concat.simps by (auto simp: d(1))
  obtain c1 where c1: "skc_StartServer names mnames sa cfg gi k = Some c1" "group_ok gi (Suc k) c1" "sizes c1 = sizes cfg"
    "\<forall>g k. g \<noteq> gi \<longrightarrow> group_ok g k cfg \<longrightarrow> group_ok g k c1" "net_ends (skc_net c1) = net_ends (skc_net cfg) \<union> set (names @ mnames)"
    using StartServer_ok[OF Suc.prems(1) k d(2,3) f(1,2), of sa] by blast
  have n1: "skc_n c1 = skc_n cfg" "skc_nmasters c1 = skc_nmasters cfg" "draws_fit c1 fr" using c1(3) Suc.prems(5) by (simp_all add: draws_fit_def)
  have "\<exists>cfg'. start_each fr [Suc k..<skc_n c1] gi c1 = Some cfg' \<and> group_ok gi (skc_n c1) cfg' \<and> sizes cfg' = sizes c1 \<and>
      (\<forall>g k. g \<noteq> gi \<longrightarrow> group_ok g k c1 \<longrightarrow> group_ok g k cfg') \<and>
      net_ends (skc_net cfg') = net_ends (skc_net c1) \<union> set (concat (map (drawn fr gi) [Suc k..<skc_n c1]))"
    using Suc.hyps(2) k Suc.prems(6) c1(2,5) f n1 by (intro Suc.hyps(1)) auto
  then obtain cfg' where cfg': "start_each fr [Suc k..<skc_n cfg] gi c1 = Some cfg'" "group_ok gi (skc_n cfg) cfg'" "sizes cfg' = sizes cfg"
      "\<forall>g k. g \<noteq> gi \<longrightarrow> group_ok g k c1 \<longrightarrow> group_ok g k cfg'" "net_ends (skc_net cfg') = net_ends (skc_net c1) \<union> set ?rest"
    unfolding n1(1) using c1(3) by auto
  have "start_each fr [k..<skc_n cfg] gi cfg = Some cfg'" unfolding up using fr c1(1) cfg'(1) by simp
  moreover have "net_ends (skc_net cfg') = net_ends (skc_net cfg) \<union> set (concat (map (drawn fr gi) [k..<skc_n cfg]))"
    unfolding up cfg'(5) c1(5) by (simp add: d(1) Un_assoc)
  ultimately show ?case using cfg'(2,3,4) c1(4) by blast
qed simp

definition group_draws :: "fresh \<Rightarrow> nat \<Rightarrow> nat \<Rightarrow> string list" where
  "group_draws fr n gi = concat (map (drawn fr gi) [0..<n])"

lemma make_group_loop_ok:
  assumes "draws_fit cfg fr" "skc_n cfg \<le> skc_nmasters cfg"
  shows "length (skc_groups cfg) = g \<Longrightarrow> g \<le> G \<Longrightarrow> \<forall>h<g. group_ok h (skc_n cfg) cfg \<Longrightarrow>
    distinct (concat (map (group_draws fr (skc_n cfg)) [g..<G])) \<Longrightarrow>
    set (concat (map (group_draws fr (skc_n cfg)) [g..<G])) \<inter> net_ends (skc_net cfg) = {} \<Longrightarrow>
    \<exists>cfg'. make_group_loop fr [g..<G] cfg = Some cfg' \<and> skc_n cfg' = skc_n cfg \<and> skc_nmasters cfg' = skc_nmasters cfg \<and>
      (\<forall>h<G. group_ok h (skc_n cfg) cfg')"
  using assms
proof (induction "G - g" arbitrary: g cfg)
  case (Suc d)
  then have g: "g < G" by simp
  then have up: "[g..<G] = g # [Suc g..<G]" by (simp add: upt_conv_Cons)
  define c0 where "c0 = cfg\<lparr>skc_groups := skc_groups cfg @ [new_group cfg g]\<rparr>"
  have n0: "skc_n c0 = skc_n cfg" "skc_nmasters c0 = skc_nmasters cfg" "skc_net c0 = skc_net cfg" "length (skc_groups c0) = Suc g" "draws_fit c0 fr"
    using Suc.prems(1,6) by (simp_all add: c0_def draws_fit_def)
  have g0: "group_ok g 0 c0" using Suc.prems(1) by (simp add: group_ok_def c0_def new_group_def Let_def nth_append)
  have old: "\<forall>h<g. group_ok h (skc_n cfg) c0"
    using Suc.prems(1,3) by (auto simp: group_ok_def c0_def Let_def nth_append)
  let ?rest = "concat (map (group_draws fr (skc_n cfg)) [Suc g..<G])"
  have f: "distinct (group_draws fr (skc_n cfg) g)" "set (group_draws fr (skc_n cfg) g) \<inter> net_ends (skc_net cfg) = {}"
    "distinct ?rest" "set (group_draws fr (skc_n cfg) g) \<inter> set ?rest = {}" "set ?rest \<inter> net_ends (skc_net cfg) = {}"
    using Suc.prems(4,5) unfolding up list.map concat.simps by auto
  obtain c1 where c1: "start_each fr [0..<skc_n c0] g c0 = Some c1" "group_ok g (skc_n c0) c1" "sizes c1 = sizes c0"
    "\<forall>h k. h \<noteq> g \<longrightarrow> group_ok h k c0 \<longrightarrow> group_ok h k c1"
    "net_ends (skc_net c1) = net_ends (skc_net c0) \<union> set (group_draws fr (skc_n cfg) g)"
    using start_each_ok[OF n0(5) _ g0] f(1,2) Suc.prems(7) n0 unfolding group_draws_def by auto
  have n1: "skc_n c1 = skc_n cfg" "skc_nmasters c1 = skc_nmasters cfg" "length (skc_groups c1) = Suc g" "draws_fit c1 fr"
    using c1(3) n0 by (simp_all add: draws_fit_def)
  have "\<forall>h<Suc g. group_ok h (skc_n cfg) c1" using c1(2,4) old n0(1) by (auto simp: less_Suc_eq)
  moreover have "set ?rest \<inter> net_ends (skc_net c1) = {}" unfolding c1(5) n0(3) using f(4,5) by auto
  ultimately have "\<exists>cfg'. make_group_loop fr [Suc g..<G] c1 = Some cfg' \<and> skc_n cfg' = skc_n c1 \<and> skc_nmasters cfg' = skc_nmasters c1 \<and>
      (\<forall>h<G. group_ok h (skc_n c1) cfg')"
    using Suc.hyps(2) g Suc.prems(7) f(3) n1 by (intro Suc.hyps(1)) auto
  moreover have "make_group_loop fr [g..<G] cfg = make_group_loop fr [Suc g..<G] c1"
    unfolding up using c1(1) n0(1) by (simp add: c0_def[symmetric] Let_def)
  ultimately show ?case using n1 by auto
qed simp

lemma StartMasterServer_ok:
  assumes "length names = skc_nmasters cfg" "distinct names" "set names \<inter> net_ends (skc_net cfg) = {}" "i < length (skc_masterservers cfg)"
  shows "\<exists>cfg'. StartMasterServer names sa cfg i = Some cfg' \<and> sizes cfg' = sizes cfg \<and>
    length (skc_masterservers cfg') = length (skc_masterservers cfg) \<and> net_ends (skc_net cfg') = net_ends (skc_net cfg) \<union> set names"
proof -
  let ?xs = "zip names (map mastername [0..<skc_nmasters cfg])"
  have m: "map fst ?xs = names" using assms(1) by simp
  obtain net where "open_ends ?xs (skc_net cfg) = Some net" "net_ends net = net_ends (skc_net cfg) \<union> set names"
    using open_ends_spec[of ?xs "skc_net cfg"] assms(2,3) unfolding m by blast
  then show ?thesis using assms(4) by (simp add: StartMasterServer_def upd_at_def AddServer_def)
qed

lemma start_masters_ok:
  "\<forall>i\<in>set is. length (fst (mfr i)) = skc_nmasters cfg \<and> i < length (skc_masterservers cfg) \<Longrightarrow>
    distinct (concat (map (\<lambda>i. fst (mfr i)) is)) \<Longrightarrow> set (concat (map (\<lambda>i. fst (mfr i)) is)) \<inter> net_ends (skc_net cfg) = {} \<Longrightarrow>
    \<exists>cfg'. start_masters mfr is cfg = Some cfg' \<and> sizes cfg' = sizes cfg \<and> skc_groups cfg' = skc_groups cfg \<and>
      net_ends (skc_net cfg') = net_ends (skc_net cfg) \<union> set (concat (map (\<lambda>i. fst (mfr i)) is))"
proof (induction "is" arbitrary: cfg)
  case (Cons i "is")
  let ?rest = "concat (map (\<lambda>i. fst (mfr i)) is)"
  have f: "distinct (fst (mfr i))" "set (fst (mfr i)) \<inter> net_ends (skc_net cfg) = {}" "distinct ?rest"
    "set (fst (mfr i)) \<inter> set ?rest = {}" "set ?rest \<inter> net_ends (skc_net cfg) = {}"
    using Cons.prems(2,3) unfolding list.map concat.simps by auto
  obtain c1 where c1: "StartMasterServer (fst (mfr i)) (snd (mfr i)) cfg i = Some c1" "sizes c1 = sizes cfg"
    "length (skc_masterservers c1) = length (skc_masterservers cfg)" "net_ends (skc_net c1) = net_ends (skc_net cfg) \<union> set (fst (mfr i))"
    using StartMasterServer_ok[of "fst (mfr i)" cfg i "snd (mfr i)"] Cons.prems(1) f(1,2) by auto
  have gs: "skc_groups c1 = skc_groups cfg" using c1(1) by (auto simp: StartMasterServer_def bind_Some_iff)
  have "\<exists>cfg'. start_masters mfr is c1 = Some cfg' \<and> sizes cfg' = sizes c1 \<and> skc_groups cfg' = skc_groups c1 \<and>
      net_ends (skc_net cfg') = net_ends (skc_net c1) \<union> set ?rest"
  proof (rule Cons.IH)
    show "set ?rest \<inter> net_ends (skc_net c1) = {}" unfolding c1(4) using f(4,5) by auto
    show "\<forall>i\<in>set is. length (fst (mfr i)) = skc_nmasters c1 \<and> i < length (skc_masterservers c1)"
      using Cons.prems(1) c1(2,3) by simp
  qed (rule f(3))
  then obtain cfg' where "start_masters mfr is c1 = Some cfg'" "sizes cfg' = sizes c1" "skc_groups cfg' = skc_groups c1"
      "net_ends (skc_net cfg') = net_ends (skc_net c1) \<union> set ?rest" by blast
  then show ?case using c1 gs by (simp add: Un_assoc)
qed simp

text \<open>A server beyond the array \<^verbatim>\<open>mendnames\<close> cannot be started.\<close>

lemma start_each_panics:
  "gi < length (skc_groups cfg) \<Longrightarrow> k \<in> set is \<Longrightarrow> length (g_mendnames (skc_groups cfg ! gi)) \<le> k \<Longrightarrow> start_each fr is gi cfg = None"
proof (induction "is" arbitrary: cfg)
  case (Cons i "is")
  obtain names mnames sa where fr: "fr gi i = (names, mnames, sa)" by (cases "fr gi i") auto
  have gg: "at (skc_groups cfg) (int gi) = Some (skc_groups cfg ! gi)" using Cons.prems(1) by (simp add: at_def)
  show ?case
  proof (cases "skc_StartServer names mnames sa cfg gi i")
    case (Some c1)
    then have i: "i < length (g_mendnames (skc_groups cfg ! gi))"
      and c1: "length (skc_groups c1) = length (skc_groups cfg)"
        "length (g_mendnames (skc_groups c1 ! gi)) = length (g_mendnames (skc_groups cfg ! gi))"
      using gg Cons.prems(1) by (auto simp: skc_StartServer_def bind_Some_iff upd_at_def Let_def split: if_splits)
    then have "k \<in> set is" using Cons.prems(2,3) by auto
    with Cons.IH[of c1] Cons.prems c1 have "start_each fr is gi c1 = None" by simp
    then show ?thesis using Some fr by simp
  qed (simp add: fr)
qed simp

lemma client_ends_result:
  "j + length names \<le> length endnames \<Longrightarrow> distinct names \<Longrightarrow> set names \<inter> net_ends net = {} \<Longrightarrow> client_ends j names endnames net \<noteq> None"
  "length endnames < j + length names \<Longrightarrow> names \<noteq> [] \<Longrightarrow> client_ends j names endnames net = None"
proof (induction j names endnames net rule: client_ends.induct)
  case (2 j name names endnames net)
  have e: "net_ends net' = insert name (net_ends net)" if "open_end name s net = Some net'" for s net'
    using that by (auto simp: open_end_def MakeEnd_def Enable_def Connect_def bind_Some_iff split: if_splits)
  {
    case 1
    then have "\<exists>net'. open_end name (mastername j) net = Some net'" by (simp add: open_end_def MakeEnd_def)
    then obtain net' where net': "open_end name (mastername j) net = Some net'" by blast
    have "client_ends (j + 1) names (endnames[j := name]) net' \<noteq> None"
      using 1 e[OF net'] by (intro "2.IH"(1)[OF _ net']) (auto simp: upd_at_def)
    then show ?case using 1 net' by (simp add: upd_at_def)
  next
    case 2
    show ?case
    proof (cases "j < length endnames")
      case True
      then have "names \<noteq> []" using 2 by auto
      then have "client_ends (j + 1) names (endnames[j := name]) net' = None" if "open_end name (mastername j) net = Some net'" for net'
        using 2 True by (intro "2.IH"(2)[OF _ that]) (auto simp: upd_at_def)
      then show ?thesis using True by (cases "open_end name (mastername j) net") (simp_all add: upd_at_def)
    qed (simp add: upd_at_def)
  }
qed simp_all

section \<open>Properties\<close>

text \<open>The names that \<^verbatim>\<open>make_config\<close> draws, in order; they have the lengths of the arrays and do not repeat.\<close>

definition good_draws :: "nat \<Rightarrow> (nat \<Rightarrow> string list \<times> saddr) \<Rightarrow> string list \<Rightarrow> fresh \<Rightarrow> bool" where
  "good_draws n mfr cknames fr \<longleftrightarrow> (\<forall>i<3. length (fst (mfr i)) = 3) \<and> length cknames = 3 \<and>
     (\<forall>gi i. length (fst (fr gi i)) = n \<and> length (fst (snd (fr gi i))) = 3) \<and>
     distinct (concat (map (\<lambda>i. fst (mfr i)) [0..<3]) @ cknames @ concat (map (group_draws fr n) [0..<3]))"

lemma skc_make_config_masters:
  assumes "good_draws n mfr cknames fr"
  shows "\<exists>c. skc_n c = n \<and> skc_nmasters c = 3 \<and> skc_groups c = [] \<and>
    net_ends (skc_net c) = set (concat (map (\<lambda>i. fst (mfr i)) [0..<3])) \<union> set cknames \<and>
    skc_make_config mfr cknames fr now n unreliable maxraftstate = do {
      cfg \<leftarrow> make_group_loop fr [0..<3] c;
      Some (cfg\<lparr>skc_clerks := Map.empty, skc_nextClientId := int (skc_n cfg) + 1000, skc_net := Reliable (skc_net cfg) (\<not> unreliable)\<rparr>) }"
proof -
  let ?c = "\<lparr>skc_net = MakeNetwork, skc_start = now, skc_nmasters = 3, skc_masterservers = replicate 3 None, skc_mck = [],
       skc_ngroups = 0, skc_n = 0, skc_groups = [], skc_clerks = Map.empty, skc_nextClientId = 0, skc_maxraftstate = maxraftstate\<rparr> :: 'a skcfg"
  let ?M = "concat (map (\<lambda>i. fst (mfr i)) [0..<3])"
  have d: "distinct ?M" "distinct cknames" "set ?M \<inter> set cknames = {}" "length cknames = 3" "\<forall>i<3. length (fst (mfr i)) = 3"
    using assms by (auto simp: good_draws_def)
  have "\<exists>c1. start_masters mfr [0..<3] ?c = Some c1 \<and> sizes c1 = sizes ?c \<and> skc_groups c1 = skc_groups ?c \<and>
      net_ends (skc_net c1) = net_ends (skc_net ?c) \<union> set ?M"
    using d by (intro start_masters_ok) (auto simp: MakeNetwork_def)
  then obtain c1 where c1: "start_masters mfr [0..<3] ?c = Some c1" "skc_nmasters c1 = 3" "skc_groups c1 = []" "net_ends (skc_net c1) = set ?M"
    by (auto simp: MakeNetwork_def)
  let ?xs = "zip cknames (map mastername [0..<3])"
  have m: "map fst ?xs = cknames" using d(4) by simp
  obtain net where net: "open_ends ?xs (skc_net c1) = Some net" "net_ends net = set ?M \<union> set cknames"
    using open_ends_spec[of ?xs "skc_net c1"] d(2,3) c1(4) unfolding m by (auto simp: Int_commute)
  have sc: "shardclerk cknames c1 = Some (c1\<lparr>skc_net := net\<rparr>, cknames)" using net(1) c1(2) by (simp add: shardclerk_def)
  define c where "c = c1\<lparr>skc_net := net, skc_mck := cknames, skc_ngroups := 3, skc_n := n\<rparr>"
  have "skc_make_config mfr cknames fr now n unreliable maxraftstate = do {
      cfg \<leftarrow> make_group_loop fr [0..<3] c;
      Some (cfg\<lparr>skc_clerks := Map.empty, skc_nextClientId := int (skc_n cfg) + 1000, skc_net := Reliable (skc_net cfg) (\<not> unreliable)\<rparr>) }"
    using c1(1) sc by (simp add: skc_make_config_def Let_def c_def)
  then show ?thesis using c1(2,3) net(2) by (intro exI[of _ c]) (simp add: c_def)
qed

text \<open>
  \<^bold>\<open>C26\<close>. make_config of shardkv panics when a group has more than three servers, because an array of the
  length of the masters is indexed by servers; with at most three it starts three groups, and then
  makeClient panics unless a group has exactly three servers.
\<close>

theorem needs_three_servers:
  assumes d: "good_draws n mfr cknames fr"
  shows "(3 < n \<longrightarrow> (skc_make_config mfr cknames fr now n unreliable maxraftstate :: 'c skcfg option) = None) \<and>
    (n \<le> 3 \<longrightarrow> (\<exists>cfg :: 'c skcfg. skc_make_config mfr cknames fr now n unreliable maxraftstate = Some cfg \<and> (\<forall>gi<3. group_ok gi n cfg) \<and>
      (\<forall>names ck. length names = 3 \<and> distinct names \<and> set names \<inter> net_ends (skc_net cfg) = {} \<longrightarrow>
        (skc_makeClient names ck cfg \<noteq> None \<longleftrightarrow> n = 3))))"
proof -
  obtain c :: "'c skcfg" where c: "skc_n c = n" "skc_nmasters c = 3" "skc_groups c = []"
      "net_ends (skc_net c) = set (concat (map (\<lambda>i. fst (mfr i)) [0..<3])) \<union> set cknames"
      "skc_make_config mfr cknames fr now n unreliable maxraftstate = do {
        cfg \<leftarrow> make_group_loop fr [0..<3] c;
        Some (cfg\<lparr>skc_clerks := Map.empty, skc_nextClientId := int (skc_n cfg) + 1000, skc_net := Reliable (skc_net cfg) (\<not> unreliable)\<rparr>) }"
    using skc_make_config_masters[OF d, of now unreliable maxraftstate] by blast
  have G: "distinct (concat (map (group_draws fr n) [0..<3]))" "set (concat (map (group_draws fr n) [0..<3])) \<inter> net_ends (skc_net c) = {}"
    using d unfolding good_draws_def c(4) by auto
  show ?thesis
  proof (intro conjI impI)
    assume "3 < n"
    let ?c0 = "c\<lparr>skc_groups := skc_groups c @ [new_group c 0]\<rparr>"
    have "start_each fr [0..<skc_n c] 0 ?c0 = None"
      by (rule start_each_panics[where k = 3]) (use \<open>3 < n\<close> c in \<open>simp_all add: new_group_def\<close>)
    then have "make_group_loop fr [0..<3] c = None" by (simp add: upt_conv_Cons numeral_3_eq_3 Let_def)
    then show "skc_make_config mfr cknames fr now n unreliable maxraftstate = (None :: 'c skcfg option)" using c(5) by simp
  next
    assume n: "n \<le> 3"
    have "draws_fit c fr" using d c(1,2) by (simp add: good_draws_def draws_fit_def)
    then obtain c' where c': "make_group_loop fr [0..<3] c = Some c'" "skc_n c' = n" "\<forall>h<3. group_ok h n c'"
      using make_group_loop_ok[of c fr 0 3] n G c(1-3) by auto
    define cfg where "cfg = c'\<lparr>skc_clerks := Map.empty, skc_nextClientId := int n + 1000, skc_net := Reliable (skc_net c') (\<not> unreliable)\<rparr>"
    have "group_ok gi n cfg" if "gi < 3" for gi using c'(3) that by (simp add: cfg_def group_ok_def)
    moreover have "skc_makeClient names ck cfg \<noteq> None \<longleftrightarrow> n = 3"
      if "length names = 3 \<and> distinct names \<and> set names \<inter> net_ends (skc_net cfg) = {}" for names ck
    proof -
      have "names \<noteq> []" using that by auto
      moreover have "skc_n cfg = n" using c'(2) by (simp add: cfg_def)
      ultimately show ?thesis
        using client_ends_result[where j = 0 and names = names and endnames = "replicate n []" and net = "skc_net cfg"] that n by (cases "n = 3") (auto simp: skc_makeClient_def)
    qed
    moreover have "skc_make_config mfr cknames fr now n unreliable maxraftstate = Some cfg" using c(5) c'(1,2) by (simp add: cfg_def)
    ultimately show "\<exists>cfg :: 'c skcfg. skc_make_config mfr cknames fr now n unreliable maxraftstate = Some cfg \<and> (\<forall>gi<3. group_ok gi n cfg) \<and>
      (\<forall>names ck. length names = 3 \<and> distinct names \<and> set names \<inter> net_ends (skc_net cfg) = {} \<longrightarrow>
        (skc_makeClient names ck cfg \<noteq> None \<longleftrightarrow> n = 3))" by blast
  qed
qed

lemma switch_off_frame:
  "net_servers (switch_off names net) = net_servers net" "net_connections (switch_off names net) = net_connections net"
  "net_ends (switch_off names net) = net_ends net"
  "net_enabled (switch_off names net) e = (e \<notin> set names \<and> net_enabled net e)"
  unfolding switch_off_def by (induction names arbitrary: net) (auto simp: Enable_def)

theorem group_server_restart:
  assumes down: "skc_ShutdownServer cfg gi i = Some (cfg1, old)" and up: "skc_StartServer names mnames sa cfg1 gi i = Some cfg2"
    and gg: "gg = skc_groups cfg ! gi" "0 \<le> g_gid gg" "g_saved gg ! i = Some p"
  shows "old = map_option ShardKV_Kill (g_servers gg ! i) \<and>
    (\<forall>e meth args d ws net'. net_connections (skc_net cfg1) e = Some (servername (g_gid gg) i) \<longrightarrow>
      (\<exists>dv. processReq (skc_net cfg1) \<lparr>req_endname = e, req_svcMeth = meth, req_args = args\<rparr> d ws net' = Some dv \<and> dv_msg dv = no_reply)) \<and>
    (\<forall>h j. 0 \<le> h \<longrightarrow> (h, j) \<noteq> (g_gid gg, i) \<longrightarrow> net_servers (skc_net cfg1) (servername h j) = net_servers (skc_net cfg) (servername h j)) \<and>
    (\<exists>kv. g_servers (skc_groups cfg2 ! gi) ! i = Some kv \<and> net_servers (skc_net cfg2) (servername (g_gid gg) i) = Some sa \<and>
      ReadRaftState (persister (sk_rf kv)) = ReadRaftState p \<and> ReadSnapshot (persister (sk_rf kv)) = ReadSnapshot p)"
proof -
  let ?name = "servername (g_gid gg) i"
  have gi: "gi < length (skc_groups cfg)" "at (skc_groups cfg) (int gi) = Some gg" and i: "i < length (g_saved gg)" "i < length (g_servers gg)"
    using down gg(1) by (auto simp: skc_ShutdownServer_def bind_Some_iff at_def Let_def split: if_splits)
  obtain out mout where c1: "cfg1 = cfg\<lparr>skc_net := DeleteServer (switch_off mout (switch_off out (skc_net cfg))) ?name,
      skc_groups := (skc_groups cfg)[gi := gg\<lparr>g_saved := (g_saved gg)[i := Some (Copy p)], g_servers := (g_servers gg)[i := None]\<rparr>]\<rparr>"
    and old: "old = map_option ShardKV_Kill (g_servers gg ! i)"
    using down gi(2) i gg(3) by (auto simp: skc_ShutdownServer_def bind_Some_iff at_def Let_def split: if_splits)
  have srv1: "net_servers (skc_net cfg1) = (net_servers (skc_net cfg))(?name := None)"
    by (simp add: c1 DeleteServer_def switch_off_frame)
  define g1 where "g1 = gg\<lparr>g_saved := (g_saved gg)[i := Some (Copy p)], g_servers := (g_servers gg)[i := None]\<rparr>"
  have g1: "at (skc_groups cfg1) (int gi) = Some g1" "g_gid g1 = g_gid gg" "at (g_saved g1) (int i) = Some (Some (Copy p))" "length (g_servers g1) = length (g_servers gg)"
    using gi i by (simp_all add: c1 at_def g1_def)
  obtain net rows mrows where c2: "cfg2 = cfg1\<lparr>skc_net := AddServer net ?name sa, skc_groups := (skc_groups cfg1)[gi := g1\<lparr>g_endnames := rows, g_mendnames := mrows,
      g_saved := (g_saved g1)[i := Some (Copy (Copy p))],
      g_servers := (g_servers g1)[i := Some (ShardKV_StartServer (skc_n cfg1) i (Copy (Copy p)) (skc_maxraftstate cfg1) (g_gid gg))]\<rparr>]\<rparr>"
    using up g1 i by (auto simp: skc_StartServer_def bind_Some_iff upd_at_def Let_def)
  have "g_servers (skc_groups cfg2 ! gi) ! i = Some (ShardKV_StartServer (skc_n cfg1) i (Copy (Copy p)) (skc_maxraftstate cfg1) (g_gid gg))"
    "net_servers (skc_net cfg2) ?name = Some sa"
    using gi(1) i(2) g1(4) by (simp_all add: c2 c1 AddServer_def)
  moreover have "\<exists>dv. processReq (skc_net cfg1) \<lparr>req_endname = e, req_svcMeth = meth, req_args = args\<rparr> d ws net' = Some dv \<and> dv_msg dv = no_reply"
    if "net_connections (skc_net cfg1) e = Some ?name" for e meth args d ws net'
    using that srv1 by (auto simp: processReq_def processReq_begin_def readEndnameInfo_def Let_def split: bool.splits)
  moreover have "net_servers (skc_net cfg1) (servername h j) = net_servers (skc_net cfg) (servername h j)" if "0 \<le> h" "(h, j) \<noteq> (g_gid gg, i)" for h j
    using that srv1 servername_inj[OF that(1) gg(2)] by auto
  ultimately show ?thesis using old
    by (auto simp: ShardKV_StartServer_def Make_def readPersist_def persister_defs Let_def)
qed


section \<open>Examples\<close>

text \<open>Names that do not repeat: a letter for the kind, then group, server and place.\<close>

definition demo_mfr :: "nat \<Rightarrow> string list \<times> saddr" where
  "demo_mfr i = (map (\<lambda>j. ''m'' @ itoa (int i) @ ''-'' @ itoa (int j)) [0..<3], i)"

definition demo_fr :: "nat \<Rightarrow> fresh" where
  "demo_fr n gi i = (map (\<lambda>j. ''s'' @ itoa (int gi) @ ''-'' @ itoa (int i) @ ''-'' @ itoa (int j)) [0..<n],
     map (\<lambda>j. ''t'' @ itoa (int gi) @ ''-'' @ itoa (int i) @ ''-'' @ itoa (int j)) [0..<3], 10 * gi + i)"

lemma demo_draws: "good_draws 3 demo_mfr [''x'', ''y'', ''z''] (demo_fr 3)"
proof -
  have "itoa 0 = ''0''" "itoa 1 = ''1''" "itoa 2 = ''2''" by code_simp+
  moreover have "[0..<3] = [0, 1, 2]" by (simp add: upt_conv_Cons numeral_3_eq_3 numeral_2_eq_2)
  ultimately show ?thesis
    by (simp add: good_draws_def demo_mfr_def demo_fr_def group_draws_def drawn_def)
qed

theorem needs_three_servers_witness:
  "\<exists>cfg :: nat skcfg. skc_make_config demo_mfr [''x'', ''y'', ''z''] (demo_fr 3) 0 3 False 1000 = Some cfg \<and> (\<forall>gi<3. group_ok gi 3 cfg)"
  using needs_three_servers[OF demo_draws, of 0 False 1000] by auto

definition demo_group :: "nat skcfg" where
  "demo_group = \<lparr>skc_net = MakeNetwork, skc_start = 0, skc_nmasters = 1, skc_masterservers = [None], skc_mck = [], skc_ngroups = 1, skc_n = 1,
     skc_groups = [\<lparr>g_gid = 100, g_servers = [Some (ShardKV_StartServer 1 0 (SaveStateAndSnapshot MakePersister [5] [6]) 1000 100)],
       g_saved = [Some (SaveStateAndSnapshot MakePersister [5] [6])], g_endnames = [Some [''a'']], g_mendnames = [Some [''b'']]\<rparr>],
     skc_clerks = Map.empty, skc_nextClientId = 1001, skc_maxraftstate = 1000\<rparr>"

theorem group_server_restart_witness:
  "\<exists>cfg1 old cfg2 kv. skc_ShutdownServer demo_group 0 0 = Some (cfg1, old) \<and> skc_StartServer [''c''] [''d''] 9 cfg1 0 0 = Some cfg2 \<and>
    g_servers (skc_groups cfg2 ! 0) ! 0 = Some kv \<and> ReadRaftState (persister (sk_rf kv)) = [5] \<and> ReadSnapshot (persister (sk_rf kv)) = [6]"
proof -
  obtain cfg1 old where d: "skc_ShutdownServer demo_group 0 0 = Some (cfg1, old)"
    by (simp add: skc_ShutdownServer_def demo_group_def at_def Let_def)
  then have "\<exists>cfg2. skc_StartServer [''c''] [''d''] 9 cfg1 0 0 = Some cfg2"
    by (auto simp: skc_ShutdownServer_def skc_StartServer_def demo_group_def at_def upd_at_def Let_def open_end_def MakeEnd_def
        DeleteServer_def switch_off_def Enable_def Connect_def MakeNetwork_def)
  then obtain cfg2 where u: "skc_StartServer [''c''] [''d''] 9 cfg1 0 0 = Some cfg2" by blast
  have g: "0 \<le> g_gid (skc_groups demo_group ! 0)" "g_saved (skc_groups demo_group ! 0) ! 0 = Some (SaveStateAndSnapshot MakePersister [5] [6])"
    by (simp_all add: demo_group_def)
  from group_server_restart[OF d u refl g] d u show ?thesis by (auto simp: persister_defs)
qed

end
