(* ===== verification/Master.thy ===== *)
theory Master
  imports Prelude
begin

text \<open>
  The coordinator of \<^verbatim>\<open>mr/master.go\<close>.  Every RPC handler holds the lock for its whole body, so it is
  one function of the record \<open>master\<close>.  The order in which Go ranges over the map \<^verbatim>\<open>mmap\<close> is the
  argument \<open>order\<close>, the value of \<^verbatim>\<open>time.Now()\<close> the argument \<open>now\<close> (nanoseconds); the zero
  \<^verbatim>\<open>time.Time\<close> is \<open>None\<close>.  The listening socket of \<^verbatim>\<open>server\<close> is not modelled.
\<close>

section \<open>State and messages\<close>

record master =
  mmap :: "string \<rightharpoonup> int" \<comment> \<open>-1 not started, 1 started, 2 finished\<close>
  rtask :: "int list"
  NReduce :: int
  nextId :: int
  mdone :: bool
  rdone :: bool
  f2id :: "string \<rightharpoonup> int"
  mstart :: "string \<Rightarrow> int option"
  rstart :: "int option list"

record MrArgs =
  arg_TaskType :: int
  arg_TaskName :: string
  arg_WorkerId :: int
  arg_TaskId :: int

record MrReply =
  TaskName :: string
  rep_NReduce :: int
  WorkerId :: int
  TaskId :: int
  TaskType :: int
  MapId :: int

definition empty_reply :: MrReply where
  "empty_reply = \<lparr>TaskName = '''', rep_NReduce = 0, WorkerId = 0, TaskId = 0, TaskType = 0, MapId = 0\<rparr>"

section \<open>Handlers\<close>

definition TaskFinish :: "master \<Rightarrow> MrArgs \<Rightarrow> master option" where
  "TaskFinish m args =
    (if arg_TaskType args = 1 then Some (m\<lparr>mmap := (mmap m)(arg_TaskName args \<mapsto> 2)\<rparr>)
     else if arg_TaskType args = 2 then do {
       tasks \<leftarrow> upd_at (rtask m) (arg_TaskId args) 2;
       Some (m\<lparr>rtask := tasks\<rparr>) }
     else Some m)"

definition timeout_ns :: int where
  "timeout_ns = 5 * 1000000000"

definition expired :: "int \<Rightarrow> int option \<Rightarrow> bool" where
  "expired now start = (case start of None \<Rightarrow> False | Some t \<Rightarrow> now - t > timeout_ns)"

fun mIsFinished :: "string list \<Rightarrow> int \<Rightarrow> master \<Rightarrow> master" where
  "mIsFinished [] now m = m\<lparr>mdone := True\<rparr>"
| "mIsFinished (i # order) now m =
    (case mmap m i of
       Some v \<Rightarrow>
         if v \<noteq> 2 then
           if v = 1 \<and> expired now (mstart m i)
           then m\<lparr>mmap := (mmap m)(i \<mapsto> -1), mstart := (mstart m)(i := None)\<rparr>
           else m
         else mIsFinished order now m
     | None \<Rightarrow> mIsFinished order now m)"

fun rIsFinished :: "nat \<Rightarrow> int list \<Rightarrow> int \<Rightarrow> master \<Rightarrow> master" where
  "rIsFinished i [] now m = m\<lparr>rdone := True\<rparr>"
| "rIsFinished i (v # vs) now m =
    (if v \<noteq> 2 then
       if v = 1 \<and> expired now (rstart m ! i)
       then m\<lparr>rtask := (rtask m)[i := -1], rstart := (rstart m)[i := None]\<rparr>
       else m
     else rIsFinished (i + 1) vs now m)"

fun first_map :: "string list \<Rightarrow> (string \<rightharpoonup> int) \<Rightarrow> string option" where
  "first_map [] mm = None"
| "first_map (i # order) mm = (if mm i = Some (-1) then Some i else first_map order mm)"

fun first_reduce :: "nat \<Rightarrow> int list \<Rightarrow> nat option" where
  "first_reduce i [] = None"
| "first_reduce i (v # vs) = (if v = -1 then Some i else first_reduce (i + 1) vs)"

definition GiveTask :: "string list \<Rightarrow> int \<Rightarrow> master \<Rightarrow> MrArgs \<Rightarrow> master \<times> MrReply" where
  "GiveTask order now m args =
    (let (m, reply) = (if arg_WorkerId args = 0
            then (m\<lparr>nextId := nextId m + 1\<rparr>, empty_reply\<lparr>WorkerId := nextId m\<rparr>) else (m, empty_reply))
     in if \<not> mdone m then
          (case first_map order (mmap m) of
             Some i \<Rightarrow>
               (m\<lparr>mstart := (mstart m)(i := Some now), mmap := (mmap m)(i \<mapsto> 1)\<rparr>,
                reply\<lparr>TaskName := i, MapId := (case f2id m i of Some k \<Rightarrow> k | None \<Rightarrow> 0), TaskType := 1,
                      rep_NReduce := NReduce m\<rparr>)
           | None \<Rightarrow> (mIsFinished order now m, reply))
        else if mdone m \<and> \<not> rdone m then
          (case first_reduce 0 (rtask m) of
             Some i \<Rightarrow>
               (m\<lparr>rstart := (rstart m)[i := Some now], rtask := (rtask m)[i := 1]\<rparr>,
                reply\<lparr>TaskId := int i, TaskType := 2, rep_NReduce := NReduce m\<rparr>)
           | None \<Rightarrow> (rIsFinished 0 (rtask m) now m, reply))
        else (m, reply))"

definition Done :: "master \<Rightarrow> bool" where
  "Done m = (mdone m \<and> rdone m)"

fun number_files :: "nat \<Rightarrow> string list \<Rightarrow> (string \<rightharpoonup> int) \<Rightarrow> (string \<rightharpoonup> int)" where
  "number_files i [] f = f"
| "number_files i (v # files) f = number_files (i + 1) files (f(v \<mapsto> int i))"

text \<open>A negative \<^verbatim>\<open>nReduce\<close> makes \<^verbatim>\<open>make\<close> panic.\<close>

definition MakeMaster :: "string list \<Rightarrow> int \<Rightarrow> master option" where
  "MakeMaster files nReduce =
    (if nReduce < 0 then None
     else Some \<lparr>mmap = (\<lambda>f. if f \<in> set files then Some (-1) else None), rtask = replicate (nat nReduce) (-1),
       NReduce = nReduce, nextId = 1, mdone = False, rdone = False, f2id = number_files 0 files Map.empty,
       mstart = (\<lambda>_. None), rstart = replicate (nat nReduce) None\<rparr>)"

section \<open>Invariant\<close>

definition task_state :: "int \<Rightarrow> bool" where
  "task_state v \<longleftrightarrow> v = -1 \<or> v = 1 \<or> v = 2"

definition master_ok :: "master \<Rightarrow> bool" where
  "master_ok m \<longleftrightarrow> (\<forall>f v. mmap m f = Some v \<longrightarrow> task_state v) \<and> (\<forall>v\<in>set (rtask m). task_state v) \<and>
     length (rstart m) = length (rtask m) \<and> int (length (rtask m)) = NReduce m \<and>
     (mdone m \<longrightarrow> (\<forall>f v. mmap m f = Some v \<longrightarrow> v = 2)) \<and>
     (rdone m \<longrightarrow> mdone m \<and> (\<forall>v\<in>set (rtask m). v = 2))"

definition ranges_over :: "string list \<Rightarrow> master \<Rightarrow> bool" where
  "ranges_over order m \<longleftrightarrow> distinct order \<and> set order = dom (mmap m)"

lemma first_map_SomeD: "first_map order mm = Some i \<Longrightarrow> i \<in> set order \<and> mm i = Some (-1)"
  by (induction order) (auto split: if_splits)

lemma first_map_NoneD: "first_map order mm = None \<Longrightarrow> i \<in> set order \<Longrightarrow> mm i \<noteq> Some (-1)"
  by (induction order) (auto split: if_splits)

lemma first_reduce_SomeD: "first_reduce k vs = Some i \<Longrightarrow> k \<le> i \<and> i < k + length vs \<and> vs ! (i - k) = -1"
proof (induction vs arbitrary: k)
  case (Cons v vs)
  show ?case
  proof (cases "v = -1")
    case False
    with Cons.prems have "first_reduce (k + 1) vs = Some i" by simp
    from Cons.IH[OF this] have "k + 1 \<le> i" "i < k + 1 + length vs" "vs ! (i - (k + 1)) = -1" by auto
    moreover have "i - k = Suc (i - (k + 1))" using \<open>k + 1 \<le> i\<close> by simp
    ultimately show ?thesis by simp
  qed (use Cons.prems in auto)
qed simp

lemma first_reduce_NoneD: "first_reduce k vs = None \<Longrightarrow> v \<in> set vs \<Longrightarrow> v \<noteq> -1"
  by (induction vs arbitrary: k) (auto split: if_splits)

lemma mIsFinished_cases:
  assumes "set order \<subseteq> dom (mmap m)"
  shows "(mIsFinished order now m = m\<lparr>mdone := True\<rparr> \<and> (\<forall>i\<in>set order. mmap m i = Some 2)) \<or>
    (mIsFinished order now m = m \<and> (\<exists>i\<in>set order. mmap m i \<noteq> Some 2)) \<or>
    (\<exists>i\<in>set order. mmap m i = Some 1 \<and> expired now (mstart m i) \<and>
       mIsFinished order now m = m\<lparr>mmap := (mmap m)(i \<mapsto> -1), mstart := (mstart m)(i := None)\<rparr>)"
  using assms
proof (induction order)
  case (Cons i order)
  then obtain v where v: "mmap m i = Some v" by auto
  show ?case
  proof (cases "v = 2")
    case True
    then have s: "mIsFinished (i # order) now m = mIsFinished order now m" using v by simp
    have "set order \<subseteq> dom (mmap m)" using Cons.prems by simp
    from Cons.IH[OF this] show ?thesis unfolding s using True v by (elim disjE) auto
  next
    case False
    show ?thesis
    proof (cases "v = 1 \<and> expired now (mstart m i)")
      case True
      with v show ?thesis by (intro disjI2 bexI[of _ i]) (simp_all add: fun_upd_def)
    next
      case no: False
      with v False have "mIsFinished (i # order) now m = m" by (simp split: if_splits) blast
      with v False show ?thesis by (intro disjI2 disjI1 conjI bexI[of _ i]) simp_all
    qed
  qed
qed simp

lemma rIsFinished_cases:
  "(rIsFinished k vs now m = m\<lparr>rdone := True\<rparr> \<and> (\<forall>v\<in>set vs. v = 2)) \<or>
    (rIsFinished k vs now m = m \<and> (\<exists>v\<in>set vs. v \<noteq> 2)) \<or>
    (\<exists>i<length vs. vs ! i = 1 \<and> expired now (rstart m ! (k + i)) \<and>
       rIsFinished k vs now m = m\<lparr>rtask := (rtask m)[k + i := -1], rstart := (rstart m)[k + i := None]\<rparr>)"
proof (induction vs arbitrary: k)
  case (Cons v vs)
  show ?case
  proof (cases "v = 2")
    case True
    then have s: "rIsFinished k (v # vs) now m = rIsFinished (k + 1) vs now m" by simp
    from Cons.IH[of "k + 1"] show ?thesis
    proof (elim disjE exE conjE)
      fix i assume "i < length vs" "vs ! i = 1" "expired now (rstart m ! (k + 1 + i))"
        "rIsFinished (k + 1) vs now m = m\<lparr>rtask := (rtask m)[k + 1 + i := -1], rstart := (rstart m)[k + 1 + i := None]\<rparr>"
      then show ?thesis unfolding s by (intro disjI2 exI[of _ "Suc i"]) simp_all
    qed (use s True in simp_all)
  next
    case False
    show ?thesis
    proof (cases "v = 1 \<and> expired now (rstart m ! k)")
      case True
      then show ?thesis by (intro disjI2 exI[of _ 0]) simp_all
    next
      case no: False
      then have "rIsFinished k (v # vs) now m = m" using False by (simp split: if_splits) blast
      with False show ?thesis by (intro disjI2 disjI1 conjI bexI[of _ v]) simp_all
    qed
  qed
qed simp

lemma task_state_simps [simp]: "task_state (-1)" "task_state 1" "task_state 2"
  by (simp_all add: task_state_def)

lemma MakeMaster_ok: "MakeMaster files nReduce = Some m \<Longrightarrow> master_ok m"
  by (auto simp: MakeMaster_def master_ok_def split: if_splits)

lemma TaskFinish_ok:
  assumes "master_ok m" "TaskFinish m args = Some m'"
  shows "master_ok m'"
  using assms set_update_subset_insert[of "rtask m" "nat (arg_TaskId args)" 2]
  by (auto simp: TaskFinish_def master_ok_def upd_at_Some_iff bind_Some_iff split: if_splits)

lemma GiveTask_ok:
  assumes ok: "master_ok m" and o: "ranges_over order m" and g: "GiveTask order now m args = (m', reply)"
  shows "master_ok m'" "ranges_over order m'" "NReduce m' = NReduce m" "dom (mmap m') = dom (mmap m)"
proof -
  define m0 where "m0 = (if arg_WorkerId args = 0 then m\<lparr>nextId := nextId m + 1\<rparr> else m)"
  have ok0: "master_ok m0" "ranges_over order m0" "NReduce m0 = NReduce m" "dom (mmap m0) = dom (mmap m)"
    using ok o by (auto simp: m0_def master_ok_def ranges_over_def)
  have cases: "m' = m0 \<or>
    (\<exists>i. \<not> mdone m0 \<and> mmap m0 i = Some (-1) \<and> m' = m0\<lparr>mstart := (mstart m0)(i := Some now), mmap := (mmap m0)(i \<mapsto> 1)\<rparr>) \<or>
    (\<not> mdone m0 \<and> m' = mIsFinished order now m0) \<or>
    (\<exists>i. mdone m0 \<and> \<not> rdone m0 \<and> m' = m0\<lparr>rstart := (rstart m0)[i := Some now], rtask := (rtask m0)[i := 1]\<rparr>) \<or>
    (mdone m0 \<and> \<not> rdone m0 \<and> m' = rIsFinished 0 (rtask m0) now m0)"
    using g unfolding GiveTask_def m0_def
    by (auto simp: Let_def split: if_splits option.splits dest!: first_map_SomeD)
  have sub: "set order \<subseteq> dom (mmap m0)" using ok0(2) by (simp add: ranges_over_def)
  have upd: "set ((rtask m0)[i := v]) \<subseteq> insert v (set (rtask m0))" for i v by (rule set_update_subset_insert)
  have "master_ok m' \<and> dom (mmap m') = dom (mmap m0) \<and> NReduce m' = NReduce m0"
    using cases
  proof (elim disjE exE conjE)
    fix i assume "\<not> mdone m0" "mmap m0 i = Some (-1)"
      "m' = m0\<lparr>mstart := (mstart m0)(i := Some now), mmap := (mmap m0)(i \<mapsto> 1)\<rparr>"
    then show ?thesis using ok0(1) by (auto simp: master_ok_def)
  next
    assume "\<not> mdone m0" "m' = mIsFinished order now m0"
    moreover have "\<forall>f v. mmap m0 f = Some v \<longrightarrow> v = 2" if "\<forall>i\<in>set order. mmap m0 i = Some 2"
      using that ok0(2) by (force simp: ranges_over_def)
    ultimately show ?thesis using mIsFinished_cases[OF sub, of now] ok0(1)
      by (elim disjE bexE conjE) (simp_all add: master_ok_def dom_def, auto)
  next
    fix i assume "mdone m0" "\<not> rdone m0" "m' = m0\<lparr>rstart := (rstart m0)[i := Some now], rtask := (rtask m0)[i := 1]\<rparr>"
    then show ?thesis using ok0(1) upd[of i 1] by (auto simp: master_ok_def)
  next
    assume r: "mdone m0" "\<not> rdone m0" "m' = rIsFinished 0 (rtask m0) now m0"
    from rIsFinished_cases[of 0 "rtask m0" now m0] show ?thesis
    proof (elim disjE exE conjE)
      fix i assume "rIsFinished 0 (rtask m0) now m0 =
          m0\<lparr>rtask := (rtask m0)[0 + i := -1], rstart := (rstart m0)[0 + i := None]\<rparr>"
      then show ?thesis using r ok0(1) upd[of i "-1"] by (auto simp: master_ok_def)
    qed (use r ok0(1) in \<open>auto simp: master_ok_def\<close>)
  qed (use ok0(1) in simp)
  with ok0 show "master_ok m'" "ranges_over order m'" "NReduce m' = NReduce m" "dom (mmap m') = dom (mmap m)"
    by (auto simp: ranges_over_def)
qed

section \<open>One worker\<close>

text \<open>
  One turn of the loop of \<^verbatim>\<open>Worker\<close> in \<^verbatim>\<open>mr/worker.go\<close>, as the master sees it: ask for a task, do it,
  report it.
\<close>

definition worker_turn :: "string list \<Rightarrow> int \<Rightarrow> master \<Rightarrow> int \<Rightarrow> (master \<times> MrReply) option" where
  "worker_turn order now m ident =
    (let args = \<lparr>arg_TaskType = 0, arg_TaskName = '''', arg_WorkerId = ident, arg_TaskId = 0\<rparr>;
         (m, reply) = GiveTask order now m args
     in if TaskName reply \<noteq> '''' \<and> TaskType reply = 1 then do {
          m \<leftarrow> TaskFinish m (args\<lparr>arg_TaskType := 1, arg_TaskName := TaskName reply, arg_WorkerId := 0\<rparr>);
          Some (m, reply) }
        else if TaskType reply = 2 then do {
          m \<leftarrow> TaskFinish m (args\<lparr>arg_TaskType := 2, arg_TaskId := TaskId reply, arg_WorkerId := 0\<rparr>);
          Some (m, reply) }
        else Some (m, reply))"

fun work :: "nat \<Rightarrow> (nat \<Rightarrow> string list) \<Rightarrow> (nat \<Rightarrow> int) \<Rightarrow> master \<Rightarrow> int \<Rightarrow> master option" where
  "work 0 orders clock m ident = Some m"
| "work (Suc k) orders clock m ident = do {
     (m, reply) \<leftarrow> worker_turn (orders k) (clock k) m ident;
     work k orders clock m (if ident = 0 then WorkerId reply else ident) }"

definition idle_maps :: "master \<Rightarrow> string set" where
  "idle_maps m = {f. mmap m f = Some (-1)}"

definition left_to_do :: "master \<Rightarrow> nat" where
  "left_to_do m = card (idle_maps m) + count_list (rtask m) (-1) + (if mdone m then 0 else 1) + (if rdone m then 0 else 1)"

text \<open>Between the turns of a single worker no task is in progress.\<close>

definition settled :: "master \<Rightarrow> bool" where
  "settled m \<longleftrightarrow> finite (dom (mmap m)) \<and> (\<forall>f v. mmap m f = Some v \<longrightarrow> f \<noteq> '''' \<and> (v = -1 \<or> v = 2)) \<and>
     (\<forall>v\<in>set (rtask m). v = -1 \<or> v = 2) \<and> length (rstart m) = length (rtask m) \<and>
     (mdone m \<longrightarrow> (\<forall>f v. mmap m f = Some v \<longrightarrow> v = 2)) \<and> (rdone m \<longrightarrow> mdone m \<and> (\<forall>v\<in>set (rtask m). v = 2))"

text \<open>What one turn changes of the task tables, and what the worker was told to do.\<close>

definition turn_effect :: "master \<Rightarrow> master \<Rightarrow> MrReply \<Rightarrow> bool" where
  "turn_effect m m' reply \<longleftrightarrow> NReduce m' = NReduce m \<and> f2id m' = f2id m \<and> nextId m \<le> nextId m' \<and>
     ((TaskType reply = 1 \<and> TaskName reply \<noteq> '''' \<and> \<not> mdone m \<and> mmap m (TaskName reply) = Some (-1) \<and>
         MapId reply = (case f2id m (TaskName reply) of Some k \<Rightarrow> k | None \<Rightarrow> 0) \<and> rep_NReduce reply = NReduce m \<and>
         mmap m' = (mmap m)(TaskName reply \<mapsto> 2) \<and> rtask m' = rtask m) \<or>
      (TaskType reply = 2 \<and> mdone m \<and> (\<exists>i<length (rtask m). TaskId reply = int i \<and> rtask m ! i = -1 \<and>
         rtask m' = (rtask m)[i := 2]) \<and> mmap m' = mmap m) \<or>
      (TaskType reply = 0 \<and> mmap m' = mmap m \<and> rtask m' = rtask m))"

lemma count_list_upd:
  "i < length xs \<Longrightarrow> xs ! i = x \<Longrightarrow> y \<noteq> x \<Longrightarrow> Suc (count_list (xs[i := y]) x) = count_list xs x"
proof (induction xs arbitrary: i)
  case (Cons a xs)
  then show ?case by (cases i) auto
qed simp

lemma rIsFinished_all: "\<forall>v\<in>set vs. v = 2 \<Longrightarrow> rIsFinished k vs now m = m\<lparr>rdone := True\<rparr>"
  by (induction vs arbitrary: k) auto

lemma mIsFinished_all: "\<forall>i\<in>set order. mmap m i = Some 2 \<Longrightarrow> mIsFinished order now m = m\<lparr>mdone := True\<rparr>"
  by (induction order) auto

lemma turn_map:
  assumes s: "settled m" and o: "ranges_over order m" and d: "\<not> mdone m" and f: "first_map order (mmap m) = Some i"
  shows "\<exists>m' reply. worker_turn order now m ident = Some (m', reply) \<and> settled m' \<and> ranges_over order m' \<and>
    Suc (left_to_do m') = left_to_do m \<and> turn_effect m m' reply"
proof -
  have i: "mmap m i = Some (-1)" using first_map_SomeD[OF f] by simp
  define m' where "m' = m\<lparr>nextId := (if ident = 0 then nextId m + 1 else nextId m), mstart := (mstart m)(i := Some now),
      mmap := (mmap m)(i \<mapsto> 2)\<rparr>"
  have ne: "i \<noteq> ''''" using s i by (auto simp: settled_def)
  have "\<exists>reply. worker_turn order now m ident = Some (m', reply) \<and> turn_effect m m' reply"
    using d f ne i by (simp add: turn_effect_def worker_turn_def GiveTask_def empty_reply_def TaskFinish_def m'_def Let_def)
  moreover have "settled m'" using s d ne by (simp add: settled_def m'_def)
  moreover have "ranges_over order m'" using o i by (auto simp: ranges_over_def m'_def)
  moreover have "idle_maps m' = idle_maps m - {i}" "i \<in> idle_maps m" "finite (idle_maps m)"
    using i s finite_subset[of "idle_maps m" "dom (mmap m)"] by (auto simp: idle_maps_def m'_def settled_def)
  then have "Suc (card (idle_maps m')) = card (idle_maps m)" by (metis card_Suc_Diff1)
  then have "Suc (left_to_do m') = left_to_do m" by (simp add: left_to_do_def m'_def)
  ultimately show ?thesis by blast
qed

lemma turn_maps_done:
  assumes s: "settled m" and o: "ranges_over order m" and d: "\<not> mdone m" and f: "first_map order (mmap m) = None"
  shows "\<exists>m' reply. worker_turn order now m ident = Some (m', reply) \<and> settled m' \<and> ranges_over order m' \<and>
    Suc (left_to_do m') = left_to_do m \<and> turn_effect m m' reply"
proof -
  define m' where "m' = m\<lparr>nextId := (if ident = 0 then nextId m + 1 else nextId m), mdone := True\<rparr>"
  have "mmap m i = Some 2" if "i \<in> set order" for i
  proof -
    have "i \<in> dom (mmap m)" using that o by (simp add: ranges_over_def)
    then obtain v where "mmap m i = Some v" by blast
    moreover have "mmap m i \<noteq> Some (-1)" by (rule first_map_NoneD[OF f that])
    ultimately show ?thesis using s by (auto simp: settled_def)
  qed
  note all2 = this
  then have "\<exists>reply. worker_turn order now m ident = Some (m', reply) \<and> turn_effect m m' reply"
    using d f by (simp add: turn_effect_def worker_turn_def GiveTask_def empty_reply_def m'_def Let_def mIsFinished_all)
  moreover have "\<forall>f v. mmap m f = Some v \<longrightarrow> v = 2" using all2 o by (force simp: ranges_over_def)
  then have "settled m'" "ranges_over order m'" using s o by (auto simp: settled_def ranges_over_def m'_def)
  moreover have "Suc (left_to_do m') = left_to_do m" using d by (simp add: left_to_do_def idle_maps_def m'_def)
  ultimately show ?thesis by blast
qed

lemma turn_reduce:
  assumes s: "settled m" and o: "ranges_over order m" and d: "mdone m" "\<not> rdone m" and f: "first_reduce 0 (rtask m) = Some i"
  shows "\<exists>m' reply. worker_turn order now m ident = Some (m', reply) \<and> settled m' \<and> ranges_over order m' \<and>
    Suc (left_to_do m') = left_to_do m \<and> turn_effect m m' reply"
proof -
  have i: "i < length (rtask m)" "rtask m ! i = -1" using first_reduce_SomeD[OF f] by auto
  define m' where "m' = m\<lparr>nextId := (if ident = 0 then nextId m + 1 else nextId m), rstart := (rstart m)[i := Some now],
      rtask := (rtask m)[i := 2]\<rparr>"
  have "\<exists>reply. worker_turn order now m ident = Some (m', reply) \<and> turn_effect m m' reply"
    using d f i by (simp add: turn_effect_def worker_turn_def GiveTask_def empty_reply_def TaskFinish_def m'_def Let_def upd_at_def)
  moreover have "settled m'" using s set_update_subset_insert[of "rtask m" i 2] by (auto simp: settled_def m'_def)
  moreover have "ranges_over order m'" using o by (simp add: ranges_over_def m'_def)
  moreover have "Suc (left_to_do m') = left_to_do m"
    using count_list_upd[OF i, of 2] by (simp add: left_to_do_def idle_maps_def m'_def)
  ultimately show ?thesis by blast
qed

lemma turn_reduces_done:
  assumes s: "settled m" and o: "ranges_over order m" and d: "mdone m" "\<not> rdone m" and f: "first_reduce 0 (rtask m) = None"
  shows "\<exists>m' reply. worker_turn order now m ident = Some (m', reply) \<and> settled m' \<and> ranges_over order m' \<and>
    Suc (left_to_do m') = left_to_do m \<and> turn_effect m m' reply"
proof -
  define m' where "m' = m\<lparr>nextId := (if ident = 0 then nextId m + 1 else nextId m), rdone := True\<rparr>"
  have "\<forall>v\<in>set (rtask m). v = 2" using s first_reduce_NoneD[OF f] by (auto simp: settled_def)
  moreover from this have "\<exists>reply. worker_turn order now m ident = Some (m', reply) \<and> turn_effect m m' reply"
    using d f by (simp add: turn_effect_def worker_turn_def GiveTask_def empty_reply_def m'_def Let_def rIsFinished_all)
  ultimately have "\<exists>reply. worker_turn order now m ident = Some (m', reply) \<and> turn_effect m m' reply" "settled m'" "ranges_over order m'" using s o d by (auto simp: settled_def ranges_over_def m'_def)
  moreover have "Suc (left_to_do m') = left_to_do m" using d by (simp add: left_to_do_def idle_maps_def m'_def)
  ultimately show ?thesis by blast
qed

lemma settled_turn:
  assumes s: "settled m" and o: "ranges_over order m" and d: "\<not> Done m"
  shows "\<exists>m' reply. worker_turn order now m ident = Some (m', reply) \<and> settled m' \<and> ranges_over order m' \<and>
    Suc (left_to_do m') = left_to_do m \<and> turn_effect m m' reply"
proof (cases "mdone m")
  case True
  with d have r: "\<not> rdone m" by (simp add: Done_def)
  show ?thesis
  proof (cases "first_reduce 0 (rtask m)")
    case None
    then show ?thesis using turn_reduces_done[OF s o True r] by simp
  next
    case (Some i)
    then show ?thesis using turn_reduce[OF s o True r] by simp
  qed
next
  case False
  show ?thesis
  proof (cases "first_map order (mmap m)")
    case None
    then show ?thesis using turn_maps_done[OF s o False] by simp
  next
    case (Some i)
    then show ?thesis using turn_map[OF s o False] by simp
  qed
qed

lemma settled_done: "settled m \<Longrightarrow> Done m \<Longrightarrow> left_to_do m = 0"
proof -
  assume s: "settled m" "Done m"
  then have "\<forall>f v. mmap m f = Some v \<longrightarrow> v = 2" "\<forall>v\<in>set (rtask m). v = 2" by (simp_all add: settled_def Done_def)
  then have "idle_maps m = {}" "-1 \<notin> set (rtask m)" by (force simp: idle_maps_def)+
  then show ?thesis using s(2) by (simp add: left_to_do_def Done_def count_list_0_iff)
qed

lemma work_completes:
  assumes "settled m" "set order = dom (mmap m)" "left_to_do m = k" "\<forall>j. set (orders j) = set order \<and> distinct (orders j)"
  shows "\<exists>m'. work k orders clock m ident = Some m' \<and> Done m'"
  using assms
proof (induction k arbitrary: m ident)
  case 0
  then show ?case by (auto simp: left_to_do_def Done_def split: if_splits)
next
  case (Suc k)
  have o: "ranges_over (orders k) m" using Suc.prems(2,4) by (simp add: ranges_over_def)
  have "\<not> Done m" using settled_done Suc.prems(1,3) by fastforce
  from settled_turn[OF Suc.prems(1) o this] obtain m1 reply where
    m1: "worker_turn (orders k) (clock k) m ident = Some (m1, reply)" "settled m1" "ranges_over (orders k) m1"
      "Suc (left_to_do m1) = left_to_do m" by blast
  have "set order = dom (mmap m1)" "left_to_do m1 = k" using m1(3,4) Suc.prems(3,4) by (simp_all add: ranges_over_def)
  from Suc.IH[OF m1(2) this Suc.prems(4)] m1(1) show ?case by simp
qed

lemma number_files_nth:
  "distinct files \<Longrightarrow> i < length files \<Longrightarrow> number_files k files g (files ! i) = Some (int (k + i))"
proof (induction files arbitrary: i k g)
  case (Cons v files)
  have other: "v \<notin> set fs \<Longrightarrow> number_files j fs h v = h v" for j fs h by (induction fs arbitrary: j h) auto
  show ?case using Cons by (cases i) (simp_all add: other)
qed simp

lemma MakeMaster_start:
  assumes "MakeMaster files nReduce = Some m" "'''' \<notin> set files"
  shows "settled m" "left_to_do m = card (set files) + nat nReduce + 2" "dom (mmap m) = set files" "NReduce m = nReduce"
    "rtask m = replicate (nat nReduce) (-1)" "nextId m = 1" "mmap m f = (if f \<in> set files then Some (-1) else None)"
    "f2id m = number_files 0 files Map.empty"
proof -
  have m: "m = \<lparr>mmap = (\<lambda>f. if f \<in> set files then Some (-1) else None), rtask = replicate (nat nReduce) (-1),
       NReduce = nReduce, nextId = 1, mdone = False, rdone = False, f2id = number_files 0 files Map.empty,
       mstart = (\<lambda>_. None), rstart = replicate (nat nReduce) None\<rparr>"
    using assms(1) by (simp add: MakeMaster_def split: if_splits)
  show dom: "dom (mmap m) = set files" by (auto simp: m dom_def)
  show "settled m" using assms(2) dom by (auto simp: settled_def) (auto simp: m split: if_splits)
  have "idle_maps m = set files" by (auto simp: idle_maps_def m)
  moreover have "count_list (replicate k (-1)) (-1 :: int) = k" for k by (induction k) simp_all
  ultimately show "left_to_do m = card (set files) + nat nReduce + 2" by (simp add: left_to_do_def m)
  show "NReduce m = nReduce" "rtask m = replicate (nat nReduce) (-1)" "nextId m = 1" "mmap m f = (if f \<in> set files then Some (-1) else None)"
    "f2id m = number_files 0 files Map.empty" by (simp_all add: m)
qed

text \<open>A handler forgets no finished task and no finished phase, so a job that is done stays done.\<close>

definition finished_kept :: "master \<Rightarrow> master \<Rightarrow> bool" where
  "finished_kept m m' \<longleftrightarrow> (\<forall>f. mmap m f = Some 2 \<longrightarrow> mmap m' f = Some 2) \<and> length (rtask m') = length (rtask m) \<and>
     (\<forall>i<length (rtask m). rtask m ! i = 2 \<longrightarrow> rtask m' ! i = 2) \<and>
     (mdone m \<longrightarrow> mdone m') \<and> (rdone m \<longrightarrow> rdone m') \<and> (Done m \<longrightarrow> Done m')"

lemma mIsFinished_kept: "finished_kept m (mIsFinished order now m)"
  by (induction order now m rule: mIsFinished.induct) (auto simp: finished_kept_def Done_def split: option.splits)

lemma rIsFinished_kept: "\<forall>j<length vs. i + j < length (rtask m) \<and> rtask m ! (i + j) = vs ! j \<Longrightarrow> finished_kept m (rIsFinished i vs now m)"
proof (induction i vs now m rule: rIsFinished.induct)
  case (1 i now m)
  then show ?case by (simp add: finished_kept_def Done_def)
next
  case (2 i v vs now m)
  have "\<forall>j<length vs. i + 1 + j < length (rtask m) \<and> rtask m ! (i + 1 + j) = vs ! j"
  proof (intro allI impI)
    fix j assume "j < length vs"
    then show "i + 1 + j < length (rtask m) \<and> rtask m ! (i + 1 + j) = vs ! j" using 2(2)[rule_format, of "Suc j"] by simp
  qed
  then show ?case using 2(1) 2(2)[rule_format, of 0] by (auto simp: finished_kept_def Done_def nth_list_update)
qed

lemma finished_kept_Id: "finished_kept m (m'\<lparr>nextId := k\<rparr>) = finished_kept m m'" "finished_kept (m\<lparr>nextId := k\<rparr>) m' = finished_kept m m'"
  by (simp_all add: finished_kept_def Done_def)

lemma GiveTask_kept: "finished_kept m (fst (GiveTask order now m args))"
proof -
  define n where "n = (if arg_WorkerId args = 0 then m\<lparr>nextId := nextId m + 1\<rparr> else m)"
  have kept: "finished_kept m m' = finished_kept n m'" for m' by (simp add: n_def finished_kept_Id)
  have same: "finished_kept n n" by (simp add: finished_kept_def)
  have m: "finished_kept n (n\<lparr>mstart := s, mmap := (mmap n)(i \<mapsto> 1)\<rparr>)" if "first_map order (mmap n) = Some i" for i s
    using first_map_SomeD[OF that] by (simp add: finished_kept_def Done_def)
  have r: "finished_kept n (n\<lparr>rstart := s, rtask := (rtask n)[i := 1]\<rparr>)" if "first_reduce 0 (rtask n) = Some i" for i s
    using first_reduce_SomeD[OF that] by (auto simp: finished_kept_def Done_def nth_list_update)
  have "fst (GiveTask order now m args) = n \<or> (\<exists>i s. first_map order (mmap n) = Some i \<and> fst (GiveTask order now m args) = n\<lparr>mstart := s, mmap := (mmap n)(i \<mapsto> 1)\<rparr>) \<or>
     (\<exists>i s. first_reduce 0 (rtask n) = Some i \<and> fst (GiveTask order now m args) = n\<lparr>rstart := s, rtask := (rtask n)[i := 1]\<rparr>) \<or>
     fst (GiveTask order now m args) = mIsFinished order now n \<or> fst (GiveTask order now m args) = rIsFinished 0 (rtask n) now n"
    unfolding n_def by (auto simp: GiveTask_def Let_def split: option.splits)
  then show ?thesis unfolding kept using same m r mIsFinished_kept[of n order now] rIsFinished_kept[of "rtask n" 0 n now] by fastforce
qed

section \<open>Properties\<close>

text \<open>
  \<^bold>\<open>C32\<close>. The master hands out a reduce task only when every map task is finished, and marks it as started.
\<close>

theorem reduce_after_maps:
  assumes "master_ok m" "GiveTask order now m args = (m', reply)" "TaskType reply = 2"
  shows "(\<forall>f v. mmap m f = Some v \<longrightarrow> v = 2) \<and> 0 \<le> TaskId reply \<and> TaskId reply < NReduce m \<and>
    rtask m ! nat (TaskId reply) = -1 \<and> rtask m' ! nat (TaskId reply) = 1 \<and> rep_NReduce reply = NReduce m"
proof -
  have d: "mdone m" and r: "first_reduce 0 (rtask m) = Some (nat (TaskId reply))" "0 \<le> TaskId reply"
      "rtask m' = (rtask m)[nat (TaskId reply) := 1]" "rep_NReduce reply = NReduce m"
    using assms(2,3) by (auto simp: GiveTask_def empty_reply_def Let_def split: if_splits option.splits)
  with first_reduce_SomeD[OF r(1)] assms(1) show ?thesis by (auto simp: master_ok_def)
qed

definition one_map_master :: master where
  "one_map_master = \<lparr>mmap = [''a'' \<mapsto> 2], rtask = [-1, -1], NReduce = 2, nextId = 2, mdone = True, rdone = False,
     f2id = [''a'' \<mapsto> 0], mstart = (\<lambda>_. None), rstart = [None, None]\<rparr>"

theorem reduce_after_maps_witness:
  "\<exists>m' reply. GiveTask [''a''] 7 one_map_master \<lparr>arg_TaskType = 0, arg_TaskName = '''', arg_WorkerId = 1, arg_TaskId = 0\<rparr> = (m', reply) \<and>
     TaskType reply = 2 \<and> TaskId reply < 2 \<and> rtask m' ! nat (TaskId reply) = 1"
proof -
  let ?a = "\<lparr>arg_TaskType = 0, arg_TaskName = '''', arg_WorkerId = 1, arg_TaskId = 0\<rparr>"
  have ok: "master_ok one_map_master" by (auto simp: master_ok_def one_map_master_def split: if_splits)
  obtain m' reply where g: "GiveTask [''a''] 7 one_map_master ?a = (m', reply)" by force
  then have "TaskType reply = 2" by (auto simp: GiveTask_def one_map_master_def empty_reply_def)
  with reduce_after_maps[OF ok g this] g show ?thesis by (auto simp: one_map_master_def)
qed

theorem map_task_given_once:
  assumes "GiveTask order now m args = (m', reply)" "TaskType reply = 1"
  shows "mmap m (TaskName reply) = Some (-1) \<and> mmap m' = (mmap m)(TaskName reply \<mapsto> 1) \<and>
    mstart m' (TaskName reply) = Some now \<and> MapId reply = (case f2id m (TaskName reply) of Some k \<Rightarrow> k | None \<Rightarrow> 0)"
  using assms by (auto simp: GiveTask_def empty_reply_def Let_def split: if_splits option.splits dest: first_map_SomeD)

theorem map_task_given_once_witness:
  "\<exists>m m' reply. MakeMaster [''a''] 2 = Some m \<and>
     GiveTask [''a''] 7 m \<lparr>arg_TaskType = 0, arg_TaskName = '''', arg_WorkerId = 0, arg_TaskId = 0\<rparr> = (m', reply) \<and>
     TaskType reply = 1 \<and> mmap m (TaskName reply) = Some (-1)"
proof -
  let ?a = "\<lparr>arg_TaskType = 0, arg_TaskName = '''', arg_WorkerId = 0, arg_TaskId = 0\<rparr>"
  obtain m where m: "MakeMaster [''a''] 2 = Some m" by (simp add: MakeMaster_def)
  obtain m' reply where g: "GiveTask [''a''] 7 m ?a = (m', reply)" by force
  then have "TaskType reply = 1" using m by (auto simp: GiveTask_def MakeMaster_def empty_reply_def)
  with map_task_given_once[OF g this] m g show ?thesis by blast
qed

text \<open>
  \<^bold>\<open>C33\<close>. Both handlers keep the invariant of the master (task states are -1, 1 or 2, the lists keep their
  length, a phase is only declared done when all its tasks are) and forget nothing: a finished task,
  a finished phase and a finished job stay finished. When the job is done every map and reduce task
  is finished.
\<close>

theorem master_invariant:
  assumes "master_ok m"
  shows "(ranges_over order m \<longrightarrow> master_ok (fst (GiveTask order now m args))) \<and> finished_kept m (fst (GiveTask order now m args)) \<and>
    (\<forall>m'. TaskFinish m args = Some m' \<longrightarrow> master_ok m' \<and> finished_kept m m') \<and>
    (Done m \<longrightarrow> (\<forall>f v. mmap m f = Some v \<longrightarrow> v = 2) \<and> (\<forall>v\<in>set (rtask m). v = 2))"
proof (intro conjI impI allI ballI)
  show "master_ok (fst (GiveTask order now m args))" if "ranges_over order m"
    using GiveTask_ok(1)[OF assms that] by (metis prod.collapse)
  show "finished_kept m (fst (GiveTask order now m args))" by (rule GiveTask_kept)
  show "master_ok m'" if "TaskFinish m args = Some m'" for m' by (rule TaskFinish_ok[OF assms that])
  show "finished_kept m m'" if "TaskFinish m args = Some m'" for m'
    using that by (auto simp: finished_kept_def Done_def TaskFinish_def upd_at_def bind_Some_iff nth_list_update split: if_splits)
  assume d: "Done m"
  show "v = 2" if "mmap m f = Some v" for f v using d assms that by (simp add: Done_def master_ok_def)
  show "v = 2" if "v \<in> set (rtask m)" for v using d assms that by (simp add: Done_def master_ok_def)
qed

theorem master_invariant_witness:
  "master_ok one_map_master \<and> master_ok (fst (GiveTask [''a''] 7 one_map_master \<lparr>arg_TaskType = 0, arg_TaskName = '''', arg_WorkerId = 1, arg_TaskId = 0\<rparr>))"
proof -
  have ok: "master_ok one_map_master" by (auto simp: master_ok_def one_map_master_def split: if_splits)
  have "ranges_over [''a''] one_map_master" by (simp add: ranges_over_def one_map_master_def)
  with master_invariant[OF ok] ok show ?thesis by blast
qed

theorem single_worker_completes:
  assumes "MakeMaster files nReduce = Some m" "'''' \<notin> set files"
    and "\<forall>j. set (orders j) = set files \<and> distinct (orders j)"
  shows "\<exists>m'. work (card (set files) + nat nReduce + 2) orders clock m 0 = Some m' \<and> Done m'"
  by (rule work_completes[OF MakeMaster_start(1)[OF assms(1,2)] MakeMaster_start(3)[OF assms(1,2), symmetric]
      MakeMaster_start(2)[OF assms(1,2)] assms(3)])

theorem single_worker_completes_witness:
  "\<exists>m m'. MakeMaster [''a'', ''b''] 3 = Some m \<and> work 7 (\<lambda>_. [''b'', ''a'']) (\<lambda>_. 0) m 0 = Some m' \<and> Done m'"
proof -
  obtain m where m: "MakeMaster [''a'', ''b''] 3 = Some m" by (simp add: MakeMaster_def)
  have "card (set [''a'', ''b'']) + nat 3 + 2 = 7" by simp
  with single_worker_completes[OF m, of "\<lambda>_. [''b'', ''a'']" "\<lambda>_. 0"] m show ?thesis by (auto simp del: work.simps)
qed

theorem task_finish_out_of_range:
  "arg_TaskType args = 2 \<Longrightarrow> arg_TaskId args < 0 \<or> int (length (rtask m)) \<le> arg_TaskId args \<Longrightarrow> TaskFinish m args = None"
  by (auto simp: TaskFinish_def upd_at_def)

theorem task_finish_out_of_range_witness:
  "TaskFinish one_map_master \<lparr>arg_TaskType = 2, arg_TaskName = '''', arg_WorkerId = 0, arg_TaskId = 2\<rparr> = None"
  by (rule task_finish_out_of_range) (simp_all add: one_map_master_def)

end
