(* ===== verification/MapReduce.thy ===== *)
theory MapReduce
  imports Master Strconv "HOL-Library.Char_ord" "HOL-Library.List_Lexorder"
begin

text \<open>
  The worker of \<^verbatim>\<open>mr/worker.go\<close> and the sequential program \<^verbatim>\<open>main/mrsequential.go\<close> that it must agree with.
  The working directory is an association list from file names to contents.  \<^verbatim>\<open>encoding/json\<close> is a
  record of two functions: what \<^verbatim>\<open>Encode\<close> writes for one pair, and the pairs that repeated calls
  of \<^verbatim>\<open>Decode\<close> read from a text before the first error.  \<^verbatim>\<open>sort.Sort\<close>, which is not stable, is an argument.
  \<open>None\<close> is a call of \<^verbatim>\<open>log.Fatal\<close> or a panic.  Temporary files live in another directory until
  they are renamed, so only the rename is seen here.
\<close>

unbundle bit_operations_syntax

section \<open>Keys, files and names\<close>

record KeyValue =
  KeyOf :: string
  ValueOf :: string

type_synonym fs = "(string \<times> string) list"

definition write_file :: "fs \<Rightarrow> string \<Rightarrow> string \<Rightarrow> fs" where
  "write_file fs name content = (name, content) # filter (\<lambda>f. fst f \<noteq> name) fs"

record json =
  js_enc :: "KeyValue \<Rightarrow> string"
  js_dec :: "string \<Rightarrow> KeyValue list"

definition Less_ByKey :: "KeyValue list \<Rightarrow> nat \<Rightarrow> nat \<Rightarrow> bool" where
  "Less_ByKey a i j = (KeyOf (a ! i) < KeyOf (a ! j))"

text \<open>\<^verbatim>\<open>ihash\<close>: the 32-bit FNV-1a hash of the bytes of the key, with the sign bit cleared.\<close>

definition fnv32a :: "string \<Rightarrow> 32 word" where
  "fnv32a s = foldl (\<lambda>h c. (h XOR of_char c) * 16777619) 2166136261 s"

definition ihash :: "string \<Rightarrow> int" where
  "ihash key = uint (fnv32a key AND 0x7fffffff)"

section \<open>\<^verbatim>\<open>doMap\<close>\<close>

fun fill_buckets :: "json \<Rightarrow> int \<Rightarrow> KeyValue list \<Rightarrow> string list \<Rightarrow> string list option" where
  "fill_buckets js n [] ofile = Some ofile"
| "fill_buckets js n (kv # kvs) ofile =
    (if n = 0 then None
     else do {
       let i = ihash (KeyOf kv) mod n;
       f \<leftarrow> at ofile i;
       ofile \<leftarrow> upd_at ofile i (f @ js_enc js kv);
       fill_buckets js n kvs ofile })"

definition map_file :: "int \<Rightarrow> int \<Rightarrow> string" where
  "map_file m i = ''mr-'' @ itoa m @ ''-'' @ itoa i"

fun rename_all :: "int \<Rightarrow> int \<Rightarrow> string list \<Rightarrow> fs \<Rightarrow> fs" where
  "rename_all m i [] fs = fs"
| "rename_all m i (f # ofile) fs = rename_all m (i + 1) ofile (write_file fs (map_file m i) f)"

definition doMap :: "json \<Rightarrow> fs \<Rightarrow> MrReply \<Rightarrow> (string \<Rightarrow> string \<Rightarrow> KeyValue list) \<Rightarrow> fs option" where
  "doMap js fs reply mapf = do {
     content \<leftarrow> map_of fs (TaskName reply);
     let kva = mapf (TaskName reply) content;
     if rep_NReduce reply < 0 then None
     else do {
       ofile \<leftarrow> fill_buckets js (rep_NReduce reply) kva (replicate (nat (rep_NReduce reply)) '''');
       Some (rename_all (MapId reply) 0 ofile fs) } }"

section \<open>\<^verbatim>\<open>doReduce\<close>\<close>

text \<open>\<^verbatim>\<open>filepath.Glob("mr-*-N")\<close>; the star matches any characters but the separator.\<close>

definition glob_match :: "int \<Rightarrow> string \<Rightarrow> bool" where
  "glob_match n name =
    (let post = ''-'' @ itoa n; len = length name
     in len \<ge> 3 + length post \<and> take 3 name = ''mr-'' \<and> drop (len - length post) name = post \<and>
        CHR ''/'' \<notin> set name)"

definition out_line :: "(string \<Rightarrow> string list \<Rightarrow> string) \<Rightarrow> KeyValue list \<Rightarrow> nat \<Rightarrow> nat \<Rightarrow> string" where
  "out_line reducef kvs k i =
    (let key = KeyOf (kvs ! k)
     in key @ '' '' @ reducef key (map (\<lambda>j. ValueOf (kvs ! j)) [k..<i]) @ [CHR 0x0A])"

fun reduce_scan :: "(string \<Rightarrow> string list \<Rightarrow> string) \<Rightarrow> KeyValue list \<Rightarrow> nat list \<Rightarrow> nat \<Rightarrow> string list \<Rightarrow> string list" where
  "reduce_scan reducef kvbox [] k out = out @ [out_line reducef kvbox k (length kvbox)]"
| "reduce_scan reducef kvbox (i # is) k out =
    (if KeyOf (kvbox ! i) \<noteq> KeyOf (kvbox ! k) then reduce_scan reducef kvbox is i (out @ [out_line reducef kvbox k i])
     else reduce_scan reducef kvbox is k out)"

definition out_file :: "int \<Rightarrow> string" where
  "out_file n = ''mr-out-'' @ itoa n"

definition doReduce :: "json \<Rightarrow> (KeyValue list \<Rightarrow> KeyValue list) \<Rightarrow> fs \<Rightarrow> MrReply
    \<Rightarrow> (string \<Rightarrow> string list \<Rightarrow> string) \<Rightarrow> fs option" where
  "doReduce js sort_fn fs reply reducef = do {
     let files = sort (filter (glob_match (TaskId reply)) (map fst fs));
     contents \<leftarrow> those (map (map_of fs) files);
     let kvbox = concat (map (js_dec js) contents);
     if kvbox = [] then Some fs
     else
       let kvbox = sort_fn kvbox;
           out = reduce_scan reducef kvbox [0..<length kvbox] 0 []
       in Some (write_file fs (out_file (TaskId reply)) (concat out)) }"

section \<open>\<^verbatim>\<open>mrsequential\<close>\<close>

fun seq_intermediate :: "fs \<Rightarrow> (string \<Rightarrow> string \<Rightarrow> KeyValue list) \<Rightarrow> string list \<Rightarrow> KeyValue list option" where
  "seq_intermediate fs mapf [] = Some []"
| "seq_intermediate fs mapf (filename # files) = do {
     content \<leftarrow> map_of fs filename;
     let kva = mapf filename content;
     rest \<leftarrow> seq_intermediate fs mapf files;
     Some (kva @ rest) }"

function next_key :: "KeyValue list \<Rightarrow> nat \<Rightarrow> nat \<Rightarrow> nat" where
  "next_key kvs i j = (if j < length kvs \<and> KeyOf (kvs ! j) = KeyOf (kvs ! i) then next_key kvs i (j + 1) else j)"
  by auto
termination by (relation "measure (\<lambda>(kvs, i, j). length kvs - j)") auto

lemma next_key_ge: "j \<le> next_key kvs i j"
  by (induction kvs i j rule: next_key.induct) (metis next_key.simps le_trans le_add1 order_refl)

declare next_key.simps [simp del]

function seq_loop :: "(string \<Rightarrow> string list \<Rightarrow> string) \<Rightarrow> KeyValue list \<Rightarrow> nat \<Rightarrow> string list" where
  "seq_loop reducef kvs i =
    (if i < length kvs then
       let j = next_key kvs i (i + 1) in out_line reducef kvs i j # seq_loop reducef kvs j
     else [])"
  by auto
termination
proof (relation "measure (\<lambda>(reducef, kvs, i). length kvs - i)")
  fix reducef :: "string \<Rightarrow> string list \<Rightarrow> string" and kvs i x
  assume "i < length kvs" "x = next_key kvs i (i + 1)"
  then show "((reducef, kvs, x), (reducef, kvs, i)) \<in> measure (\<lambda>(reducef, kvs, i). length kvs - i)"
    using next_key_ge[of "i + 1" kvs i] by simp
qed simp

declare seq_loop.simps [simp del]

text \<open>\<^verbatim>\<open>main\<close> of the sequential program, from reading the inputs to the lines of \<^verbatim>\<open>mr-out-0\<close>.\<close>

definition mrsequential :: "(KeyValue list \<Rightarrow> KeyValue list) \<Rightarrow> fs \<Rightarrow> (string \<Rightarrow> string \<Rightarrow> KeyValue list)
    \<Rightarrow> (string \<Rightarrow> string list \<Rightarrow> string) \<Rightarrow> string list \<Rightarrow> (string list \<times> fs) option" where
  "mrsequential sort_fn fs mapf reducef files = do {
     intermediate \<leftarrow> seq_intermediate fs mapf files;
     let out = seq_loop reducef (sort_fn intermediate) 0;
     Some (out, write_file fs ''mr-out-0'' (concat out)) }"

section \<open>Runs of equal keys\<close>

function runs :: "KeyValue list \<Rightarrow> (string \<times> string list) list" where
  "runs [] = []"
| "runs (kv # kvs) = (KeyOf kv, ValueOf kv # map ValueOf (takeWhile (\<lambda>x. KeyOf x = KeyOf kv) kvs))
     # runs (dropWhile (\<lambda>x. KeyOf x = KeyOf kv) kvs)"
  by pat_completeness auto
termination by (relation "measure length") (auto simp: le_imp_less_Suc length_dropWhile_le)

definition fmt :: "(string \<Rightarrow> string list \<Rightarrow> string) \<Rightarrow> string \<times> string list \<Rightarrow> string" where
  "fmt reducef r = fst r @ '' '' @ reducef (fst r) (snd r) @ [CHR 0x0A]"

lemma out_line_fmt:
  assumes "k \<le> i" "i \<le> length kvs" "k < length kvs"
  shows "out_line reducef kvs k i = fmt reducef (KeyOf (kvs ! k), map ValueOf (take (i - k) (drop k kvs)))"
proof -
  have "map (\<lambda>j. ValueOf (kvs ! j)) [k..<i] = map ValueOf (take (i - k) (drop k kvs))"
    using assms by (intro nth_equalityI) simp_all
  then show ?thesis by (simp add: out_line_def fmt_def Let_def)
qed

lemma next_key_takeWhile:
  "next_key kvs i j = j + length (takeWhile (\<lambda>x. KeyOf x = KeyOf (kvs ! i)) (drop j kvs))"
proof (induction kvs i j rule: next_key.induct)
  case (1 kvs i j)
  show ?case
  proof (cases "j < length kvs")
    case True
    then have "drop j kvs = kvs ! j # drop (j + 1) kvs" by (simp add: Cons_nth_drop_Suc)
    then show ?thesis using 1 True by (subst next_key.simps) simp
  qed (subst next_key.simps, simp)
qed

lemma run_split:
  assumes "i < length kvs" "j = next_key kvs i (i + 1)"
  shows "runs (drop i kvs) = (KeyOf (kvs ! i), map ValueOf (take (j - i) (drop i kvs))) # runs (drop j kvs)" "i < j" "j \<le> length kvs"
proof -
  let ?P = "\<lambda>x. KeyOf x = KeyOf (kvs ! i)" and ?r = "drop (i + 1) kvs"
  have d: "drop i kvs = kvs ! i # ?r" using assms(1) by (simp add: Cons_nth_drop_Suc)
  have j: "j = i + 1 + length (takeWhile ?P ?r)" using assms(2) next_key_takeWhile by simp
  define l where "l = length (takeWhile ?P ?r)"
  have tw: "takeWhile ?P ?r = take l ?r" "dropWhile ?P ?r = drop l ?r"
    unfolding l_def by (rule takeWhile_eq_take, rule dropWhile_eq_drop)
  have jl: "j = i + 1 + l" using j by (simp add: l_def)
  have "take (j - i) (drop i kvs) = kvs ! i # takeWhile ?P ?r" unfolding d tw(1) jl by simp
  moreover have "dropWhile ?P ?r = drop j kvs" unfolding tw(2) jl by (simp add: add.commute)
  ultimately show "runs (drop i kvs) = (KeyOf (kvs ! i), map ValueOf (take (j - i) (drop i kvs))) # runs (drop j kvs)"
    using d by simp
  show "i < j" "j \<le> length kvs" using j assms(1) length_takeWhile_le[of ?P ?r] by auto
qed

lemma seq_loop_runs: "seq_loop reducef kvs i = map (fmt reducef) (runs (drop i kvs))"
proof (induction reducef kvs i rule: seq_loop.induct)
  case (1 reducef kvs i)
  show ?case
  proof (cases "i < length kvs")
    case True
    note r = run_split[OF True refl]
    then have "out_line reducef kvs i (next_key kvs i (i + 1)) =
        fmt reducef (KeyOf (kvs ! i), map ValueOf (take (next_key kvs i (i + 1) - i) (drop i kvs)))"
      using True by (intro out_line_fmt) simp_all
    then show ?thesis using 1[OF True refl] True r(1) by (subst seq_loop.simps) (simp add: Let_def)
  qed (subst seq_loop.simps, simp)
qed

lemma next_key_run:
  assumes "k < i" "i \<le> length kvs" "\<forall>j. k \<le> j \<and> j < i \<longrightarrow> KeyOf (kvs ! j) = KeyOf (kvs ! k)"
    and "i = length kvs \<or> KeyOf (kvs ! i) \<noteq> KeyOf (kvs ! k)"
  shows "next_key kvs k (k + 1) = i"
proof -
  let ?P = "\<lambda>x. KeyOf x = KeyOf (kvs ! k)"
  have nth: "drop (k + 1) kvs ! n = kvs ! (k + 1 + n)" for n using assms(1,2) by simp
  have "takeWhile ?P (drop (k + 1) kvs) = take (i - (k + 1)) (drop (k + 1) kvs)"
  proof (rule takeWhile_eq_take_P_nth)
    fix n assume "n < i - (k + 1)"
    then have "k \<le> k + 1 + n \<and> k + 1 + n < i" by simp
    then show "?P (drop (k + 1) kvs ! n)" unfolding nth using assms(3) by blast
  next
    assume "i - (k + 1) < length (drop (k + 1) kvs)"
    then have "i < length kvs" using assms(1) by simp
    then show "\<not> ?P (drop (k + 1) kvs ! (i - (k + 1)))" using assms(1,4) by simp
  qed
  then show ?thesis unfolding next_key_takeWhile using assms(1,2) by simp
qed

lemma reduce_scan_runs:
  assumes "k < length kvs" "k \<le> i" "i \<le> length kvs" "\<forall>j. k \<le> j \<and> j < i \<longrightarrow> KeyOf (kvs ! j) = KeyOf (kvs ! k)"
  shows "reduce_scan reducef kvs [i..<length kvs] k out = out @ map (fmt reducef) (runs (drop k kvs))"
  using assms
proof (induction "length kvs - i" arbitrary: i k out)
  case 0
  then have i: "i = length kvs" "k < i" by simp_all
  have "next_key kvs k (k + 1) = i" by (rule next_key_run[OF i(2) 0(4,5)]) (simp add: i(1))
  with run_split(1)[OF 0(2) refl] show ?case using i by (simp add: out_line_fmt)
next
  case (Suc d)
  then have i: "i < length kvs" "[i..<length kvs] = i # [i + 1..<length kvs]" by (simp_all add: upt_conv_Cons)
  have d: "d = length kvs - (i + 1)" using Suc.hyps(2) by simp
  show ?case
  proof (cases "KeyOf (kvs ! i) = KeyOf (kvs ! k)")
    case True
    have same: "\<forall>j. k \<le> j \<and> j < i + 1 \<longrightarrow> KeyOf (kvs ! j) = KeyOf (kvs ! k)" using Suc.prems(4) True by (metis Suc_eq_plus1 less_Suc_eq)
    have "k \<le> i + 1" "i + 1 \<le> length kvs" using Suc.prems(2) i(1) by simp_all
    then show ?thesis using True Suc.hyps(1)[OF d Suc.prems(1) _ _ same] unfolding i(2) by simp
  next
    case False
    then have ki: "k < i" using Suc.prems(2) by (cases "k = i") auto
    have "next_key kvs k (k + 1) = i" by (rule next_key_run[OF ki Suc.prems(3,4)]) (simp add: False)
    with run_split(1)[OF Suc.prems(1) refl] have r: "runs (drop k kvs) =
        (KeyOf (kvs ! k), map ValueOf (take (i - k) (drop k kvs))) # runs (drop i kvs)" by simp
    have same: "\<forall>j. i \<le> j \<and> j < i + 1 \<longrightarrow> KeyOf (kvs ! j) = KeyOf (kvs ! i)" by (metis less_Suc_eq_le Suc_eq_plus1 order.antisym)
    have "i \<le> i + 1" "i + 1 \<le> length kvs" using i(1) by simp_all
    from Suc.hyps(1)[OF d i(1) this same, of "out @ [out_line reducef kvs k i]"]
    have "reduce_scan reducef kvs [i + 1..<length kvs] i (out @ [out_line reducef kvs k i]) =
        (out @ [out_line reducef kvs k i]) @ map (fmt reducef) (runs (drop i kvs))" by simp
    moreover have "out_line reducef kvs k i = fmt reducef (KeyOf (kvs ! k), map ValueOf (take (i - k) (drop k kvs)))"
      using out_line_fmt Suc.prems(1-3) by simp
    ultimately show ?thesis using False unfolding i(2) r by simp
  qed
qed

text \<open>The loops of \<^verbatim>\<open>doReduce\<close> and of \<^verbatim>\<open>mrsequential\<close> write the same lines.\<close>

lemma reduce_scan_seq_loop:
  assumes "kvs \<noteq> []"
  shows "reduce_scan reducef kvs [0..<length kvs] 0 [] = seq_loop reducef kvs 0"
  using reduce_scan_runs[of 0 kvs 0 reducef "[]"] assms by (simp add: seq_loop_runs)

section \<open>Grouping a sorted list\<close>

definition sorts_by_key :: "(KeyValue list \<Rightarrow> KeyValue list) \<Rightarrow> bool" where
  "sorts_by_key sort_fn \<longleftrightarrow> (\<forall>kvs. mset (sort_fn kvs) = mset kvs \<and> sorted (map KeyOf (sort_fn kvs)))"

definition values_of :: "KeyValue list \<Rightarrow> string \<Rightarrow> string list" where
  "values_of kvs k = map ValueOf (filter (\<lambda>kv. KeyOf kv = k) kvs)"

lemma sorted_takeWhile_key:
  assumes "sorted (map KeyOf (kv # kvs))"
  shows "takeWhile (\<lambda>x. KeyOf x = KeyOf kv) kvs = filter (\<lambda>x. KeyOf x = KeyOf kv) kvs \<and>
    dropWhile (\<lambda>x. KeyOf x = KeyOf kv) kvs = filter (\<lambda>x. KeyOf x \<noteq> KeyOf kv) kvs"
  using assms
proof (induction kvs)
  case (Cons a kvs)
  show ?case
  proof (cases "KeyOf a = KeyOf kv")
    case False
    with Cons.prems have "\<forall>x\<in>set kvs. KeyOf x \<noteq> KeyOf kv" by (auto dest: order.antisym)
    then have "filter (\<lambda>x. KeyOf x = KeyOf kv) kvs = []" "filter (\<lambda>x. KeyOf x \<noteq> KeyOf kv) kvs = kvs"
      by (simp_all add: filter_empty_conv)
    then show ?thesis using False by simp
  qed (use Cons in simp)
qed simp

lemma runs_sorted:
  assumes "sorted (map KeyOf kvs)"
  shows "distinct (map fst (runs kvs)) \<and> set (map fst (runs kvs)) = KeyOf ` set kvs \<and>
    (\<forall>r\<in>set (runs kvs). snd r = values_of kvs (fst r))"
  using assms
proof (induction kvs rule: runs.induct)
  case (2 kv kvs)
  let ?rest = "filter (\<lambda>x. KeyOf x \<noteq> KeyOf kv) kvs"
  note tw = conjunct1[OF sorted_takeWhile_key[OF 2(2)]] conjunct2[OF sorted_takeWhile_key[OF 2(2)]]
  have "sorted (map KeyOf ?rest)" using 2(2) by (simp add: sorted_filter)
  with 2(1) tw(2) have IH: "distinct (map fst (runs ?rest))" "set (map fst (runs ?rest)) = KeyOf ` set ?rest"
      "\<forall>r\<in>set (runs ?rest). snd r = values_of ?rest (fst r)" by auto
  have r: "runs (kv # kvs) = (KeyOf kv, values_of (kv # kvs) (KeyOf kv)) # runs ?rest"
    using tw by (simp add: values_of_def)
  have "values_of (kv # kvs) k = values_of ?rest k" if "k \<noteq> KeyOf kv" for k
    using that by (auto simp: values_of_def intro!: arg_cong[of _ _ "map ValueOf"] filter_cong)
  moreover have "fst r \<noteq> KeyOf kv" if "r \<in> set (runs ?rest)" for r using IH(2) that by force
  moreover have "KeyOf kv \<notin> set (map fst (runs ?rest))" unfolding IH(2) by auto
  moreover have "insert (KeyOf kv) (KeyOf ` set ?rest) = KeyOf ` set (kv # kvs)" by auto
  ultimately show ?case unfolding r using IH by simp
qed simp

lemma mset_runs:
  assumes "sorted (map KeyOf kvs)"
  shows "mset (map (fmt reducef) (runs kvs)) =
    image_mset (\<lambda>k. fmt reducef (k, values_of kvs k)) (mset_set (KeyOf ` set kvs))"
proof -
  note r = runs_sorted[OF assms]
  have "map (fmt reducef) (runs kvs) = map (\<lambda>k. fmt reducef (k, values_of kvs k)) (map fst (runs kvs))"
    using r by (auto simp: fmt_def)
  moreover have "mset (map fst (runs kvs)) = mset_set (KeyOf ` set kvs)" using r by (metis mset_set_set)
  ultimately show ?thesis by (metis mset_map)
qed

text \<open>A reduce function that does not depend on the order of its values.\<close>

definition order_free :: "(string \<Rightarrow> string list \<Rightarrow> string) \<Rightarrow> bool" where
  "order_free reducef \<longleftrightarrow> (\<forall>k vs ws. mset vs = mset ws \<longrightarrow> reducef k vs = reducef k ws)"

lemma mset_sorted_runs:
  assumes "sorts_by_key sort_fn" "order_free reducef"
  shows "mset (map (fmt reducef) (runs (sort_fn kvs))) =
    image_mset (\<lambda>k. fmt reducef (k, values_of kvs k)) (mset_set (KeyOf ` set kvs))"
proof -
  have s: "mset (sort_fn kvs) = mset kvs" "sorted (map KeyOf (sort_fn kvs))" using assms(1) by (auto simp: sorts_by_key_def)
  have "mset (values_of (sort_fn kvs) k) = mset (values_of kvs k)" for k
    unfolding values_of_def mset_map mset_filter s(1) ..
  then have "fmt reducef (k, values_of (sort_fn kvs) k) = fmt reducef (k, values_of kvs k)" for k
    using assms(2) unfolding order_free_def fmt_def fst_conv snd_conv by metis
  moreover have "set (sort_fn kvs) = set kvs" using s(1) by (metis set_mset_mset)
  ultimately show ?thesis using mset_runs[OF s(2)] by simp
qed

section \<open>Names\<close>

lemma map_of_write_file [simp]: "map_of (write_file fs name content) = (map_of fs)(name \<mapsto> content)"
proof -
  have "map_of (filter (\<lambda>f. fst f \<noteq> name) fs) n = map_of fs n" if "n \<noteq> name" for n
    using that by (induction fs) auto
  then show ?thesis by (auto simp: write_file_def fun_eq_iff)
qed

lemma distinct_write_file: "distinct (map fst fs) \<Longrightarrow> distinct (map fst (write_file fs name content))"
  by (auto simp: write_file_def distinct_map_filter)

lemma glob_match_iff: "glob_match n (''mr-'' @ xs @ ''-'' @ itoa k) \<longleftrightarrow> n = k \<and> CHR ''/'' \<notin> set xs"
  if "0 \<le> n" "0 \<le> k" for n k
proof -
  let ?name = "''mr-'' @ xs @ ''-'' @ itoa k"
  have slash: "CHR ''/'' \<notin> set (itoa k)" using itoa_digits[OF that(2)] by force
  have "glob_match n ?name \<longleftrightarrow> n = k \<and> CHR ''/'' \<notin> set ?name"
  proof
    assume g: "glob_match n ?name"
    define l where "l = length ?name - length (''-'' @ itoa n)"
    have "take l ?name @ ''-'' @ itoa n = (''mr-'' @ xs) @ ''-'' @ itoa k"
      using g append_take_drop_id[of l ?name] by (simp add: glob_match_def Let_def l_def)
    from dash_split[OF this itoa_digits[OF that(1)] itoa_digits[OF that(2)]] that
    show "n = k \<and> CHR ''/'' \<notin> set ?name" using g itoa_inj by (auto simp: glob_match_def Let_def)
  qed (simp add: glob_match_def Let_def numeral_3_eq_3)
  then show ?thesis using slash by simp
qed

lemma map_file_inj:
  assumes "0 \<le> i" "0 \<le> j" "0 \<le> n" "0 \<le> k" shows "map_file i n = map_file j k \<longleftrightarrow> i = j \<and> n = k"
  using dash_split[of "''mr-'' @ itoa i" "itoa n" "''mr-'' @ itoa j" "itoa k"] itoa_digits itoa_inj assms
  by (auto simp: map_file_def)

lemma map_file_out_file: assumes "0 \<le> i" "0 \<le> n" "0 \<le> k" shows "map_file i n \<noteq> out_file k"
proof
  assume "map_file i n = out_file k"
  then have "(''mr-'' @ itoa i) @ ''-'' @ itoa n = ''mr-out'' @ ''-'' @ itoa k" by (simp add: map_file_def out_file_def)
  from dash_split[OF this] have "itoa i = ''out''" using assms itoa_digits by simp
  then show False using itoa_digits[OF assms(1)] by (simp add: digit_def)
qed

lemma out_file_inj: "0 \<le> n \<Longrightarrow> 0 \<le> k \<Longrightarrow> out_file n = out_file k \<longleftrightarrow> n = k"
  by (simp add: out_file_def itoa_inj)

lemma glob_map_file: "0 \<le> i \<Longrightarrow> 0 \<le> n \<Longrightarrow> 0 \<le> k \<Longrightarrow> glob_match n (map_file i k) \<longleftrightarrow> n = k"
  using glob_match_iff[of n k "itoa i"] itoa_digits[of i] by (force simp: map_file_def)

lemma glob_out_file: "0 \<le> n \<Longrightarrow> 0 \<le> k \<Longrightarrow> glob_match n (out_file k) \<longleftrightarrow> n = k"
  using glob_match_iff[of n k "''out''"] by (simp add: out_file_def)

end
