(* ===== verification/MapReduce_Job.thy ===== *)
theory MapReduce_Job
  imports MapReduce
begin

text \<open>
  The loop of \<^verbatim>\<open>Worker\<close> in \<^verbatim>\<open>mr/worker.go\<close> against the master and the working directory, and the result of a
  whole job: the lines of the files \<^verbatim>\<open>mr-out-N\<close> together are the lines of \<^verbatim>\<open>mrsequential\<close>.
\<close>

section \<open>The worker\<close>

definition CallforTask :: "string list \<Rightarrow> int \<Rightarrow> master \<Rightarrow> int \<Rightarrow> master \<times> MrReply" where
  "CallforTask order now m ident =
    GiveTask order now m \<lparr>arg_TaskType = 0, arg_TaskName = '''', arg_WorkerId = ident, arg_TaskId = 0\<rparr>"

definition CallforTaskFinish :: "master \<Rightarrow> MrArgs \<Rightarrow> master option" where
  "CallforTaskFinish m args = TaskFinish m args"

definition Worker_turn :: "json \<Rightarrow> (KeyValue list \<Rightarrow> KeyValue list) \<Rightarrow> (string \<Rightarrow> string \<Rightarrow> KeyValue list)
    \<Rightarrow> (string \<Rightarrow> string list \<Rightarrow> string) \<Rightarrow> string list \<Rightarrow> int \<Rightarrow> master \<times> fs \<times> int \<Rightarrow> (master \<times> fs \<times> int) option" where
  "Worker_turn js sort_fn mapf reducef order now st =
    (let (m, fs, ident) = st; (m, reply) = CallforTask order now m ident
     in if ident = 0 \<and> WorkerId reply = 0 then None
        else
          let ident = (if ident = 0 then WorkerId reply else ident)
          in if TaskName reply \<noteq> '''' \<and> TaskType reply = 1 then do {
               fs \<leftarrow> doMap js fs reply mapf;
               m \<leftarrow> CallforTaskFinish m
                 \<lparr>arg_TaskType = 1, arg_TaskName = TaskName reply, arg_WorkerId = 0, arg_TaskId = 0\<rparr>;
               Some (m, fs, ident) }
             else if TaskType reply = 2 then do {
               fs \<leftarrow> doReduce js sort_fn fs reply reducef;
               m \<leftarrow> CallforTaskFinish m
                 \<lparr>arg_TaskType = 2, arg_TaskName = '''', arg_WorkerId = 0, arg_TaskId = TaskId reply\<rparr>;
               Some (m, fs, ident) }
             else Some (m, fs, ident))"

fun Worker :: "nat \<Rightarrow> json \<Rightarrow> (KeyValue list \<Rightarrow> KeyValue list) \<Rightarrow> (string \<Rightarrow> string \<Rightarrow> KeyValue list)
    \<Rightarrow> (string \<Rightarrow> string list \<Rightarrow> string) \<Rightarrow> (nat \<Rightarrow> string list) \<Rightarrow> (nat \<Rightarrow> int) \<Rightarrow> master \<times> fs \<times> int
    \<Rightarrow> (master \<times> fs \<times> int) option" where
  "Worker 0 js sort_fn mapf reducef orders clock st = Some st"
| "Worker (Suc k) js sort_fn mapf reducef orders clock st = do {
     st \<leftarrow> Worker_turn js sort_fn mapf reducef (orders k) (clock k) st;
     Worker k js sort_fn mapf reducef orders clock st }"

section \<open>A job and its intermediate results\<close>

record job =
  j_js :: json
  j_sort :: "KeyValue list \<Rightarrow> KeyValue list"
  j_map :: "string \<Rightarrow> string \<Rightarrow> KeyValue list"
  j_reduce :: "string \<Rightarrow> string list \<Rightarrow> string"
  j_files :: "string list"
  j_fs :: fs
  j_R :: nat

abbreviation j_n :: "job \<Rightarrow> nat" where
  "j_n J \<equiv> length (j_files J)"

definition kva :: "job \<Rightarrow> nat \<Rightarrow> KeyValue list" where
  "kva J i = j_map J (j_files J ! i) (the (map_of (j_fs J) (j_files J ! i)))"

definition bucket :: "job \<Rightarrow> nat \<Rightarrow> nat \<Rightarrow> KeyValue list" where
  "bucket J i N = filter (\<lambda>kv. ihash (KeyOf kv) mod int (j_R J) = int N) (kva J i)"

definition bucket_text :: "job \<Rightarrow> nat \<Rightarrow> nat \<Rightarrow> string" where
  "bucket_text J i N = concat (map (js_enc (j_js J)) (bucket J i N))"

text \<open>
  What the job relies on: the encoder and the decoder of \<^verbatim>\<open>encoding/json\<close> are inverse on the pairs in \<open>V\<close>
  that the map function emits, the sort sorts, and the input files exist and are not named like the
  files of the job.
\<close>

definition json_ok :: "json \<Rightarrow> KeyValue set \<Rightarrow> bool" where
  "json_ok js V \<longleftrightarrow> (\<forall>kvs. set kvs \<subseteq> V \<longrightarrow> js_dec js (concat (map (js_enc js) kvs)) = kvs)"

definition inputs_ok :: "job \<Rightarrow> bool" where
  "inputs_ok J \<longleftrightarrow> 0 < j_R J \<and> distinct (map fst (j_fs J)) \<and> distinct (j_files J) \<and> set (j_files J) \<subseteq> dom (map_of (j_fs J)) \<and>
     (\<forall>f\<in>dom (map_of (j_fs J)). f \<noteq> '''' \<and> take 3 f \<noteq> ''mr-'')"

definition job_ok :: "job \<Rightarrow> KeyValue set \<Rightarrow> bool" where
  "job_ok J V \<longleftrightarrow> json_ok (j_js J) V \<and> (\<forall>i<j_n J. set (kva J i) \<subseteq> V) \<and> sorts_by_key (j_sort J) \<and>
     order_free (j_reduce J) \<and> inputs_ok J"

section \<open>The map task\<close>

lemma fill_buckets_spec:
  assumes "0 < n" "length ofile = n"
  shows "fill_buckets js (int n) kvs ofile =
    Some (map (\<lambda>N. ofile ! N @ concat (map (js_enc js) (filter (\<lambda>kv. ihash (KeyOf kv) mod int n = int N) kvs))) [0..<n])"
  using assms(2)
proof (induction kvs arbitrary: ofile)
  case Nil
  then show ?case by (auto intro: nth_equalityI)
next
  case (Cons kv kvs)
  define i where "i = nat (ihash (KeyOf kv) mod int n)"
  have i: "ihash (KeyOf kv) mod int n = int i" "i < n" using assms(1) by (simp_all add: i_def nat_less_iff)
  then have "fill_buckets js (int n) (kv # kvs) ofile =
      fill_buckets js (int n) kvs (ofile[i := ofile ! i @ js_enc js kv])"
    using assms(1) Cons.prems by (simp add: Let_def upd_at_def)
  also have "\<dots> = Some (map (\<lambda>N. (ofile[i := ofile ! i @ js_enc js kv]) ! N @
      concat (map (js_enc js) (filter (\<lambda>kv. ihash (KeyOf kv) mod int n = int N) kvs))) [0..<n])"
    by (rule Cons.IH) (simp add: Cons.prems)
  also have "\<dots> = Some (map (\<lambda>N. ofile ! N @
      concat (map (js_enc js) (filter (\<lambda>kv. ihash (KeyOf kv) mod int n = int N) (kv # kvs)))) [0..<n])"
    using i Cons.prems by (auto simp: nth_list_update)
  finally show ?case .
qed

lemma rename_all_other:
  "(\<forall>k<length ofile. name \<noteq> map_file m (i + int k)) \<Longrightarrow> map_of (rename_all m i ofile fs) name = map_of fs name"
proof (induction ofile arbitrary: i fs)
  case (Cons f ofile)
  have "name \<noteq> map_file m i" using Cons.prems[rule_format, of 0] by simp
  moreover have "\<forall>k<length ofile. name \<noteq> map_file m (i + 1 + int k)"
    using Cons.prems by (metis Suc_less_eq add.assoc length_Cons of_nat_Suc add.commute)
  ultimately show ?case using Cons.IH[of "i + 1"] by simp
qed simp

lemma rename_all_nth:
  assumes "0 \<le> m" "0 \<le> i" "k < length ofile"
  shows "map_of (rename_all m i ofile fs) (map_file m (i + int k)) = Some (ofile ! k)"
  using assms(2,3)
proof (induction ofile arbitrary: i k fs)
  case (Cons f ofile)
  show ?case
  proof (cases k)
    case 0
    have "map_file m i \<noteq> map_file m (i + 1 + int k)" for k using map_file_inj assms(1) Cons.prems(1) by simp
    then show ?thesis using 0 rename_all_other[of ofile "map_file m i" m "i + 1"] by simp
  next
    case (Suc k')
    have k: "i + int k = i + 1 + int k'" using Suc by simp
    show ?thesis unfolding k using Cons.IH[of "i + 1" k'] Cons.prems Suc by simp
  qed
qed simp

lemma rename_all_distinct: "distinct (map fst fs) \<Longrightarrow> distinct (map fst (rename_all m i ofile fs))"
  by (induction ofile arbitrary: i fs) (simp_all add: distinct_write_file)

lemma doMap_files:
  assumes "map_of fs (TaskName reply) = Some content" "rep_NReduce reply = int R" "0 < R" "MapId reply = int i"
    "distinct (map fst fs)"
  shows "\<exists>fs'. doMap js fs reply mapf = Some fs' \<and> distinct (map fst fs') \<and>
    (\<forall>N<R. map_of fs' (map_file (int i) (int N)) =
       Some (concat (map (js_enc js) (filter (\<lambda>kv. ihash (KeyOf kv) mod int R = int N) (mapf (TaskName reply) content))))) \<and>
    (\<forall>name. (\<forall>N<R. name \<noteq> map_file (int i) (int N)) \<longrightarrow> map_of fs' name = map_of fs name)"
proof -
  define ofile where "ofile = map (\<lambda>N. concat (map (js_enc js)
      (filter (\<lambda>kv. ihash (KeyOf kv) mod int R = int N) (mapf (TaskName reply) content)))) [0..<R]"
  define fs' where "fs' = rename_all (int i) 0 ofile fs"
  have "map (\<lambda>N. replicate R '''' ! N @ concat (map (js_enc js)
      (filter (\<lambda>kv. ihash (KeyOf kv) mod int R = int N) (mapf (TaskName reply) content)))) [0..<R] = ofile"
    unfolding ofile_def by simp
  then have "doMap js fs reply mapf = Some fs'"
    using assms(1-4) fill_buckets_spec[of R "replicate R ''''" js "mapf (TaskName reply) content"]
    by (simp add: doMap_def fs'_def)
  moreover have "map_of fs' (map_file (int i) (int N)) = Some (ofile ! N)" if "N < R" for N
    unfolding fs'_def using rename_all_nth[of "int i" 0 N ofile fs] that by (simp add: ofile_def)
  moreover have "map_of fs' name = map_of fs name" if "\<forall>N<R. name \<noteq> map_file (int i) (int N)" for name
    unfolding fs'_def using that by (intro rename_all_other) (simp add: ofile_def)
  moreover have "distinct (map fst fs')" unfolding fs'_def using assms(5) by (rule rename_all_distinct)
  ultimately show ?thesis by (intro exI[of _ fs']) (simp add: ofile_def)
qed

section \<open>The directory while a job runs\<close>

text \<open>
  \<open>D\<close> is the set of the map tasks done, \<open>E\<close> the set of the reduce tasks done.
\<close>

definition reduced :: "job \<Rightarrow> fs \<Rightarrow> nat \<Rightarrow> bool" where
  "reduced J fs N \<longleftrightarrow> (\<exists>kvs. mset kvs = (\<Sum>i<j_n J. mset (bucket J i N)) \<and>
     map_of fs (out_file (int N)) =
       (if kvs = [] then None else Some (concat (map (fmt (j_reduce J)) (runs (j_sort J kvs))))))"

definition directory :: "job \<Rightarrow> nat set \<Rightarrow> nat set \<Rightarrow> fs \<Rightarrow> bool" where
  "directory J D E fs \<longleftrightarrow> distinct (map fst fs) \<and>
     (\<forall>i\<in>D. \<forall>N<j_R J. map_of fs (map_file (int i) (int N)) = Some (bucket_text J i N)) \<and>
     (\<forall>name. (\<forall>i\<in>D. \<forall>N<j_R J. name \<noteq> map_file (int i) (int N)) \<and> (\<forall>N\<in>E. name \<noteq> out_file (int N)) \<longrightarrow>
        map_of fs name = map_of (j_fs J) name) \<and>
     (\<forall>N\<in>E. reduced J fs N)"

lemma directoryD:
  assumes "directory J D E fs"
  shows "distinct (map fst fs)"
    "i \<in> D \<Longrightarrow> N < j_R J \<Longrightarrow> map_of fs (map_file (int i) (int N)) = Some (bucket_text J i N)"
    "\<lbrakk>\<And>i N. i \<in> D \<Longrightarrow> N < j_R J \<Longrightarrow> name \<noteq> map_file (int i) (int N); \<And>N. N \<in> E \<Longrightarrow> name \<noteq> out_file (int N)\<rbrakk>
      \<Longrightarrow> map_of fs name = map_of (j_fs J) name"
    "N \<in> E \<Longrightarrow> reduced J fs N"
  using assms unfolding directory_def by blast+

lemma mr_prefix: "take 3 (map_file i N) = ''mr-''" "take 3 (out_file N) = ''mr-''"
  by (simp_all add: map_file_def out_file_def)

lemma input_name:
  assumes "inputs_ok J" "f \<in> dom (map_of (j_fs J))"
  shows "f \<noteq> map_file i N" "f \<noteq> out_file N"
  using assms mr_prefix unfolding inputs_ok_def by metis+

lemma directory_start: "inputs_ok J \<Longrightarrow> directory J {} {} (j_fs J)"
  by (simp add: directory_def inputs_ok_def)

lemma directory_map:
  assumes ok: "inputs_ok J" and d: "directory J D E fs" and i: "i < j_n J"
    and reply: "TaskName reply = j_files J ! i" "MapId reply = int i" "rep_NReduce reply = int (j_R J)"
  shows "\<exists>fs'. doMap (j_js J) fs reply (j_map J) = Some fs' \<and> directory J (insert i D) E fs'"
proof -
  have R: "0 < j_R J" and f: "j_files J ! i \<in> dom (map_of (j_fs J))" using ok nth_mem[OF i] unfolding inputs_ok_def by blast+
  then obtain content where c: "map_of (j_fs J) (j_files J ! i) = Some content" by auto
  have "map_of fs (TaskName reply) = Some content"
    unfolding reply(1) c[symmetric] by (rule directoryD(3)[OF d]) (use input_name[OF ok f] in auto)
  from doMap_files[OF this reply(3) R reply(2) directoryD(1)[OF d], of "j_js J" "j_map J"] obtain fs' where
    fs': "doMap (j_js J) fs reply (j_map J) = Some fs'" "distinct (map fst fs')"
      "\<forall>N<j_R J. map_of fs' (map_file (int i) (int N)) = Some (bucket_text J i N)"
      "\<And>name. (\<forall>N<j_R J. name \<noteq> map_file (int i) (int N)) \<Longrightarrow> map_of fs' name = map_of fs name"
    unfolding bucket_text_def bucket_def kva_def c option.sel reply(1) by blast
  have out: "map_of fs' (out_file (int N)) = map_of fs (out_file (int N))" for N
    by (rule fs'(4)) (metis map_file_out_file of_nat_0_le_iff)
  have "map_of fs' (map_file (int k) (int N)) = Some (bucket_text J k N)" if "k \<in> insert i D" "N < j_R J" for k N
  proof (cases "k = i")
    case False
    then have "map_of fs' (map_file (int k) (int N)) = map_of fs (map_file (int k) (int N))"
      by (intro fs'(4)) (simp add: map_file_inj)
    then show ?thesis using directoryD(2)[OF d _ that(2)] that(1) False by simp
  qed (use fs'(3) that in simp)
  moreover have "map_of fs' name = map_of (j_fs J) name"
    if "\<forall>k\<in>insert i D. \<forall>N<j_R J. name \<noteq> map_file (int k) (int N)" "\<forall>N\<in>E. name \<noteq> out_file (int N)" for name
    using that fs'(4)[of name] directoryD(3)[OF d, of name] by simp
  moreover have "reduced J fs' N" if "N \<in> E" for N using directoryD(4)[OF d that] out by (simp add: reduced_def)
  ultimately have "directory J (insert i D) E fs'" using fs'(2) unfolding directory_def by blast
  with fs'(1) show ?thesis by blast
qed

section \<open>The reduce task\<close>

lemma reduce_inputs:
  assumes ok: "inputs_ok J" and d: "directory J {..<j_n J} E fs" and N: "N < j_R J" "N \<notin> E"
  shows "{name \<in> dom (map_of fs). glob_match (int N) name} = (\<lambda>i. map_file (int i) (int N)) ` {..<j_n J}"
proof (intro equalityI subsetI)
  fix name assume n: "name \<in> {name \<in> dom (map_of fs). glob_match (int N) name}"
  then have g: "glob_match (int N) name" by simp
  then have pre: "take 3 name = ''mr-''" by (simp add: glob_match_def Let_def)
  show "name \<in> (\<lambda>i. map_file (int i) (int N)) ` {..<j_n J}"
  proof (rule ccontr)
    assume c: "name \<notin> (\<lambda>i. map_file (int i) (int N)) ` {..<j_n J}"
    have "map_of fs name = map_of (j_fs J) name"
    proof (rule directoryD(3)[OF d])
      fix i k assume "i \<in> {..<j_n J}" "k < j_R J"
      then show "name \<noteq> map_file (int i) (int k)" using c g glob_map_file by force
    next
      fix k assume "k \<in> E" then show "name \<noteq> out_file (int k)" using g glob_out_file N(2) by auto
    qed
    with n have "name \<in> dom (map_of (j_fs J))" by (simp add: domIff)
    then show False using ok pre by (auto simp: inputs_ok_def)
  qed
next
  fix name assume "name \<in> (\<lambda>i. map_file (int i) (int N)) ` {..<j_n J}"
  then obtain i where i: "i < j_n J" "name = map_file (int i) (int N)" by auto
  have "map_of fs name = Some (bucket_text J i N)" unfolding i(2) by (rule directoryD(2)[OF d _ N(1)]) (simp add: i(1))
  then show "name \<in> {name \<in> dom (map_of fs). glob_match (int N) name}" using i(2) glob_map_file by auto
qed

lemma mset_concat_distinct:
  "distinct xs \<Longrightarrow> mset (concat (map f xs)) = (\<Sum>x\<in>set xs. mset (f x))"
  by (induction xs) simp_all

lemma decoded_bucket: "job_ok J V \<Longrightarrow> i < j_n J \<Longrightarrow> js_dec (j_js J) (bucket_text J i N) = bucket J i N"
proof -
  assume "job_ok J V" "i < j_n J"
  moreover have "set (bucket J i N) \<subseteq> set (kva J i)" by (auto simp: bucket_def)
  ultimately show ?thesis unfolding job_ok_def json_ok_def bucket_text_def by (meson subset_trans)
qed

lemma those_map_Some: "\<forall>x\<in>set xs. f x = Some (g x) \<Longrightarrow> those (map f xs) = Some (map g xs)"
  by (induction xs) simp_all

lemma doReduce_box:
  assumes ok: "job_ok J V" and d: "directory J {..<j_n J} E fs" and N: "N < j_R J" "N \<notin> E"
  defines "names \<equiv> sort (filter (glob_match (int N)) (map fst fs))"
  shows "\<exists>contents. those (map (map_of fs) names) = Some contents \<and>
    mset (concat (map (js_dec (j_js J)) contents)) = (\<Sum>i<j_n J. mset (bucket J i N))"
proof -
  have io: "inputs_ok J" using ok by (simp add: job_ok_def)
  have "set names = {name \<in> dom (map_of fs). glob_match (int N) name}" by (auto simp: names_def dom_map_of_conv_image_fst)
  then have s: "set names = (\<lambda>i. map_file (int i) (int N)) ` {..<j_n J}" using reduce_inputs[OF io d N] by simp
  define content_of where "content_of name = the (map_of fs name)" for name
  have t: "map_of fs (map_file (int i) (int N)) = Some (bucket_text J i N)" if "i < j_n J" for i
    using directoryD(2)[OF d _ N(1)] that by simp
  then have those: "those (map (map_of fs) names) = Some (map content_of names)"
    by (intro those_map_Some) (auto simp: s content_of_def)
  have "distinct names" using directoryD(1)[OF d] by (simp add: names_def)
  then have "mset (concat (map (\<lambda>n. js_dec (j_js J) (content_of n)) names)) = (\<Sum>n\<in>set names. mset (js_dec (j_js J) (content_of n)))"
    by (rule mset_concat_distinct)
  also have "\<dots> = (\<Sum>i<j_n J. mset (js_dec (j_js J) (content_of (map_file (int i) (int N)))))"
    unfolding s by (subst sum.reindex) (auto simp: inj_on_def map_file_inj)
  also have "\<dots> = (\<Sum>i<j_n J. mset (bucket J i N))"
    using t decoded_bucket[OF ok] by (intro sum.cong refl) (simp add: content_of_def)
  finally show ?thesis using those by (simp add: comp_def)
qed

lemma directory_reduce:
  assumes ok: "job_ok J V" and d: "directory J {..<j_n J} E fs" and N: "N < j_R J" "N \<notin> E" and t: "TaskId reply = int N"
  shows "\<exists>fs'. doReduce (j_js J) (j_sort J) fs reply (j_reduce J) = Some fs' \<and> directory J {..<j_n J} (insert N E) fs'"
proof -
  obtain contents where c: "those (map (map_of fs) (sort (filter (glob_match (int N)) (map fst fs)))) = Some contents"
    "mset (concat (map (js_dec (j_js J)) contents)) = (\<Sum>i<j_n J. mset (bucket J i N))"
    using doReduce_box[OF ok d N] by blast
  define kvs where "kvs = concat (map (js_dec (j_js J)) contents)"
  define out where "out = concat (map (fmt (j_reduce J)) (runs (j_sort J kvs)))"
  define fs' where "fs' = (if kvs = [] then fs else write_file fs (out_file (int N)) out)"
  have sorts: "mset (j_sort J kvs) = mset kvs" using ok by (simp add: job_ok_def sorts_by_key_def)
  have "reduce_scan (j_reduce J) (j_sort J kvs) [0..<length (j_sort J kvs)] 0 [] = map (fmt (j_reduce J)) (runs (j_sort J kvs))"
    if "kvs \<noteq> []"
  proof -
    have "j_sort J kvs \<noteq> []" using sorts that by (metis mset_zero_iff)
    then show ?thesis using reduce_scan_runs[of 0 "j_sort J kvs" 0 "j_reduce J" "[]"] by simp
  qed
  then have r: "doReduce (j_js J) (j_sort J) fs reply (j_reduce J) = Some fs'"
    unfolding doReduce_def t using c(1) by (simp add: Let_def kvs_def fs'_def out_def)
  have o: "map_of fs (out_file (int N)) = None"
  proof -
    have "map_of fs (out_file (int N)) = map_of (j_fs J) (out_file (int N))"
      by (rule directoryD(3)[OF d]) (metis map_file_out_file of_nat_0_le_iff, use out_file_inj N(2) in auto)
    then show ?thesis using input_name(2) ok by (metis domIff job_ok_def)
  qed
  have "map_of fs' name = map_of fs name" if "name \<noteq> out_file (int N)" for name using that by (simp add: fs'_def)
  note other = this
  have "reduced J fs' k" if "k \<in> insert N E" for k
  proof (cases "k = N")
    case True
    then show ?thesis unfolding reduced_def using c(2) o by (intro exI[of _ kvs]) (simp add: fs'_def out_def kvs_def)
  next
    case False
    then have "reduced J fs k" using that directoryD(4)[OF d] by simp
    then show ?thesis using False other[of "out_file (int k)"] by (simp add: reduced_def out_file_inj)
  qed
  moreover have "map_of fs' (map_file (int i) (int k)) = Some (bucket_text J i k)" if "i < j_n J" "k < j_R J" for i k
    using directoryD(2)[OF d _ that(2), of i] that(1) other map_file_out_file by simp
  moreover have "distinct (map fst fs')" using directoryD(1)[OF d] by (simp add: fs'_def distinct_write_file)
  moreover have "map_of fs' name = map_of (j_fs J) name"
    if "\<forall>i\<in>{..<j_n J}. \<forall>N<j_R J. name \<noteq> map_file (int i) (int N)" "\<forall>k\<in>insert N E. name \<noteq> out_file (int k)" for name
    using that other[of name] directoryD(3)[OF d, of name] by simp
  ultimately have "directory J {..<j_n J} (insert N E) fs'" unfolding directory_def by blast
  with r show ?thesis by blast
qed

section \<open>The master and the directory together\<close>

definition job_linked :: "job \<Rightarrow> master \<Rightarrow> bool" where
  "job_linked J m \<longleftrightarrow> dom (mmap m) = set (j_files J) \<and> (\<forall>i<j_n J. f2id m (j_files J ! i) = Some (int i)) \<and>
     NReduce m = int (j_R J) \<and> length (rtask m) = j_R J \<and> 1 \<le> nextId m"

definition maps_done :: "job \<Rightarrow> master \<Rightarrow> nat set" where
  "maps_done J m = {i. i < j_n J \<and> mmap m (j_files J ! i) = Some 2}"

definition reduces_done :: "job \<Rightarrow> master \<Rightarrow> nat set" where
  "reduces_done J m = {N. N < j_R J \<and> rtask m ! N = 2}"

definition perform :: "job \<Rightarrow> fs \<Rightarrow> MrReply \<Rightarrow> fs option" where
  "perform J fs reply = (if TaskName reply \<noteq> '''' \<and> TaskType reply = 1 then doMap (j_js J) fs reply (j_map J)
     else if TaskType reply = 2 then doReduce (j_js J) (j_sort J) fs reply (j_reduce J) else Some fs)"

lemma GiveTask_WorkerId: "WorkerId (snd (GiveTask order now m args)) = (if arg_WorkerId args = 0 then nextId m else 0)"
  by (simp add: GiveTask_def empty_reply_def Let_def split: option.splits)

lemma worker_turn_WorkerId:
  "worker_turn order now m ident = Some (m', reply) \<Longrightarrow> WorkerId reply = (if ident = 0 then nextId m else 0)"
  using GiveTask_WorkerId[of order now m "\<lparr>arg_TaskType = 0, arg_TaskName = '''', arg_WorkerId = ident, arg_TaskId = 0\<rparr>"]
  by (auto simp: worker_turn_def Let_def bind_Some_iff split: prod.splits if_splits)

lemma Worker_turn_perform:
  assumes "worker_turn order now m ident = Some (m', reply)" "nextId m \<noteq> 0" "perform J fs reply = Some fs'"
  shows "Worker_turn (j_js J) (j_sort J) (j_map J) (j_reduce J) order now (m, fs, ident) =
    Some (m', fs', if ident = 0 then WorkerId reply else ident)"
proof -
  define args where "args = \<lparr>arg_TaskType = 0, arg_TaskName = '''', arg_WorkerId = ident, arg_TaskId = 0\<rparr>"
  obtain m1 r where g: "GiveTask order now m args = (m1, r)" by (cases "GiveTask order now m args")
  have r: "r = reply" using assms(1) g by (auto simp: worker_turn_def args_def Let_def bind_Some_iff split: if_splits)
  have "\<not> (ident = 0 \<and> WorkerId reply = 0)" using worker_turn_WorkerId[OF assms(1)] assms(2) by simp
  then show ?thesis using assms(1,3) g[unfolded args_def]
    by (auto simp: Worker_turn_def CallforTask_def CallforTaskFinish_def worker_turn_def perform_def Let_def r
        bind_Some_iff split: if_splits)
qed

lemma maps_done_all: assumes "settled m" "job_linked J m" "mdone m" shows "maps_done J m = {..<j_n J}"
proof -
  have "mmap m (j_files J ! i) = Some 2" if i: "i < j_n J" for i
  proof -
    have "j_files J ! i \<in> dom (mmap m)" using nth_mem[OF i] assms(2) by (simp add: job_linked_def)
    then obtain v where v: "mmap m (j_files J ! i) = Some v" by blast
    with assms(1,3) have "v = 2" unfolding settled_def by blast
    with v show ?thesis by simp
  qed
  then show ?thesis by (auto simp: maps_done_def)
qed

lemma reduces_done_all: assumes "settled m" "job_linked J m" "rdone m" shows "reduces_done J m = {..<j_R J}"
proof -
  have "\<forall>v\<in>set (rtask m). v = 2" "length (rtask m) = j_R J" using assms unfolding settled_def job_linked_def by blast+
  then show ?thesis by (auto simp: reduces_done_def)
qed

lemma job_step:
  assumes ok: "job_ok J V" and l: "job_linked J m" and d: "directory J (maps_done J m) (reduces_done J m) fs"
    and s: "settled m" and e: "turn_effect m m' reply"
  shows "\<exists>fs'. perform J fs reply = Some fs' \<and> directory J (maps_done J m') (reduces_done J m') fs' \<and> job_linked J m'"
proof -
  have io: "inputs_ok J" using ok by (simp add: job_ok_def)
  consider (map) "TaskType reply = 1" | (reduce) "TaskType reply = 2" | (none) "TaskType reply = 0"
    using e by (auto simp: turn_effect_def)
  then show ?thesis
  proof cases
    case map
    with e have m: "TaskName reply \<noteq> ''''" "mmap m (TaskName reply) = Some (-1)"
      "MapId reply = (case f2id m (TaskName reply) of Some k \<Rightarrow> k | None \<Rightarrow> 0)" "rep_NReduce reply = NReduce m"
      "mmap m' = (mmap m)(TaskName reply \<mapsto> 2)" "rtask m' = rtask m" by (simp_all add: turn_effect_def)
    have "TaskName reply \<in> set (j_files J)" using m(2) l by (auto simp: job_linked_def)
    then obtain i where i: "i < j_n J" "TaskName reply = j_files J ! i" by (auto simp: in_set_conv_nth)
    have "MapId reply = int i" "rep_NReduce reply = int (j_R J)" using m(3,4) l i by (simp_all add: job_linked_def)
    from directory_map[OF io d i(1,2) this] obtain fs' where
      fs': "doMap (j_js J) fs reply (j_map J) = Some fs'" "directory J (insert i (maps_done J m)) (reduces_done J m) fs'" by blast
    have "maps_done J m' = insert i (maps_done J m)"
      using i io by (auto simp: maps_done_def m(5) inputs_ok_def nth_eq_iff_index_eq)
    moreover have "reduces_done J m' = reduces_done J m" by (simp add: reduces_done_def m(6))
    moreover have "job_linked J m'" using l e m by (auto simp: job_linked_def turn_effect_def)
    ultimately show ?thesis using fs' map m(1) by (simp add: perform_def)
  next
    case reduce
    with e obtain N where m: "mdone m" "N < length (rtask m)" "TaskId reply = int N" "rtask m ! N = -1"
      "rtask m' = (rtask m)[N := 2]" "mmap m' = mmap m" by (auto simp: turn_effect_def)
    have N: "N < j_R J" using m(2) l by (simp add: job_linked_def)
    have all: "maps_done J m = {..<j_n J}" by (rule maps_done_all[OF s l m(1)])
    have notE: "N \<notin> reduces_done J m" using m(4) by (simp add: reduces_done_def)
    from directory_reduce[OF ok d[unfolded all] N notE m(3)] obtain fs' where
      fs': "doReduce (j_js J) (j_sort J) fs reply (j_reduce J) = Some fs'"
        "directory J {..<j_n J} (insert N (reduces_done J m)) fs'" by blast
    have "reduces_done J m' = insert N (reduces_done J m)"
      using m(2) N l by (auto simp: reduces_done_def m(5) job_linked_def nth_list_update)
    moreover have "maps_done J m' = {..<j_n J}" using all by (simp add: maps_done_def m(6))
    moreover have "job_linked J m'" using l e m by (auto simp: job_linked_def turn_effect_def)
    ultimately show ?thesis using fs' reduce by (simp add: perform_def)
  next
    case none
    with e have m: "mmap m' = mmap m" "rtask m' = rtask m" by (simp_all add: turn_effect_def)
    have "maps_done J m' = maps_done J m" "reduces_done J m' = reduces_done J m" by (simp_all add: maps_done_def reduces_done_def m)
    moreover have "job_linked J m'" using l e m by (auto simp: job_linked_def turn_effect_def)
    ultimately show ?thesis using d none by (simp add: perform_def)
  qed
qed

lemma Worker_completes:
  assumes ok: "job_ok J V" and o: "\<forall>k. set (orders k) = set (j_files J) \<and> distinct (orders k)"
    and "settled m" "job_linked J m" "directory J (maps_done J m) (reduces_done J m) fs" "left_to_do m = k"
  shows "\<exists>m' fs' ident'. Worker k (j_js J) (j_sort J) (j_map J) (j_reduce J) orders clock (m, fs, ident) = Some (m', fs', ident') \<and>
    Done m' \<and> directory J {..<j_n J} {..<j_R J} fs'"
  using assms(3-)
proof (induction k arbitrary: m fs ident)
  case 0
  then have d: "Done m" by (auto simp: left_to_do_def Done_def split: if_splits)
  then have "maps_done J m = {..<j_n J}" "reduces_done J m = {..<j_R J}"
    using maps_done_all[OF 0(1,2)] reduces_done_all[OF 0(1,2)] by (simp_all add: Done_def)
  with d 0(3) show ?case by simp
next
  case (Suc k)
  have r: "ranges_over (orders k) m" using Suc.prems(2) o by (simp add: ranges_over_def job_linked_def)
  have "\<not> Done m" using settled_done Suc.prems(1,4) by fastforce
  from settled_turn[OF Suc.prems(1) r this] obtain m1 reply where
    m1: "worker_turn (orders k) (clock k) m ident = Some (m1, reply)" "settled m1"
      "Suc (left_to_do m1) = left_to_do m" "turn_effect m m1 reply" by blast
  from job_step[OF ok Suc.prems(2,3,1) m1(4)] obtain fs1 where
    fs1: "perform J fs reply = Some fs1" "directory J (maps_done J m1) (reduces_done J m1) fs1" "job_linked J m1" by blast
  have "nextId m \<noteq> 0" using Suc.prems(2) by (simp add: job_linked_def)
  from Worker_turn_perform[OF m1(1) this fs1(1)] Suc.IH[OF m1(2) fs1(3,2)] m1(3) Suc.prems(4)
  show ?case by simp
qed

section \<open>The lines written\<close>

lemma image_mset_set: "finite A \<Longrightarrow> image_mset g (mset_set A) = (\<Sum>a\<in>A. {#g a#})"
  by (induction A rule: finite_induct) simp_all

lemma filter_mset_sum: "finite A \<Longrightarrow> filter_mset P (\<Sum>a\<in>A. f a) = (\<Sum>a\<in>A. filter_mset P (f a))"
  by (induction A rule: finite_induct) simp_all

lemma seq_intermediate_kva:
  assumes "set files \<subseteq> dom (map_of fs)"
  shows "seq_intermediate fs mapf files = Some (concat (map (\<lambda>f. mapf f (the (map_of fs f))) files))"
  using assms by (induction files) auto

lemma bucket_lines:
  assumes ok: "sorts_by_key (j_sort J)" "order_free (j_reduce J)"
    and kvs: "mset kvs = filter_mset (\<lambda>kv. ihash (KeyOf kv) mod int (j_R J) = int N) (mset all_kvs)"
  shows "mset (map (fmt (j_reduce J)) (runs (j_sort J kvs))) =
    (\<Sum>k\<in>{k \<in> KeyOf ` set all_kvs. ihash k mod int (j_R J) = int N}. {#fmt (j_reduce J) (k, values_of all_kvs k)#})"
proof -
  let ?h = "\<lambda>k. ihash k mod int (j_R J) = int N"
  have set_kvs: "set kvs = {kv \<in> set all_kvs. ?h (KeyOf kv)}" using kvs by (metis set_mset_mset set_mset_filter mem_Collect_eq)
  then have keys: "KeyOf ` set kvs = {k \<in> KeyOf ` set all_kvs. ?h k}" by auto
  have "fmt (j_reduce J) (k, values_of kvs k) = fmt (j_reduce J) (k, values_of all_kvs k)" if "?h k" for k
  proof -
    have "filter_mset (\<lambda>kv. KeyOf kv = k) (mset kvs) = filter_mset (\<lambda>kv. KeyOf kv = k) (mset all_kvs)"
      unfolding kvs filter_filter_mset using that by (intro filter_mset_cong) auto
    then have "mset (values_of kvs k) = mset (values_of all_kvs k)" by (simp add: values_of_def mset_filter)
    then show ?thesis using ok(2) unfolding order_free_def fmt_def fst_conv snd_conv by metis
  qed
  then show ?thesis unfolding mset_sorted_runs[OF ok] keys
    by (subst image_mset_set) (auto intro!: sum.cong)
qed

lemma directory_lines:
  assumes ok: "job_ok J V" and d: "directory J {..<j_n J} {..<j_R J} fs"
  shows "\<exists>out lines fs''. (\<forall>N<j_R J. map_of fs (out_file (int N)) = (if out N = [] then None else Some (concat (out N)))) \<and>
    mrsequential (j_sort J) (j_fs J) (j_map J) (j_reduce J) (j_files J) = Some (lines, fs'') \<and>
    (\<Sum>N<j_R J. mset (out N)) = mset lines"
proof -
  note ok' = ok[unfolded job_ok_def]
  have R: "0 < j_R J" and sub: "set (j_files J) \<subseteq> dom (map_of (j_fs J))" using ok' by (simp_all add: inputs_ok_def)
  define all_kvs where "all_kvs = concat (map (\<lambda>f. j_map J f (the (map_of (j_fs J) f))) (j_files J))"
  have "map (\<lambda>f. j_map J f (the (map_of (j_fs J) f))) (j_files J) = map (kva J) [0..<j_n J]"
    by (rule nth_equalityI) (simp_all add: kva_def)
  then have all: "mset all_kvs = (\<Sum>i<j_n J. mset (kva J i))"
    unfolding all_kvs_def using mset_concat_distinct[of "[0..<j_n J]" "kva J"] by (simp add: atLeast0LessThan)
  define g where "g k = {#fmt (j_reduce J) (k, values_of all_kvs k)#}" for k
  define h where "h k = nat (ihash k mod int (j_R J))" for k
  have h: "ihash k mod int (j_R J) = int N \<longleftrightarrow> h k = N" "h k < j_R J" for k N using R by (auto simp: h_def nat_less_iff)
  have "\<forall>N\<in>{..<j_R J}. \<exists>kvs. mset kvs = (\<Sum>i<j_n J. mset (bucket J i N)) \<and> map_of fs (out_file (int N)) =
      (if kvs = [] then None else Some (concat (map (fmt (j_reduce J)) (runs (j_sort J kvs)))))"
    using directoryD(4)[OF d] by (simp add: reduced_def)
  then obtain box where box: "\<And>N. N < j_R J \<Longrightarrow> mset (box N) = (\<Sum>i<j_n J. mset (bucket J i N))"
    "\<And>N. N < j_R J \<Longrightarrow> map_of fs (out_file (int N)) =
      (if box N = [] then None else Some (concat (map (fmt (j_reduce J)) (runs (j_sort J (box N))))))"
    unfolding bchoice_iff lessThan_iff by blast
  define out where "out N = map (fmt (j_reduce J)) (runs (j_sort J (box N)))" for N
  have "mset (box N) = filter_mset (\<lambda>kv. ihash (KeyOf kv) mod int (j_R J) = int N) (mset all_kvs)" if "N < j_R J" for N
    unfolding box(1)[OF that] all by (simp add: filter_mset_sum bucket_def)
  then have lines: "mset (out N) = (\<Sum>k\<in>{k \<in> KeyOf ` set all_kvs. h k = N}. g k)" if "N < j_R J" for N
    unfolding out_def g_def h(1)[symmetric] using that ok' by (intro bucket_lines) simp_all
  have "(\<Sum>N<j_R J. mset (out N)) = (\<Sum>N<j_R J. \<Sum>k\<in>{k \<in> KeyOf ` set all_kvs. h k = N}. g k)"
    using lines by (intro sum.cong) simp_all
  also have "\<dots> = (\<Sum>k\<in>KeyOf ` set all_kvs. g k)" using h(2) by (intro sum.group) auto
  also have "\<dots> = mset (map (fmt (j_reduce J)) (runs (j_sort J all_kvs)))"
    using ok' mset_sorted_runs[of "j_sort J" "j_reduce J" all_kvs] by (simp add: image_mset_set g_def)
  finally have "(\<Sum>N<j_R J. mset (out N)) = mset (seq_loop (j_reduce J) (j_sort J all_kvs) 0)" by (simp add: seq_loop_runs)
  moreover have "box N = [] \<longleftrightarrow> out N = []" for N
  proof -
    have "box N = [] \<longleftrightarrow> j_sort J (box N) = []" using ok' by (metis sorts_by_key_def mset_zero_iff mset.simps(1))
    also have "\<dots> \<longleftrightarrow> out N = []" unfolding out_def by (cases "j_sort J (box N)") simp_all
    finally show ?thesis .
  qed
  then have "\<forall>N<j_R J. map_of fs (out_file (int N)) = (if out N = [] then None else Some (concat (out N)))"
    using box(2) by (simp add: out_def)
  moreover have "\<exists>fs''. mrsequential (j_sort J) (j_fs J) (j_map J) (j_reduce J) (j_files J) =
      Some (seq_loop (j_reduce J) (j_sort J all_kvs) 0, fs'')"
    using seq_intermediate_kva[OF sub] by (simp add: mrsequential_def all_kvs_def Let_def)
  ultimately show ?thesis by blast
qed

section \<open>Properties\<close>

lemma job_output:
  assumes "job_ok J V" "MakeMaster (j_files J) (int (j_R J)) = Some m"
    and "\<forall>k. set (orders k) = set (j_files J) \<and> distinct (orders k)"
  shows "\<exists>m' fs' ident' out lines fs''.
    Worker (length (j_files J) + j_R J + 2) (j_js J) (j_sort J) (j_map J) (j_reduce J) orders clock (m, j_fs J, 0) =
      Some (m', fs', ident') \<and> Done m' \<and>
    (\<forall>N<j_R J. map_of fs' (out_file (int N)) = (if out N = [] then None else Some (concat (out N)))) \<and>
    mrsequential (j_sort J) (j_fs J) (j_map J) (j_reduce J) (j_files J) = Some (lines, fs'') \<and>
    (\<Sum>N<j_R J. mset (out N)) = mset lines"
proof -
  have io: "inputs_ok J" using assms(1) by (simp add: job_ok_def)
  then have files: "distinct (j_files J)" "'''' \<notin> set (j_files J)" unfolding inputs_ok_def by blast+
  note start = MakeMaster_start[OF assms(2) files(2)]
  have l: "job_linked J m" using start number_files_nth[OF files(1), of _ 0 Map.empty] by (simp add: job_linked_def)
  have left: "left_to_do m = j_n J + j_R J + 2" using start(2) distinct_card[OF files(1)] by simp
  have "maps_done J m = {}" "reduces_done J m = {}" using start by (auto simp: maps_done_def reduces_done_def)
  with directory_start[OF io] have "directory J (maps_done J m) (reduces_done J m) (j_fs J)" by simp
  from Worker_completes[OF assms(1,3) start(1) l this left, of clock 0] obtain m' fs' ident' where
    w: "Worker (length (j_files J) + j_R J + 2) (j_js J) (j_sort J) (j_map J) (j_reduce J) orders clock (m, j_fs J, 0) =
      Some (m', fs', ident')" "Done m'" "directory J {..<j_n J} {..<j_R J} fs'" by auto
  from directory_lines[OF assms(1) w(3)] w(1,2) show ?thesis by blast
qed

text \<open>
  \<^bold>\<open>C6\<close>. A worker driven by the master finishes the job in as many turns as there are files and reduce
  tasks plus two, and the lines of the files mr-out-N together are exactly the lines of the
  sequential program, as a multiset, for any sort by key, any map-iteration order and a reduce
  function that ignores the order of its values. The input files are distinct, exist, and share the
  directory with no file whose name starts with mr-; there is at least one reduce task; and decoding
  a file of encoded pairs gives back the pairs the map function emits.
\<close>

theorem job_equals_sequential:
  assumes "job_ok J V" "MakeMaster (j_files J) (int (j_R J)) = Some m"
    and "\<forall>k. set (orders k) = set (j_files J) \<and> distinct (orders k)"
  shows "\<exists>m' fs' ident' out lines fs''.
    Worker (length (j_files J) + j_R J + 2) (j_js J) (j_sort J) (j_map J) (j_reduce J) orders clock (m, j_fs J, 0) =
      Some (m', fs', ident') \<and> Done m' \<and>
    (\<forall>N<j_R J. map_of fs' (out_file (int N)) = (if out N = [] then None else Some (concat (out N)))) \<and>
    mrsequential (j_sort J) (j_fs J) (j_map J) (j_reduce J) (j_files J) = Some (lines, fs'') \<and>
    (\<Sum>N<j_R J. mset (out N)) = mset lines"
  by (rule job_output[OF assms])

fun tiny_dec :: "string \<Rightarrow> KeyValue list" where
  "tiny_dec (a # b # s) = \<lparr>KeyOf = [a], ValueOf = [b]\<rparr> # tiny_dec s"
| "tiny_dec s = []"

definition tiny_json :: json where
  "tiny_json = \<lparr>js_enc = (\<lambda>kv. KeyOf kv @ ValueOf kv), js_dec = tiny_dec\<rparr>"

definition tiny_job :: job where
  "tiny_job = \<lparr>j_js = tiny_json, j_sort = sort_key KeyOf, j_map = (\<lambda>f s. map (\<lambda>c. \<lparr>KeyOf = [c], ValueOf = ''1''\<rparr>) s),
    j_reduce = (\<lambda>k vs. itoa (int (length vs))), j_files = [''a'', ''b''], j_fs = [(''a'', ''xy''), (''b'', ''y'')], j_R = 2\<rparr>"

lemma tiny_json_ok: "json_ok tiny_json {kv. length (KeyOf kv) = 1 \<and> length (ValueOf kv) = 1}"
proof -
  have "js_dec tiny_json (concat (map (js_enc tiny_json) kvs)) = kvs"
    if "\<forall>kv\<in>set kvs. length (KeyOf kv) = 1 \<and> length (ValueOf kv) = 1" for kvs
    using that
  proof (induction kvs)
    case (Cons kv kvs)
    then obtain a b where kv: "kv = \<lparr>KeyOf = [a], ValueOf = [b]\<rparr>" by (cases kv) (auto simp: length_Suc_conv)
    then show ?case using Cons by (simp add: tiny_json_def)
  qed (simp add: tiny_json_def)
  then show ?thesis by (auto simp: json_ok_def)
qed

theorem job_equals_sequential_witness:
  "\<exists>m m' fs' ident' out lines fs''. MakeMaster [''a'', ''b''] 2 = Some m \<and>
    Worker 6 (j_js tiny_job) (j_sort tiny_job) (j_map tiny_job) (j_reduce tiny_job) (\<lambda>_. [''b'', ''a'']) (\<lambda>_. 0)
      (m, j_fs tiny_job, 0) = Some (m', fs', ident') \<and> Done m' \<and>
    (\<forall>N<j_R tiny_job. map_of fs' (out_file (int N)) = (if out N = [] then None else Some (concat (out N)))) \<and>
    mrsequential (j_sort tiny_job) (j_fs tiny_job) (j_map tiny_job) (j_reduce tiny_job) (j_files tiny_job) = Some (lines, fs'') \<and>
    (\<Sum>N<j_R tiny_job. mset (out N)) = mset lines"
proof -
  obtain m where m: "MakeMaster [''a'', ''b''] 2 = Some m" by (simp add: MakeMaster_def)
  have "sorts_by_key (sort_key KeyOf)" by (simp add: sorts_by_key_def)
  moreover have "order_free (\<lambda>k vs. itoa (int (length vs)))" unfolding order_free_def by (metis mset_eq_length)
  ultimately have ok: "job_ok tiny_job {kv. length (KeyOf kv) = 1 \<and> length (ValueOf kv) = 1}"
    using tiny_json_ok by (auto simp: job_ok_def tiny_job_def kva_def inputs_ok_def less_Suc_eq)
  have mk: "MakeMaster (j_files tiny_job) (int (j_R tiny_job)) = Some m" using m by (simp add: tiny_job_def)
  have "\<forall>k :: nat. set [''b'', ''a''] = set (j_files tiny_job) \<and> distinct [''b'', ''a'']" by (auto simp: tiny_job_def)
  note all = job_equals_sequential[OF ok mk this, of "\<lambda>_. 0"]
  have "length (j_files tiny_job) + j_R tiny_job + 2 = 6" by (simp add: tiny_job_def)
  from all[unfolded this] m show ?thesis by blast
qed

end
