(* ===== verification/MrApps.thy ===== *)
theory MrApps
  imports MapReduce_Job
begin

text \<open>
  The applications of \<^verbatim>\<open>mrapps/\<close>: word count, the inverted index, and the four pseudo-applications
  that crash or watch each other, with the jobs that word count and the index make of
  the framework.  \<^verbatim>\<open>strings.FieldsFunc\<close> and the decoding of UTF-8 that it iterates with are modelled;
  the table behind \<^verbatim>\<open>unicode.IsLetter\<close> is an argument.  The order in which \<^verbatim>\<open>range\<close> visits a map,
  random draws, process ids and the clock are arguments as well.
\<close>

section \<open>Runes and fields\<close>

definition cont_byte :: "nat \<Rightarrow> bool" where
  "cont_byte b \<longleftrightarrow> 0x80 \<le> b \<and> b \<le> 0xBF"

text \<open>The rune at the front of a string and its width; an invalid byte is \<^verbatim>\<open>RuneError\<close> with width one.\<close>

definition decode_rune :: "nat list \<Rightarrow> nat \<times> nat" where
  "decode_rune bs = (case bs of
      [] \<Rightarrow> (0xFFFD, 0)
    | b0 # r \<Rightarrow>
       if b0 < 0x80 then (b0, 1)
       else if 0xC2 \<le> b0 \<and> b0 \<le> 0xDF then
         (case r of b1 # _ \<Rightarrow> if cont_byte b1 then (b0 mod 32 * 64 + b1 mod 64, 2) else (0xFFFD, 1) | _ \<Rightarrow> (0xFFFD, 1))
       else if 0xE0 \<le> b0 \<and> b0 \<le> 0xEF then
         (case r of b1 # b2 # _ \<Rightarrow>
             if (if b0 = 0xE0 then 0xA0 else 0x80) \<le> b1 \<and> b1 \<le> (if b0 = 0xED then 0x9F else 0xBF) \<and> cont_byte b2
             then (b0 mod 16 * 4096 + b1 mod 64 * 64 + b2 mod 64, 3) else (0xFFFD, 1)
           | _ \<Rightarrow> (0xFFFD, 1))
       else if 0xF0 \<le> b0 \<and> b0 \<le> 0xF4 then
         (case r of b1 # b2 # b3 # _ \<Rightarrow>
             if (if b0 = 0xF0 then 0x90 else 0x80) \<le> b1 \<and> b1 \<le> (if b0 = 0xF4 then 0x8F else 0xBF) \<and> cont_byte b2 \<and> cont_byte b3
             then (b0 mod 8 * 262144 + b1 mod 64 * 4096 + b2 mod 64 * 64 + b3 mod 64, 4) else (0xFFFD, 1)
           | _ \<Rightarrow> (0xFFFD, 1))
       else (0xFFFD, 1))"

lemma decode_rune_width: "bs \<noteq> [] \<Longrightarrow> 0 < snd (decode_rune bs) \<and> snd (decode_rune bs) \<le> length bs"
  by (auto simp: decode_rune_def split: list.splits)

text \<open>The pieces of a string that \<^verbatim>\<open>range\<close> visits, each with its rune.\<close>

function pieces :: "string \<Rightarrow> (nat \<times> string) list" where
  "pieces s = (if s = [] then []
     else let (r, w) = decode_rune (map of_char s) in (r, take w s) # pieces (drop w s))"
  by auto
termination
proof (relation "measure length")
  fix s :: string and x r w
  assume "s \<noteq> []" "x = decode_rune (map of_char s)" "(r, w) = x"
  then show "(drop w s, s) \<in> measure length" using decode_rune_width[of "map of_char s"] by (auto simp: prod_eq_iff)
qed simp

declare pieces.simps [simp del]

text \<open>\<^verbatim>\<open>strings.FieldsFunc\<close>: the second argument is the field begun so far.\<close>

fun fields_of :: "(nat \<Rightarrow> bool) \<Rightarrow> string \<Rightarrow> (nat \<times> string) list \<Rightarrow> string list" where
  "fields_of f cur [] = (if cur = [] then [] else [cur])"
| "fields_of f cur ((r, s) # ps) =
    (if f r then (if cur = [] then fields_of f [] ps else cur # fields_of f [] ps)
     else fields_of f (cur @ s) ps)"

definition FieldsFunc :: "string \<Rightarrow> (nat \<Rightarrow> bool) \<Rightarrow> string list" where
  "FieldsFunc s f = fields_of f [] (pieces s)"

definition Join :: "string list \<Rightarrow> string \<Rightarrow> string" where
  "Join vs sep = (case vs of [] \<Rightarrow> [] | v # vs \<Rightarrow> v @ concat (map (\<lambda>w. sep @ w) vs))"

section \<open>\<^verbatim>\<open>wc.go\<close> and \<^verbatim>\<open>indexer.go\<close>\<close>

definition wc_Map :: "(nat \<Rightarrow> bool) \<Rightarrow> string \<Rightarrow> string \<Rightarrow> KeyValue list" where
  "wc_Map isLetter filename contents =
    (let words = FieldsFunc contents (\<lambda>r. \<not> isLetter r)
     in map (\<lambda>w. \<lparr>KeyOf = w, ValueOf = ''1''\<rparr>) words)"

definition wc_Reduce :: "string \<Rightarrow> string list \<Rightarrow> string" where
  "wc_Reduce key values = itoa (int (length values))"

text \<open>\<open>range_keys\<close> lists the keys of the map \<^verbatim>\<open>m\<close>, whose keys are the words, in the order of \<^verbatim>\<open>range\<close>.\<close>

definition index_Map :: "(nat \<Rightarrow> bool) \<Rightarrow> (string list \<Rightarrow> string list) \<Rightarrow> string \<Rightarrow> string \<Rightarrow> KeyValue list" where
  "index_Map isLetter range_keys document content =
    (let words = FieldsFunc content (\<lambda>x. \<not> isLetter x)
     in map (\<lambda>w. \<lparr>KeyOf = w, ValueOf = document\<rparr>) (range_keys words))"

definition index_Reduce :: "string \<Rightarrow> string list \<Rightarrow> string" where
  "index_Reduce key values = (let values = sort values in itoa (int (length values)) @ '' '' @ Join values '','')"

section \<open>\<^verbatim>\<open>crash.go\<close> and \<^verbatim>\<open>nocrash.go\<close>\<close>

text \<open>
  \<open>rr\<close> is the draw below 1000 and \<open>ms\<close> the one below 10000.  \<open>None\<close> is \<^verbatim>\<open>os.Exit(1)\<close>; otherwise the
  result is the time slept, in milliseconds.
\<close>

definition maybeCrash :: "int \<Rightarrow> int \<Rightarrow> int option" where
  "maybeCrash rr ms = (if rr < 330 then None else if rr < 660 then Some ms else Some 0)"

definition nocrash_maybeCrash :: "int \<Rightarrow> int option" where
  "nocrash_maybeCrash rr = (if False \<and> rr < 500 then None else Some 0)"

definition nocrash_Map :: "int \<Rightarrow> string \<Rightarrow> string \<Rightarrow> KeyValue list option" where
  "nocrash_Map rr filename contents = do {
     _ \<leftarrow> nocrash_maybeCrash rr;
     Some [\<lparr>KeyOf = ''a'', ValueOf = filename\<rparr>, \<lparr>KeyOf = ''b'', ValueOf = itoa (int (length filename))\<rparr>,
       \<lparr>KeyOf = ''c'', ValueOf = itoa (int (length contents))\<rparr>, \<lparr>KeyOf = ''d'', ValueOf = ''xyzzy''\<rparr>] }"

definition nocrash_Reduce :: "int \<Rightarrow> string \<Rightarrow> string list \<Rightarrow> string option" where
  "nocrash_Reduce rr key values = do {
     _ \<leftarrow> nocrash_maybeCrash rr;
     let vv = sort values;
     Some (Join vv '' '') }"

definition crash_Map :: "int \<Rightarrow> int \<Rightarrow> string \<Rightarrow> string \<Rightarrow> KeyValue list option" where
  "crash_Map rr ms filename contents = do {
     _ \<leftarrow> maybeCrash rr ms;
     Some [\<lparr>KeyOf = ''a'', ValueOf = filename\<rparr>, \<lparr>KeyOf = ''b'', ValueOf = itoa (int (length filename))\<rparr>,
       \<lparr>KeyOf = ''c'', ValueOf = itoa (int (length contents))\<rparr>, \<lparr>KeyOf = ''d'', ValueOf = ''xyzzy''\<rparr>] }"

definition crash_Reduce :: "int \<Rightarrow> int \<Rightarrow> string \<Rightarrow> string list \<Rightarrow> string option" where
  "crash_Reduce rr ms key values = do {
     _ \<leftarrow> maybeCrash rr ms;
     let vv = sort values;
     Some (Join vv '' '') }"

section \<open>\<^verbatim>\<open>mtiming.go\<close> and \<^verbatim>\<open>rtiming.go\<close>\<close>

text \<open>
  \<^verbatim>\<open>fmt.Sscanf(name, "mr-worker-PHASE-%d", &xpid)\<close>: the literal part must match, white space is skipped
  but a line feed is an error, and the number must fit 64 bits; what follows the number is ignored.
\<close>

definition is_space :: "nat \<Rightarrow> bool" where
  "is_space r \<longleftrightarrow> 9 \<le> r \<and> r \<le> 13 \<or> r \<in> {0x20, 0x85, 0xA0, 0x1680, 0x2028, 0x2029, 0x202F, 0x205F, 0x3000} \<or> 0x2000 \<le> r \<and> r \<le> 0x200A"

fun skip_space :: "nat list \<Rightarrow> nat list option" where
  "skip_space [] = Some []"
| "skip_space (r # rs) =
    (if r = 13 \<and> take 1 rs = [10] then skip_space rs
     else if r = 10 then None
     else if \<not> is_space r then Some (r # rs)
     else skip_space rs)"

definition scan_int :: "nat list \<Rightarrow> int option" where
  "scan_int rs = do {
     rs \<leftarrow> skip_space rs;
     let neg = (take 1 rs = [45]);
     let rs = (if take 1 rs = [45] \<or> take 1 rs = [43] then drop 1 rs else rs);
     let ds = takeWhile (\<lambda>r. 48 \<le> r \<and> r \<le> 57) rs;
     if ds = [] then None
     else
       let v = foldl (\<lambda>v d. 10 * v + (int d - 48)) 0 ds; v = (if neg then - v else v)
       in if - (2 ^ 63) \<le> v \<and> v < 2 ^ 63 then Some v else None }"

definition worker_prefix :: "string \<Rightarrow> string" where
  "worker_prefix phase = ''mr-worker-'' @ phase @ ''-''"

definition scan_pid :: "string \<Rightarrow> string \<Rightarrow> int option" where
  "scan_pid phase name =
    (let pre = worker_prefix phase
     in if take (length pre) name = pre then scan_int (map fst (pieces (drop (length pre) name))) else None)"

text \<open>
  \<^verbatim>\<open>nparallel\<close> up to the closing of the directory, and its end after the sleep, when other workers may
  have changed the directory.  \<open>alive\<close> says for which process ids \<^verbatim>\<open>syscall.Kill(xpid, 0)\<close> succeeds.
\<close>

definition nparallel_begin :: "(int \<Rightarrow> bool) \<Rightarrow> int \<Rightarrow> string \<Rightarrow> fs \<Rightarrow> fs \<times> nat" where
  "nparallel_begin alive pid phase fs =
    (let myfilename = worker_prefix phase @ itoa pid;
         fs = write_file fs myfilename ''x'';
         names = take 1000000 (map fst fs);
         ret = length (filter (\<lambda>name. case scan_pid phase name of Some xpid \<Rightarrow> alive xpid | None \<Rightarrow> False) names)
     in (fs, ret))"

definition nparallel_end :: "int \<Rightarrow> string \<Rightarrow> fs \<Rightarrow> fs option" where
  "nparallel_end pid phase fs =
    (let myfilename = worker_prefix phase @ itoa pid
     in if myfilename \<in> set (map fst fs) then Some (filter (\<lambda>f. fst f \<noteq> myfilename) fs) else None)"

text \<open>\<open>stamp\<close> is the formatted time, \<open>n\<close> the result of \<^verbatim>\<open>nparallel\<close>.\<close>

definition mtiming_Map :: "int \<Rightarrow> string \<Rightarrow> nat \<Rightarrow> string \<Rightarrow> string \<Rightarrow> KeyValue list" where
  "mtiming_Map pid stamp n filename contents =
     [\<lparr>KeyOf = ''times-'' @ itoa pid, ValueOf = stamp\<rparr>, \<lparr>KeyOf = ''parallel-'' @ itoa pid, ValueOf = itoa (int n)\<rparr>]"

definition mtiming_Reduce :: "string \<Rightarrow> string list \<Rightarrow> string" where
  "mtiming_Reduce key values = (let vv = sort values in Join vv '' '')"

text \<open>\<^verbatim>\<open>rtiming.go\<close> has a copy of \<^verbatim>\<open>nparallel\<close>.\<close>

definition rtiming_nparallel_begin :: "(int \<Rightarrow> bool) \<Rightarrow> int \<Rightarrow> string \<Rightarrow> fs \<Rightarrow> fs \<times> nat" where
  "rtiming_nparallel_begin alive pid phase fs = nparallel_begin alive pid phase fs"

definition rtiming_nparallel_end :: "int \<Rightarrow> string \<Rightarrow> fs \<Rightarrow> fs option" where
  "rtiming_nparallel_end pid phase fs = nparallel_end pid phase fs"

definition rtiming_Map :: "string \<Rightarrow> string \<Rightarrow> KeyValue list" where
  "rtiming_Map filename contents =
     map (\<lambda>c. \<lparr>KeyOf = [c], ValueOf = ''1''\<rparr>) ''abcdefghij''"

definition rtiming_Reduce :: "nat \<Rightarrow> string \<Rightarrow> string list \<Rightarrow> string" where
  "rtiming_Reduce n key values = itoa (int n)"

section \<open>Reduce functions do not depend on the order of the values\<close>

lemma sort_mset: "mset vs = mset ws \<Longrightarrow> sort vs = sort (ws :: 'a :: linorder list)"
  by (metis mset_sort properties_for_sort sorted_sort)

lemma order_free_wc: "order_free wc_Reduce"
  unfolding order_free_def wc_Reduce_def by (metis mset_eq_length)

lemma order_free_sort: "order_free (\<lambda>key vs. f (sort vs))"
  unfolding order_free_def by (metis sort_mset)

lemma order_free_index: "order_free index_Reduce" "order_free mtiming_Reduce"
  unfolding index_Reduce_def mtiming_Reduce_def Let_def by (rule order_free_sort)+

lemma crash_or_nocrash:
  "crash_Map rr ms filename contents = (if rr < 330 then None else nocrash_Map rr' filename contents)"
  "crash_Reduce rr ms key values = (if rr < 330 then None else nocrash_Reduce rr' key values)"
  by (simp_all add: crash_Map_def nocrash_Map_def crash_Reduce_def nocrash_Reduce_def maybeCrash_def nocrash_maybeCrash_def)

section \<open>Words\<close>

abbreviation front :: "string \<Rightarrow> nat \<times> nat" where
  "front s \<equiv> decode_rune (map of_char s)"

lemma front_width: "s \<noteq> [] \<Longrightarrow> 0 < snd (front s) \<and> snd (front s) \<le> length s"
  using decode_rune_width[of "map of_char s"] by simp

lemma pieces_Nil [simp]: "pieces [] = []"
  by (simp add: pieces.simps)

lemma pieces_step: "s \<noteq> [] \<Longrightarrow> pieces s = (fst (front s), take (snd (front s)) s) # pieces (drop (snd (front s)) s)"
  by (subst pieces.simps) (simp add: case_prod_beta)

lemma pieces_induction:
  assumes "P []" "\<And>s. s \<noteq> [] \<Longrightarrow> P (drop (snd (front s)) s) \<Longrightarrow> P s"
  shows "P s"
proof (induction s rule: length_induct)
  case (1 s)
  then show ?case using assms front_width[of s] by (cases "s = []") auto
qed

lemma pieces_concat: "concat (map snd (pieces s)) = s"
  by (induction s rule: pieces_induction) (simp_all add: pieces_step)

lemma pieces_nonempty: "p \<in> set (pieces s) \<Longrightarrow> snd p \<noteq> []"
proof (induction s rule: pieces_induction)
  case (2 s)
  have "take (snd (front s)) s \<noteq> []" using front_width[OF 2(1)] 2(1) by simp
  with 2 show ?case by (auto simp: pieces_step[OF 2(1)])
qed simp

lemma fields_of_concat: "concat (fields_of f cur ps) = cur @ concat (map snd (filter (\<lambda>p. \<not> f (fst p)) ps))"
  by (induction f cur ps rule: fields_of.induct) auto

lemma fields_of_nonempty: "[] \<notin> set (fields_of f cur ps)"
  by (induction f cur ps rule: fields_of.induct) auto

lemma pieces_ascii: "\<forall>c\<in>set s. of_char c < (0x80 :: nat) \<Longrightarrow> pieces s = map (\<lambda>c. (of_char c, [c])) s"
proof (induction s)
  case (Cons c s)
  then have "front (c # s) = (of_char c, 1)" by (simp add: decode_rune_def)
  with Cons show ?case by (simp add: pieces_step)
qed simp

lemma fields_of_word:
  "\<forall>p\<in>set ps. \<not> f (fst p) \<Longrightarrow> fields_of f cur (ps @ qs) = fields_of f (cur @ concat (map snd ps)) qs"
  by (induction ps arbitrary: cur) auto

text \<open>Words joined by single separators come back.\<close>

lemma FieldsFunc_ascii:
  assumes "f (of_char sep)" "of_char sep < (0x80 :: nat)"
    and "\<forall>w\<in>set ws. w \<noteq> [] \<and> (\<forall>c\<in>set w. \<not> f (of_char c) \<and> of_char c < (0x80 :: nat))"
  shows "FieldsFunc (concat (map (\<lambda>w. w @ [sep]) ws)) f = ws"
proof -
  have p: "pieces (concat (map (\<lambda>w. w @ [sep]) ws)) = map (\<lambda>c. (of_char c, [c])) (concat (map (\<lambda>w. w @ [sep]) ws))"
    by (rule pieces_ascii) (use assms in auto)
  have "fields_of f [] (map (\<lambda>c. (of_char c, [c])) (concat (map (\<lambda>w. w @ [sep]) ws))) = ws"
    using assms(3)
  proof (induction ws)
    case (Cons w ws)
    have "concat (map snd (map (\<lambda>c. (of_char c :: nat, [c])) w)) = w" by (induction w) auto
    then show ?case using Cons assms(1)
      fields_of_word[of "map (\<lambda>c. (of_char c, [c])) w" f "[]" "(of_char sep, [sep]) # map (\<lambda>c. (of_char c, [c])) (concat (map (\<lambda>w. w @ [sep]) ws))"]
      by simp
  qed simp
  with p show ?thesis by (simp add: FieldsFunc_def)
qed

section \<open>Counting workers\<close>

lemma scan_digits:
  "\<forall>c\<in>set s. digit c \<Longrightarrow> foldl (\<lambda>v d. 10 * v + (int d - 48)) (int a) (map of_char s) =
     int (foldl (\<lambda>n c. 10 * n + (of_char c - 48)) a s)"
proof (induction s arbitrary: a)
  case (Cons c s)
  then have "48 \<le> (of_char c :: nat)" by (simp add: digit_def)
  then have e: "10 * int a + (int (of_char c) - 48) = int (10 * a + (of_char c - 48))" by (simp only: of_nat_diff of_nat_add of_nat_mult of_nat_numeral)
  show ?case unfolding list.map foldl.simps e by (rule Cons.IH) (use Cons.prems in simp)
qed simp

lemma scan_int_itoa:
  assumes "0 \<le> p" "p < 2 ^ 63"
  shows "scan_int (map of_char (itoa p)) = Some p"
proof -
  note d = itoa_digits[OF assms(1)]
  have "itoa p \<noteq> []" using decimal_nonempty[of "nat p"] assms(1) by (simp add: itoa_def)
  then obtain c s where s: "itoa p = c # s" by (auto simp: neq_Nil_conv)
  define x where "x = (of_char c :: nat)"
  have x: "48 \<le> x" "x \<le> 57" using d s by (simp_all add: digit_def x_def)
  then have "\<not> is_space x" by (simp add: is_space_def)
  then have "skip_space (map of_char (itoa p)) = Some (map of_char (itoa p))"
    unfolding s list.map x_def[symmetric] using x by simp
  moreover have "take 1 (map of_char (itoa p)) \<noteq> [45 :: nat]" "take 1 (map of_char (itoa p)) \<noteq> [43 :: nat]"
    unfolding s list.map x_def[symmetric] using x by simp_all
  moreover have "takeWhile (\<lambda>r. 48 \<le> r \<and> r \<le> 57) (map of_char (itoa p)) = (map of_char (itoa p) :: nat list)"
    using d by (auto simp: takeWhile_eq_all_conv digit_def)
  moreover have "foldl (\<lambda>v d. 10 * v + (int d - 48)) 0 (map of_char (itoa p)) = p"
    using scan_digits[OF d, of 0] undecimal_decimal[of "nat p"] assms(1) by (simp add: undecimal_def itoa_def)
  ultimately show ?thesis using assms s by (simp add: scan_int_def)
qed

lemma scan_pid_worker:
  assumes "0 \<le> p" "p < 2 ^ 63"
  shows "scan_pid phase (worker_prefix phase @ itoa p) = Some p"
proof -
  have "pieces (itoa p) = map (\<lambda>c. (of_char c, [c])) (itoa p)"
    using itoa_digits[OF assms(1)] by (intro pieces_ascii) (auto simp: digit_def)
  then show ?thesis using scan_int_itoa[OF assms] by (simp add: scan_pid_def comp_def)
qed

theorem nparallel_counts:
  assumes pid: "0 \<le> pid" "pid < 2 ^ 63" and fs: "distinct (map fst fs)" "length fs < 1000000"
    and P: "\<forall>p\<in>P. 0 \<le> p \<and> p < 2 ^ 63"
    and names: "\<forall>p\<in>P. worker_prefix phase @ itoa p \<in> set (map fst fs)"
      "\<forall>name\<in>set (map fst fs). scan_pid phase name = None \<or> (\<exists>p\<in>P. name = worker_prefix phase @ itoa p)"
  shows "snd (nparallel_begin alive pid phase fs) = card {p \<in> insert pid P. alive p}"
proof -
  let ?w = "\<lambda>p. worker_prefix phase @ itoa p"
  let ?fs = "write_file fs (?w pid) ''x''"
  let ?test = "\<lambda>name. case scan_pid phase name of Some xpid \<Rightarrow> alive xpid | None \<Rightarrow> False"
  have "length ?fs \<le> 1000000" using fs(2) le_trans[OF length_filter_le, of fs] by (simp add: write_file_def Suc_le_eq le_less_trans[OF length_filter_le])
  then have "snd (nparallel_begin alive pid phase fs) = length (filter ?test (map fst ?fs))"
    by (simp add: nparallel_begin_def Let_def)
  also have "\<dots> = card (set (filter ?test (map fst ?fs)))"
    using distinct_write_file[OF fs(1)] by (metis distinct_card distinct_filter)
  also have "set (filter ?test (map fst ?fs)) = ?w ` {p \<in> insert pid P. alive p}"
  proof -
    have N: "set (map fst ?fs) = insert (?w pid) (set (map fst fs))" by (auto simp: write_file_def)
    have T: "?test (?w p) = alive p" if "p \<in> insert pid P" for p using scan_pid_worker[of p phase] P pid that by auto
    have "\<exists>p\<in>insert pid P. x = ?w p" if "x \<in> set (map fst ?fs)" "?test x" for x
    proof (cases "x = ?w pid")
      case False
      then have "x \<in> set (map fst fs)" using that(1) N by blast
      moreover have "scan_pid phase x \<noteq> None" using that(2) by (auto split: option.splits)
      ultimately obtain p where "p \<in> P" "x = ?w p" using bspec[OF names(2)] by metis
      then show ?thesis by blast
    qed blast
    moreover have "?w p \<in> set (map fst ?fs)" if "p \<in> insert pid P" for p using N names(1) that by blast
    ultimately show ?thesis unfolding set_filter using T by blast
  qed
  also have "card \<dots> = card {p \<in> insert pid P. alive p}"
    using P pid by (intro card_image inj_onI) (auto simp: itoa_inj)
  finally show ?thesis .
qed

section \<open>Jobs\<close>

lemma seq_lines:
  assumes "set files \<subseteq> dom (map_of fs)" "sorts_by_key sort_fn" "order_free reducef"
    and kvs: "kvs = concat (map (\<lambda>f. mapf f (the (map_of fs f))) files)"
    and m: "mrsequential sort_fn fs mapf reducef files = Some (lines, fs'')"
  shows "mset lines = image_mset (\<lambda>k. fmt reducef (k, values_of kvs k)) (mset_set (KeyOf ` set kvs))"
  using m seq_intermediate_kva[OF assms(1), of mapf] mset_sorted_runs[OF assms(2,3), of kvs]
  by (simp add: mrsequential_def Let_def kvs seq_loop_runs)

text \<open>A job of the framework, once for all applications.\<close>

lemma job_lines:
  assumes ok: "job_ok J V" and m: "MakeMaster (j_files J) (int (j_R J)) = Some m"
    and o: "\<forall>k. set (orders k) = set (j_files J) \<and> distinct (orders k)"
    and kvs: "kvs = concat (map (\<lambda>f. j_map J f (the (map_of (j_fs J) f))) (j_files J))"
  shows "\<exists>m' fs' ident' out.
    Worker (length (j_files J) + j_R J + 2) (j_js J) (j_sort J) (j_map J) (j_reduce J) orders clock (m, j_fs J, 0) =
      Some (m', fs', ident') \<and> Done m' \<and>
    (\<forall>N<j_R J. map_of fs' (out_file (int N)) = (if out N = [] then None else Some (concat (out N)))) \<and>
    (\<Sum>N<j_R J. mset (out N)) = image_mset (\<lambda>k. fmt (j_reduce J) (k, values_of kvs k)) (mset_set (KeyOf ` set kvs))"
proof -
  have sub: "set (j_files J) \<subseteq> dom (map_of (j_fs J))" "sorts_by_key (j_sort J)" "order_free (j_reduce J)"
    using ok by (simp_all add: job_ok_def inputs_ok_def)
  from job_output[OF ok m o, of clock] obtain m' fs' ident' out lines fs'' where
    w: "Worker (length (j_files J) + j_R J + 2) (j_js J) (j_sort J) (j_map J) (j_reduce J) orders clock (m, j_fs J, 0) =
      Some (m', fs', ident')" "Done m'" "\<forall>N<j_R J. map_of fs' (out_file (int N)) = (if out N = [] then None else Some (concat (out N)))"
    "mrsequential (j_sort J) (j_fs J) (j_map J) (j_reduce J) (j_files J) = Some (lines, fs'')" "(\<Sum>N<j_R J. mset (out N)) = mset lines"
    by blast
  from seq_lines[OF sub, where mapf = "j_map J", OF kvs w(4)] w show ?thesis by metis
qed

definition doc_words :: "(nat \<Rightarrow> bool) \<Rightarrow> fs \<Rightarrow> string \<Rightarrow> string list" where
  "doc_words isLetter fs f = FieldsFunc (the (map_of fs f)) (\<lambda>r. \<not> isLetter r)"

text \<open>
  \<^bold>\<open>C8\<close>. The word count plugin run as a MapReduce job writes one line per word that occurs in the input
  files, with the number of its occurrences in all of them; the input files are distinct, exist, and
  share the directory with no file whose name starts with mr-, and the encoded pairs of words decode
  to themselves.
\<close>

theorem word_count:
  assumes ok: "json_ok (j_js J) V" "sorts_by_key (j_sort J)" "inputs_ok J"
    and app: "j_map J = wc_Map isLetter" "j_reduce J = wc_Reduce"
    and V: "\<forall>f\<in>set (j_files J). set (wc_Map isLetter f (the (map_of (j_fs J) f))) \<subseteq> V"
    and m: "MakeMaster (j_files J) (int (j_R J)) = Some m"
    and o: "\<forall>k. set (orders k) = set (j_files J) \<and> distinct (orders k)"
  shows "\<exists>m' fs' ident' out. let words = concat (map (doc_words isLetter (j_fs J)) (j_files J)) in
    Worker (length (j_files J) + j_R J + 2) (j_js J) (j_sort J) (j_map J) (j_reduce J) orders clock (m, j_fs J, 0) =
      Some (m', fs', ident') \<and> Done m' \<and>
    (\<forall>N<j_R J. map_of fs' (out_file (int N)) = (if out N = [] then None else Some (concat (out N)))) \<and>
    (\<Sum>N<j_R J. mset (out N)) =
      image_mset (\<lambda>w. w @ '' '' @ itoa (int (count_list words w)) @ [CHR 0x0A]) (mset_set (set words))"
proof -
  define words where "words = concat (map (doc_words isLetter (j_fs J)) (j_files J))"
  define kvs where "kvs = concat (map (\<lambda>f. j_map J f (the (map_of (j_fs J) f))) (j_files J))"
  have e: "kvs = map (\<lambda>w. \<lparr>KeyOf = w, ValueOf = ''1''\<rparr>) words"
    by (simp add: kvs_def words_def app wc_Map_def doc_words_def map_concat comp_def)
  have v: "length (values_of kvs w) = count_list words w" for w
    unfolding values_of_def e by (induction words) auto
  have k: "KeyOf ` set kvs = set words" by (auto simp: e image_iff)
  have "job_ok J V" using ok V app order_free_wc by (auto simp: job_ok_def kva_def)
  from job_lines[OF this m o kvs_def, of clock] show ?thesis
    unfolding words_def[symmetric] k Let_def by (simp add: fmt_def app wc_Reduce_def v)
qed

theorem inverted_index:
  assumes ok: "json_ok (j_js J) V" "sorts_by_key (j_sort J)" "inputs_ok J"
    and app: "j_map J = index_Map isLetter range_keys" "j_reduce J = index_Reduce"
    and r: "\<forall>ws. distinct (range_keys ws) \<and> set (range_keys ws) = set ws"
    and V: "\<forall>f\<in>set (j_files J). set (index_Map isLetter range_keys f (the (map_of (j_fs J) f))) \<subseteq> V"
    and m: "MakeMaster (j_files J) (int (j_R J)) = Some m"
    and o: "\<forall>k. set (orders k) = set (j_files J) \<and> distinct (orders k)"
  shows "\<exists>m' fs' ident' out. let docs = (\<lambda>w. sort (filter (\<lambda>f. w \<in> set (doc_words isLetter (j_fs J) f)) (j_files J))) in
    Worker (length (j_files J) + j_R J + 2) (j_js J) (j_sort J) (j_map J) (j_reduce J) orders clock (m, j_fs J, 0) =
      Some (m', fs', ident') \<and> Done m' \<and>
    (\<forall>N<j_R J. map_of fs' (out_file (int N)) = (if out N = [] then None else Some (concat (out N)))) \<and>
    (\<Sum>N<j_R J. mset (out N)) =
      image_mset (\<lambda>w. w @ '' '' @ itoa (int (length (docs w))) @ '' '' @ Join (docs w) '','' @ [CHR 0x0A])
        (mset_set (\<Union>f\<in>set (j_files J). set (doc_words isLetter (j_fs J) f)))"
proof -
  let ?W = "doc_words isLetter (j_fs J)"
  define kvs where "kvs = concat (map (\<lambda>f. j_map J f (the (map_of (j_fs J) f))) (j_files J))"
  have e: "kvs = concat (map (\<lambda>f. map (\<lambda>w. \<lparr>KeyOf = w, ValueOf = f\<rparr>) (range_keys (?W f))) (j_files J))"
    by (simp add: kvs_def app index_Map_def doc_words_def Let_def)
  have one: "filter (\<lambda>v. v = w) ws = (if w \<in> set ws then [w] else [])" if "distinct ws" for ws :: "string list" and w
    using that by (induction ws) auto
  have "values_of (map (\<lambda>w. \<lparr>KeyOf = w, ValueOf = f\<rparr>) (range_keys (?W f))) w = (if w \<in> set (?W f) then [f] else [])" for f w
    using one[of "range_keys (?W f)" w] r by (simp add: values_of_def filter_map comp_def)
  then have "values_of (concat (map (\<lambda>f. map (\<lambda>w. \<lparr>KeyOf = w, ValueOf = f\<rparr>) (range_keys (?W f))) fs)) w =
      filter (\<lambda>f. w \<in> set (?W f)) fs" for w fs
    by (induction fs) (simp_all add: values_of_def)
  then have v: "values_of kvs w = filter (\<lambda>f. w \<in> set (?W f)) (j_files J)" for w unfolding e .
  have k: "KeyOf ` set kvs = (\<Union>f\<in>set (j_files J). set (?W f))" using r by (auto simp: e image_iff)
  have "job_ok J V" using ok V app order_free_index(1) by (auto simp: job_ok_def kva_def)
  from job_lines[OF this m o kvs_def, of clock] show ?thesis
    unfolding k Let_def by (simp add: fmt_def app index_Reduce_def v)
qed

text \<open>Two files of one-letter words, with the encoding of \<open>tiny_json\<close>.\<close>

definition lower :: "nat \<Rightarrow> bool" where
  "lower r \<longleftrightarrow> 97 \<le> r \<and> r \<le> 122"

definition word_job :: job where
  "word_job = \<lparr>j_js = tiny_json, j_sort = sort_key KeyOf, j_map = wc_Map lower, j_reduce = wc_Reduce,
    j_files = [''a'', ''b''], j_fs = [(''a'', ''x y''), (''b'', ''y'')], j_R = 2\<rparr>"

definition index_job :: job where
  "index_job = word_job\<lparr>j_map := index_Map lower remdups, j_reduce := index_Reduce\<rparr>"

abbreviation one_letter :: "KeyValue set" where
  "one_letter \<equiv> {kv. length (KeyOf kv) = 1 \<and> length (ValueOf kv) = 1}"

lemma word_job_words: "FieldsFunc ''x y'' (\<lambda>r. \<not> lower r) = [''x'', ''y'']" "FieldsFunc ''y'' (\<lambda>r. \<not> lower r) = [''y'']"
  by code_simp+

lemma word_job_pairs:
  "\<forall>f\<in>set (j_files word_job). set (wc_Map lower f (the (map_of (j_fs word_job) f))) \<subseteq> one_letter"
  "\<forall>f\<in>set (j_files index_job). set (index_Map lower remdups f (the (map_of (j_fs index_job) f))) \<subseteq> one_letter"
  by (auto simp: wc_Map_def index_Map_def word_job_def index_job_def Let_def word_job_words)

lemma word_job_ok:
  "json_ok (j_js word_job) one_letter" "sorts_by_key (j_sort word_job)" "inputs_ok word_job"
  "json_ok (j_js index_job) one_letter" "sorts_by_key (j_sort index_job)" "inputs_ok index_job"
  using tiny_json_ok by (auto simp: word_job_def index_job_def sorts_by_key_def inputs_ok_def)

theorem word_count_witness:
  "\<exists>m m' fs' ident' out. MakeMaster [''a'', ''b''] 2 = Some m \<and>
    Worker 6 (j_js word_job) (j_sort word_job) (j_map word_job) (j_reduce word_job) (\<lambda>_. [''b'', ''a'']) (\<lambda>_. 0)
      (m, j_fs word_job, 0) = Some (m', fs', ident') \<and> Done m' \<and>
    (\<Sum>N<j_R word_job. mset (out N)) = {#''x 1'' @ [CHR 0x0A], ''y 2'' @ [CHR 0x0A]#}"
proof -
  obtain m where m: "MakeMaster [''a'', ''b''] 2 = Some m" by (simp add: MakeMaster_def)
  have mk: "MakeMaster (j_files word_job) (int (j_R word_job)) = Some m" using m by (simp add: word_job_def)
  have o: "\<forall>k :: nat. set [''b'', ''a''] = set (j_files word_job) \<and> distinct [''b'', ''a'']" by (auto simp: word_job_def)
  have app: "j_map word_job = wc_Map lower" "j_reduce word_job = wc_Reduce" by (simp_all add: word_job_def)
  have w: "concat (map (doc_words lower (j_fs word_job)) (j_files word_job)) = [''x'', ''y'', ''y'']"
    by (simp add: word_job_def doc_words_def word_job_words)
  have "itoa 1 = ''1''" "itoa 2 = ''2''" by code_simp+
  then have l: "image_mset (\<lambda>w. w @ '' '' @ itoa (int (count_list [''x'', ''y'', ''y''] w)) @ [CHR 0x0A])
      (mset_set (set [''x'', ''y'', ''y''])) = {#''x 1'' @ [CHR 0x0A], ''y 2'' @ [CHR 0x0A]#}"
    by (simp add: insert_commute)
  have n: "length (j_files word_job) + j_R word_job + 2 = 6" by (simp add: word_job_def)
  from word_count[OF word_job_ok(1-3) app word_job_pairs(1) mk o, of "\<lambda>_. 0", unfolded w Let_def l n] m show ?thesis by blast
qed

theorem inverted_index_witness:
  "\<exists>m m' fs' ident' out. MakeMaster [''a'', ''b''] 2 = Some m \<and>
    Worker 6 (j_js index_job) (j_sort index_job) (j_map index_job) (j_reduce index_job) (\<lambda>_. [''b'', ''a'']) (\<lambda>_. 0)
      (m, j_fs index_job, 0) = Some (m', fs', ident') \<and> Done m' \<and>
    (\<Sum>N<j_R index_job. mset (out N)) = {#''x 1 a'' @ [CHR 0x0A], ''y 2 a,b'' @ [CHR 0x0A]#}"
proof -
  obtain m where m: "MakeMaster [''a'', ''b''] 2 = Some m" by (simp add: MakeMaster_def)
  have mk: "MakeMaster (j_files index_job) (int (j_R index_job)) = Some m" using m by (simp add: word_job_def index_job_def)
  have o: "\<forall>k :: nat. set [''b'', ''a''] = set (j_files index_job) \<and> distinct [''b'', ''a'']" by (auto simp: word_job_def index_job_def)
  have app: "j_map index_job = index_Map lower remdups" "j_reduce index_job = index_Reduce" by (simp_all add: index_job_def)
  have r: "\<forall>ws. distinct (remdups ws) \<and> set (remdups ws) = set ws" by simp
  let ?docs = "\<lambda>w. sort (filter (\<lambda>f. w \<in> set (doc_words lower (j_fs index_job) f)) (j_files index_job))"
  have W: "(\<Union>f\<in>set (j_files index_job). set (doc_words lower (j_fs index_job) f)) = {''x'', ''y''}"
    by (auto simp: index_job_def word_job_def doc_words_def word_job_words)
  have "itoa 1 = ''1''" "itoa 2 = ''2''" "sort [''a'', ''b''] = [''a'', ''b'']" by code_simp+
  then have l: "image_mset (\<lambda>w. w @ '' '' @ itoa (int (length (?docs w))) @ '' '' @ Join (?docs w) '','' @ [CHR 0x0A]) (mset_set {''x'', ''y''}) =
      {#''x 1 a'' @ [CHR 0x0A], ''y 2 a,b'' @ [CHR 0x0A]#}"
    by (simp add: index_job_def word_job_def doc_words_def word_job_words Join_def)
  have n: "length (j_files index_job) + j_R index_job + 2 = 6" by (simp add: index_job_def word_job_def)
  from inverted_index[OF word_job_ok(4-6) app r word_job_pairs(2) mk o, of "\<lambda>_. 0", unfolded W Let_def l n] m show ?thesis by blast
qed

theorem nparallel_counts_witness:
  "snd (nparallel_begin (\<lambda>p. p \<noteq> 7) 5 ''map'' [(''mr-worker-map-6'', ''x''), (''mr-worker-map-7'', ''x''), (''pg.txt'', [])]) = 2"
proof -
  have n: "worker_prefix ''map'' @ itoa 6 = ''mr-worker-map-6''" "worker_prefix ''map'' @ itoa 7 = ''mr-worker-map-7''" by code_simp+
  have s: "scan_pid ''map'' ''pg.txt'' = None" by (simp add: scan_pid_def worker_prefix_def)
  have "{p \<in> insert (5 :: int) {6, 7}. p \<noteq> 7} = {5, 6}" by auto
  then show ?thesis
    using nparallel_counts[of 5 "[(''mr-worker-map-6'', ''x''), (''mr-worker-map-7'', ''x''), (''pg.txt'', [])]" "{6, 7}" "''map''" "\<lambda>p. p \<noteq> 7"] s n
    by simp
qed

end
