(* ===== verification/Programs.thy ===== *)
theory Programs
  imports MrApps
begin

text \<open>
  The programs of \<^verbatim>\<open>main/\<close>.  A program is a function of its arguments (\<^verbatim>\<open>os.Args\<close>, with the program
  name first); \<open>Inl\<close> is an exit with the given message.  \<^verbatim>\<open>mrmaster\<close>, \<^verbatim>\<open>mrworker\<close> and \<^verbatim>\<open>mrsequential\<close> run the
  model of \<^verbatim>\<open>mr/\<close>; \<^verbatim>\<open>plugin.Open\<close> is an argument.  The other programs call packages that are not part
  of the repository; their result is the call that they make.
\<close>

section \<open>Plugins\<close>

datatype sym = MapSym "string \<Rightarrow> string \<Rightarrow> KeyValue list" | ReduceSym "string \<Rightarrow> string list \<Rightarrow> string" | OtherSym

type_synonym plugin = "string \<Rightarrow> sym option"

definition loadPlugin :: "(string \<Rightarrow> plugin option) \<Rightarrow> string
    \<Rightarrow> string + (string \<Rightarrow> string \<Rightarrow> KeyValue list) \<times> (string \<Rightarrow> string list \<Rightarrow> string)" where
  "loadPlugin openp filename =
    (case openp filename of
       None \<Rightarrow> Inl (''cannot load plugin '' @ filename)
     | Some p \<Rightarrow> (case p ''Map'' of
         None \<Rightarrow> Inl (''cannot find Map in '' @ filename)
       | Some (MapSym mapf) \<Rightarrow> (case p ''Reduce'' of
           None \<Rightarrow> Inl (''cannot find Reduce in '' @ filename)
         | Some (ReduceSym reducef) \<Rightarrow> Inr (mapf, reducef)
         | Some _ \<Rightarrow> Inl ''interface conversion'')
       | Some _ \<Rightarrow> Inl ''interface conversion''))"

text \<open>\<^verbatim>\<open>mrsequential.go\<close> has a copy of its own, with the same text.\<close>

definition seq_loadPlugin :: "(string \<Rightarrow> plugin option) \<Rightarrow> string
    \<Rightarrow> string + (string \<Rightarrow> string \<Rightarrow> KeyValue list) \<times> (string \<Rightarrow> string list \<Rightarrow> string)" where
  "seq_loadPlugin openp filename =
    (case openp filename of
       None \<Rightarrow> Inl (''cannot load plugin '' @ filename)
     | Some p \<Rightarrow> (case p ''Map'' of
         None \<Rightarrow> Inl (''cannot find Map in '' @ filename)
       | Some (MapSym mapf) \<Rightarrow> (case p ''Reduce'' of
           None \<Rightarrow> Inl (''cannot find Reduce in '' @ filename)
         | Some (ReduceSym reducef) \<Rightarrow> Inr (mapf, reducef)
         | Some _ \<Rightarrow> Inl ''interface conversion'')
       | Some _ \<Rightarrow> Inl ''interface conversion''))"

section \<open>\<^verbatim>\<open>mrmaster\<close>, \<^verbatim>\<open>mrworker\<close> and \<^verbatim>\<open>mrsequential\<close>\<close>

text \<open>
  The polling loop of \<^verbatim>\<open>mrmaster\<close>: \<open>st k\<close> is the master at the \<open>k\<close>-th poll, changed by the RPCs in
  between; the result is the number of seconds slept, with the last one.
\<close>

fun wait_done :: "nat \<Rightarrow> (nat \<Rightarrow> master) \<Rightarrow> nat \<Rightarrow> nat option" where
  "wait_done 0 st k = None"
| "wait_done (Suc fuel) st k = (if Done (st k) then Some (k + 1) else wait_done fuel st (k + 1))"

definition mrmaster_main :: "string list \<Rightarrow> string + master option" where
  "mrmaster_main args =
    (if length args < 2 then Inl ''Usage: mrmaster inputfiles...'' else Inr (MakeMaster (drop 1 args) 10))"

definition mrworker_main :: "(string \<Rightarrow> plugin option) \<Rightarrow> (nat \<Rightarrow> string list) \<Rightarrow> (nat \<Rightarrow> int) \<Rightarrow> nat \<Rightarrow> json
    \<Rightarrow> (KeyValue list \<Rightarrow> KeyValue list) \<Rightarrow> string list \<Rightarrow> master \<times> fs \<times> int \<Rightarrow> string + (master \<times> fs \<times> int) option" where
  "mrworker_main openp orders clock turns js sort_fn args st =
    (if length args \<noteq> 2 then Inl ''Usage: mrworker xxx.so''
     else case loadPlugin openp (args ! 1) of
       Inl e \<Rightarrow> Inl e
     | Inr (mapf, reducef) \<Rightarrow> Inr (Worker turns js sort_fn mapf reducef orders clock st))"

definition mrsequential_main :: "(string \<Rightarrow> plugin option) \<Rightarrow> (KeyValue list \<Rightarrow> KeyValue list) \<Rightarrow> fs \<Rightarrow> string list
    \<Rightarrow> string + (string list \<times> fs) option" where
  "mrsequential_main openp sort_fn fs args =
    (if length args < 3 then Inl ''Usage: mrsequential xxx.so inputfiles...''
     else case seq_loadPlugin openp (args ! 1) of
       Inl e \<Rightarrow> Inl e
     | Inr (mapf, reducef) \<Rightarrow> Inr (mrsequential sort_fn fs mapf reducef (drop 2 args)))"

lemma wait_done_first:
  assumes "Done (st d)" "\<forall>i<d. k \<le> i \<longrightarrow> \<not> Done (st i)" "k \<le> d" "d < k + fuel"
  shows "wait_done fuel st k = Some (d + 1)"
  using assms
proof (induction fuel arbitrary: k)
  case (Suc fuel)
  show ?case
  proof (cases "k = d")
    case False
    with Suc.prems have "\<not> Done (st k)" "k + 1 \<le> d" by auto
    with Suc.IH[of "k + 1"] Suc.prems show ?thesis by simp
  qed (use Suc.prems in simp)
qed simp

lemma same_loadPlugin: "loadPlugin openp so = seq_loadPlugin openp so"
  by (simp add: loadPlugin_def seq_loadPlugin_def)

lemma mrsequential_writes: "mrsequential sort_fn fs mapf reducef files = Some (lines, fs') \<Longrightarrow> map_of fs' ''mr-out-0'' = Some (concat lines)"
  by (auto simp: mrsequential_def bind_Some_iff Let_def)

text \<open>
  \<^bold>\<open>C7\<close>. Started on the same input files and the same plugin, mrmaster with one mrworker finishes the job,
  and the lines of the files mr-out-0 to mr-out-9 are those of the mr-out-0 that mrsequential
  writes, up to their order, provided the plugin has a Map and a Reduce of the right types, its
  reduce function ignores the order of its values, encoded pairs decode to themselves, and the input
  files (at least one) are distinct, exist and share the directory with no file whose name starts
  with mr-. With a plugin that does not load, mrworker and mrsequential exit with the same message.
\<close>

theorem programs_agree:
  assumes ok: "job_ok J V" "j_R J = 10" "j_files J \<noteq> []"
    and pl: "openp so = Some p" "p ''Map'' = Some (MapSym (j_map J))" "p ''Reduce'' = Some (ReduceSym (j_reduce J))"
    and o: "\<forall>k. set (orders k) = set (j_files J) \<and> distinct (orders k)"
  shows "\<exists>m m' fs' ident' out lines fs''. mrmaster_main (''mrmaster'' # j_files J) = Inr (Some m) \<and>
    mrworker_main openp orders clock (length (j_files J) + 12) (j_js J) (j_sort J) [''mrworker'', so] (m, j_fs J, 0) =
      Inr (Some (m', fs', ident')) \<and> Done m' \<and>
    mrsequential_main openp (j_sort J) (j_fs J) (''mrsequential'' # so # j_files J) = Inr (Some (lines, fs'')) \<and>
    (\<forall>N<10. map_of fs' (out_file (int N)) = (if out N = [] then None else Some (concat (out N)))) \<and>
    (\<Sum>N<10. mset (out N)) = mset lines \<and> map_of fs'' ''mr-out-0'' = Some (concat lines) \<and>
    (\<forall>so' e turns st. loadPlugin openp so' = Inl e \<longrightarrow>
      mrworker_main openp orders clock turns (j_js J) (j_sort J) [''mrworker'', so'] st = Inl e \<and>
      mrsequential_main openp (j_sort J) (j_fs J) (''mrsequential'' # so' # j_files J) = Inl e)"
proof -
  have l: "loadPlugin openp so = Inr (j_map J, j_reduce J)" using pl by (simp add: loadPlugin_def)
  have sl: "seq_loadPlugin openp so = Inr (j_map J, j_reduce J)" using pl by (simp add: seq_loadPlugin_def)
  have files: "1 \<le> length (j_files J)" using ok(3) by (cases "j_files J") auto
  obtain m where m: "MakeMaster (j_files J) 10 = Some m" by (simp add: MakeMaster_def)
  have mk: "MakeMaster (j_files J) (int (j_R J)) = Some m" using m ok(2) by simp
  have n: "length (j_files J) + 10 + 2 = length (j_files J) + 12" by simp
  have "mrmaster_main (''mrmaster'' # j_files J) = Inr (Some m)" using m files ok(3) by (simp add: mrmaster_main_def)
  moreover have "mrworker_main openp orders clock k (j_js J) (j_sort J) [''mrworker'', so] st =
      Inr (Worker k (j_js J) (j_sort J) (j_map J) (j_reduce J) orders clock st)" for k st
    using l by (simp add: mrworker_main_def)
  moreover have "mrsequential_main openp (j_sort J) (j_fs J) (''mrsequential'' # so # j_files J) =
      Inr (mrsequential (j_sort J) (j_fs J) (j_map J) (j_reduce J) (j_files J))"
    using sl files ok(3) by (auto simp: mrsequential_main_def)
  moreover obtain m' fs' ident' out lines fs'' where
    "Worker (length (j_files J) + 12) (j_js J) (j_sort J) (j_map J) (j_reduce J) orders clock (m, j_fs J, 0) = Some (m', fs', ident')"
    "Done m'" "\<forall>N<10. map_of fs' (out_file (int N)) = (if out N = [] then None else Some (concat (out N)))"
    "mrsequential (j_sort J) (j_fs J) (j_map J) (j_reduce J) (j_files J) = Some (lines, fs'')" "(\<Sum>N<10. mset (out N)) = mset lines"
    using job_output[OF ok(1) mk o, of clock, unfolded ok(2) n] by blast
  moreover from this have "map_of fs'' ''mr-out-0'' = Some (concat lines)" by (simp add: mrsequential_writes)
  moreover have "loadPlugin openp so' = Inl e \<Longrightarrow> mrworker_main openp orders clock turns (j_js J) (j_sort J) [''mrworker'', so'] st = Inl e \<and>
      mrsequential_main openp (j_sort J) (j_fs J) (''mrsequential'' # so' # j_files J) = Inl e" for so' e turns st
    using files ok(3) same_loadPlugin[of openp so'] by (auto simp: mrworker_main_def mrsequential_main_def)
  ultimately show ?thesis by (intro exI conjI) simp_all
qed

definition word_plugin :: "string \<Rightarrow> plugin option" where
  "word_plugin f = (if f = ''wc.so''
     then Some [''Map'' \<mapsto> MapSym (wc_Map lower), ''Reduce'' \<mapsto> ReduceSym wc_Reduce] else None)"

lemma word_job_ten: "job_ok (word_job\<lparr>j_R := 10\<rparr>) one_letter"
proof -
  have "set (kva (word_job\<lparr>j_R := 10\<rparr>) i) \<subseteq> one_letter" if "i < 2" for i
    using that word_job_pairs(1) by (auto simp: kva_def word_job_def less_2_cases_iff)
  then show ?thesis using word_job_ok(1-3) order_free_wc by (simp add: job_ok_def inputs_ok_def word_job_def)
qed

theorem programs_agree_witness:
  "\<exists>m m' fs' ident' lines fs''. mrmaster_main [''mrmaster'', ''a'', ''b''] = Inr (Some m) \<and>
    mrworker_main word_plugin (\<lambda>_. [''b'', ''a'']) (\<lambda>_. 0) 14 tiny_json (sort_key KeyOf) [''mrworker'', ''wc.so'']
      (m, [(''a'', ''x y''), (''b'', ''y'')], 0) = Inr (Some (m', fs', ident')) \<and> Done m' \<and>
    mrsequential_main word_plugin (sort_key KeyOf) [(''a'', ''x y''), (''b'', ''y'')]
      [''mrsequential'', ''wc.so'', ''a'', ''b''] = Inr (Some (lines, fs''))"
proof -
  let ?J = "word_job\<lparr>j_R := 10\<rparr>"
  have "\<forall>k :: nat. set [''b'', ''a''] = set (j_files ?J) \<and> distinct [''b'', ''a'']" by (auto simp: word_job_def)
  from programs_agree[OF word_job_ten _ _ _ _ _ this, of word_plugin "''wc.so''" "the (word_plugin ''wc.so'')" "\<lambda>_. 0"] show ?thesis
    by (fastforce simp: word_job_def word_plugin_def)
qed

section \<open>\<^verbatim>\<open>diskvd\<close>\<close>

text \<open>
  \<^verbatim>\<open>strconv.ParseInt(s, 10, 64)\<close> and \<^verbatim>\<open>Atoi\<close> with the error dropped: the value is 0 after a syntax error
  and the nearest 64-bit value when out of range.
\<close>

definition parse_int :: "string \<Rightarrow> int" where
  "parse_int s =
    (let neg = (take 1 s = ''-''); ds = (if take 1 s = ''-'' \<or> take 1 s = ''+'' then drop 1 s else s)
     in if ds = [] \<or> \<not> list_all digit ds then 0
        else let v = (if neg then - int (undecimal ds) else int (undecimal ds))
             in max (- (2 ^ 63)) (min (2 ^ 63 - 1) v))"

definition parse_bool :: "string \<Rightarrow> bool" where
  "parse_bool s \<longleftrightarrow> s \<in> {''1'', ''t'', ''T'', ''TRUE'', ''true'', ''True''}"

record diskv_opts =
  gid :: int
  masters :: "string list"
  replicas :: "string list"
  my_index :: int
  unreliable :: bool
  dir :: string
  restart :: bool

fun diskvd_opts :: "string list \<Rightarrow> diskv_opts \<Rightarrow> diskv_opts option" where
  "diskvd_opts (a0 # a1 # args) o' =
    (if a0 = ''-g'' then diskvd_opts args (o'\<lparr>gid := parse_int a1\<rparr>)
     else if a0 = ''-m'' then diskvd_opts args (o'\<lparr>masters := masters o' @ [a1]\<rparr>)
     else if a0 = ''-s'' then diskvd_opts args (o'\<lparr>replicas := replicas o' @ [a1]\<rparr>)
     else if a0 = ''-i'' then diskvd_opts args (o'\<lparr>my_index := parse_int a1\<rparr>)
     else if a0 = ''-u'' then diskvd_opts args (o'\<lparr>unreliable := parse_bool a1\<rparr>)
     else if a0 = ''-d'' then diskvd_opts args (o'\<lparr>dir := a1\<rparr>)
     else if a0 = ''-r'' then diskvd_opts args (o'\<lparr>restart := parse_bool a1\<rparr>)
     else None)"
| "diskvd_opts _ o' = Some o'"

definition diskvd_main :: "string list \<Rightarrow> string + diskv_opts" where
  "diskvd_main args =
    (case diskvd_opts (drop 1 args) \<lparr>gid = -1, masters = [], replicas = [], my_index = -1, unreliable = False, dir = [], restart = False\<rparr> of
       None \<Rightarrow> Inl ''Usage: diskvd -g gid -m master... -s server... -i my-index -d dir''
     | Some o' \<Rightarrow>
         if gid o' < 0 \<or> my_index o' < 0 \<or> length (masters o') < 1 \<or> my_index o' \<ge> int (length (replicas o')) \<or> dir o' = []
         then Inl ''Usage: diskvd -g gid -m master... -s server... -i my-index -d dir''
         else Inr o')"

text \<open>The command line for given options.\<close>

definition diskvd_args :: "diskv_opts \<Rightarrow> string list" where
  "diskvd_args o' = [''diskvd'', ''-g'', itoa (gid o')] @ concat (map (\<lambda>m. [''-m'', m]) (masters o')) @
     concat (map (\<lambda>s. [''-s'', s]) (replicas o')) @
     [''-i'', itoa (my_index o'), ''-u'', if unreliable o' then ''true'' else ''false'', ''-d'', dir o',
      ''-r'', if restart o' then ''true'' else ''false'']"

lemma parse_int_itoa:
  assumes "0 \<le> i" "i < 2 ^ 63"
  shows "parse_int (itoa i) = i"
proof -
  have "itoa i \<noteq> []" using decimal_nonempty[of "nat i"] assms(1) by (simp add: itoa_def)
  then obtain c s where s: "itoa i = c # s" by (auto simp: neq_Nil_conv)
  have "digit c" using itoa_digits[OF assms(1)] s by simp
  then have "c \<noteq> CHR ''-''" "c \<noteq> CHR ''+''" by (auto simp: digit_def)
  moreover have "list_all digit (itoa i)" using itoa_digits[OF assms(1)] by (simp add: list_all_iff)
  moreover have "int (undecimal (itoa i)) = i" using assms(1) by (simp add: itoa_def undecimal_decimal)
  ultimately show ?thesis using assms(2) by (simp add: parse_int_def s)
qed

lemma diskvd_opts_masters:
  "diskvd_opts (concat (map (\<lambda>m. [''-m'', m]) ms) @ args) o' = diskvd_opts args (o'\<lparr>masters := masters o' @ ms\<rparr>)"
  by (induction ms arbitrary: o') simp_all

lemma diskvd_opts_replicas:
  "diskvd_opts (concat (map (\<lambda>m. [''-s'', m]) ms) @ args) o' = diskvd_opts args (o'\<lparr>replicas := replicas o' @ ms\<rparr>)"
  by (induction ms arbitrary: o') simp_all

theorem diskvd_roundtrip:
  assumes "0 \<le> gid o'" "gid o' < 2 ^ 63" "0 \<le> my_index o'" "my_index o' < int (length (replicas o'))" "my_index o' < 2 ^ 63"
    and "masters o' \<noteq> []" "dir o' \<noteq> []"
  shows "diskvd_main (diskvd_args o') = Inr o'"
proof -
  have b: "parse_bool ''true''" "\<not> parse_bool ''false''" by (simp_all add: parse_bool_def)
  have "1 \<le> length (masters o')" using assms(6) by (cases "masters o'") auto
  then show ?thesis using assms b
    by (cases o') (simp add: diskvd_main_def diskvd_args_def diskvd_opts_masters diskvd_opts_replicas parse_int_itoa)
qed

theorem diskvd_roundtrip_witness:
  "diskvd_main [''diskvd'', ''-g'', ''3'', ''-m'', ''m'', ''-s'', ''s'', ''-i'', ''0'', ''-u'', ''true'', ''-d'', ''d'', ''-r'', ''false''] =
     Inr \<lparr>gid = 3, masters = [''m''], replicas = [''s''], my_index = 0, unreliable = True, dir = ''d'', restart = False\<rparr>"
proof -
  let ?o = "\<lparr>gid = 3, masters = [''m''], replicas = [''s''], my_index = 0, unreliable = True, dir = ''d'', restart = False\<rparr>"
  have "itoa 3 = ''3''" "itoa 0 = ''0''" by code_simp+
  then have "diskvd_args ?o = [''diskvd'', ''-g'', ''3'', ''-m'', ''m'', ''-s'', ''s'', ''-i'', ''0'', ''-u'', ''true'', ''-d'', ''d'', ''-r'', ''false'']"
    by (simp add: diskvd_args_def)
  with diskvd_roundtrip[of ?o] show ?thesis by simp
qed

section \<open>The programs of the lock and primary-backup services\<close>

datatype call =
    LockClerk string string bool string \<comment> \<open>\<^verbatim>\<open>MakeClerk\<close> on two ports, then \<^verbatim>\<open>Lock\<close> (true) or \<^verbatim>\<open>Unlock\<close>\<close>
  | LockServer string string bool
  | PbGet string string
  | PbPut string string string
  | PbServer string string
  | ViewServer string

definition lockc_main :: "string list \<Rightarrow> string + call" where
  "lockc_main args =
    (if length args = 5 then
       if args ! 1 = ''-l'' then Inr (LockClerk (args ! 2) (args ! 3) True (args ! 4))
       else if args ! 1 = ''-u'' then Inr (LockClerk (args ! 2) (args ! 3) False (args ! 4))
       else Inl ''Usage: lockc -l|-u primaryport backupport lockname''
     else Inl ''Usage: lockc -l|-u primaryport backupport lockname'')"

definition lockd_main :: "string list \<Rightarrow> string + call" where
  "lockd_main args =
    (if length args = 4 \<and> args ! 1 = ''-p'' then Inr (LockServer (args ! 2) (args ! 3) True)
     else if length args = 4 \<and> args ! 1 = ''-b'' then Inr (LockServer (args ! 2) (args ! 3) False)
     else Inl ''Usage: lockd -p|-b primaryport backupport'')"

definition pbc_main :: "string list \<Rightarrow> string + call" where
  "pbc_main args =
    (if length args = 3 then Inr (PbGet (args ! 1) (args ! 2))
     else if length args = 4 then Inr (PbPut (args ! 1) (args ! 2) (args ! 3))
     else Inl ''Usage: pbc viewport key'')"

definition pbd_main :: "string list \<Rightarrow> string + call" where
  "pbd_main args = (if length args \<noteq> 3 then Inl ''Usage: pbd viewport myport'' else Inr (PbServer (args ! 1) (args ! 2)))"

definition viewd_main :: "string list \<Rightarrow> string + call" where
  "viewd_main args = (if length args \<noteq> 2 then Inl ''Usage: viewd port'' else Inr (ViewServer (args ! 1)))"

end
