(* ===== verification/Labgob.thy ===== *)
theory Labgob
  imports Prelude
begin

text \<open>
  The wrapper around \<^verbatim>\<open>encoding/gob\<close> of \<^verbatim>\<open>labgob/labgob.go\<close>: its warnings about lower-case field names and about
  decoding into a variable that is not fresh.

  A \<^verbatim>\<open>reflect.Type\<close> is an identifier, since types may be recursive; what \<^verbatim>\<open>reflect\<close> says of it is an
  association list from identifiers to kinds, and an identifier without an entry has a kind
  with nothing below it.  The recursion of \<^verbatim>\<open>checkType\<close> runs on an explicit stack, in the order of the
  source.  \<^verbatim>\<open>gob\<close> itself, and \<^verbatim>\<open>unicode.IsUpper\<close> of the first rune of a name, are arguments.
\<close>

section \<open>\<^verbatim>\<open>checkType\<close>\<close>

type_synonym tid = string

datatype tkind = Struct "(string \<times> tid) list" | Slice tid | Array tid | Ptr tid | Map tid tid \<comment> \<open>element, key\<close> | Plain

type_synonym tenv = "(tid \<times> tkind) list"

record labgob =
  errorCount :: int
  checked :: "tid set"
  printed :: "string list"

datatype item = CheckField tid string tid | CheckType tid

definition kind_of :: "tenv \<Rightarrow> tid \<Rightarrow> tkind" where
  "kind_of env t = (case map_of env t of Some k \<Rightarrow> k | None \<Rightarrow> Plain)"

fun children :: "tid \<Rightarrow> tkind \<Rightarrow> item list" where
  "children t (Struct fds) = map (\<lambda>(name, ty). CheckField t name ty) fds"
| "children t (Slice e) = [CheckType e]"
| "children t (Array e) = [CheckType e]"
| "children t (Ptr e) = [CheckType e]"
| "children t (Map e k) = [CheckType e, CheckType k]"
| "children t Plain = []"

definition complain :: "tid \<Rightarrow> string \<Rightarrow> labgob \<Rightarrow> labgob" where
  "complain t name st = st\<lparr>errorCount := errorCount st + 1, printed := printed st @ [name @ '' of '' @ t]\<rparr>"

text \<open>The stack holds the calls that are still to be made, the next one first.\<close>

function check_items :: "(string \<Rightarrow> bool) \<Rightarrow> tenv \<Rightarrow> item list \<Rightarrow> labgob \<Rightarrow> labgob" where
  "check_items upper env [] st = st"
| "check_items upper env (CheckField t name ty # is) st =
    check_items upper env (CheckType ty # is) (if upper name then st else complain t name st)"
| "check_items upper env (CheckType t # is) st =
    (if t \<in> checked st then check_items upper env is st
     else check_items upper env (children t (kind_of env t) @ is) (st\<lparr>checked := insert t (checked st)\<rparr>))"
  by pat_completeness auto

text \<open>Every call either checks a type of the environment for the first time or shortens the stack.\<close>

definition not_seen :: "tenv \<Rightarrow> labgob \<Rightarrow> nat" where
  "not_seen env st = card (fst ` set env - checked st)"

fun weight :: "item \<Rightarrow> nat" where
  "weight (CheckField t name ty) = 2"
| "weight (CheckType t) = 1"

lemma not_seen_insert: "t \<in> fst ` set env \<Longrightarrow> t \<notin> checked st \<Longrightarrow>
    not_seen env (st\<lparr>checked := insert t (checked st)\<rparr>) < not_seen env st"
  unfolding not_seen_def by (rule psubset_card_mono) auto

lemma not_seen_insert_other: "t \<notin> fst ` set env \<Longrightarrow> not_seen env (st\<lparr>checked := insert t (checked st)\<rparr>) = not_seen env st"
  unfolding not_seen_def by (rule arg_cong[of _ _ card]) auto

lemma kind_of_other: "t \<notin> fst ` set env \<Longrightarrow> kind_of env t = Plain"
  by (simp add: kind_of_def map_of_eq_None_iff[THEN iffD2])

termination check_items
proof (relation "inv_image (less_than <*lex*> less_than)
    (\<lambda>(upper, env, is, st). (not_seen env st, sum_list (map weight is)))", goal_cases)
  case (2 upper env t name ty "is" st)
  then show ?case by (simp add: not_seen_def complain_def)
next
  case (4 upper env t "is" st)
  then show ?case
    by (cases "t \<in> fst ` set env") (simp_all add: not_seen_insert not_seen_insert_other kind_of_other)
qed (simp_all add: wf_lex_prod)

definition checkType :: "(string \<Rightarrow> bool) \<Rightarrow> tenv \<Rightarrow> tid \<Rightarrow> labgob \<Rightarrow> labgob" where
  "checkType upper env t st = check_items upper env [CheckType t] st"

section \<open>\<^verbatim>\<open>checkDefault\<close>\<close>

text \<open>
  A value as \<^verbatim>\<open>reflect\<close> shows it.  \<^verbatim>\<open>checkDefault1\<close> does not go below depth three, so a value with a cycle is
  represented by its unfolding.
\<close>

datatype gval =
    VStruct tid "(string \<times> gval) list"
  | VPtr "gval option"
  | VBasic tid bool \<comment> \<open>a boolean, number or string, and whether it differs from its zero value\<close>
  | VOther \<comment> \<open>a slice, map, interface, channel or function\<close>

record gvalue =
  gv_type :: tid
  gv_val :: gval

definition warn :: "string \<Rightarrow> labgob \<Rightarrow> labgob" where
  "warn what st = st\<lparr>errorCount := errorCount st + 1,
     printed := (if errorCount st < 1 then printed st @ [what] else printed st)\<rparr>"

fun checkDefault1 :: "gval \<Rightarrow> nat \<Rightarrow> string \<Rightarrow> labgob \<Rightarrow> labgob" where
  "checkDefault1 (VStruct t fds) depth name st =
    (if depth > 3 then st
     else foldl (\<lambda>st (fname, v). checkDefault1 v (depth + 1) (if name \<noteq> '''' then name @ ''.'' @ fname else fname) st) st fds)"
| "checkDefault1 (VPtr v) depth name st =
    (if depth > 3 then st else case v of None \<Rightarrow> st | Some v \<Rightarrow> checkDefault1 v (depth + 1) name st)"
| "checkDefault1 (VBasic t nonzero) depth name st =
    (if depth > 3 then st else if nonzero then warn (if name = '''' then t else name) st else st)"
| "checkDefault1 VOther depth name st = st"

definition checkDefault :: "gval option \<Rightarrow> labgob \<Rightarrow> labgob" where
  "checkDefault v st = (case v of None \<Rightarrow> st | Some v \<Rightarrow> checkDefault1 v 1 '''' st)"

section \<open>Encoder and decoder\<close>

definition checkValue :: "(string \<Rightarrow> bool) \<Rightarrow> tenv \<Rightarrow> gvalue \<Rightarrow> labgob \<Rightarrow> labgob" where
  "checkValue upper env e st = checkType upper env (gv_type e) st"

definition Encode :: "(string \<Rightarrow> bool) \<Rightarrow> tenv \<Rightarrow> (gvalue \<Rightarrow> 'b) \<Rightarrow> gvalue \<Rightarrow> labgob \<Rightarrow> labgob \<times> 'b" where
  "Encode upper env gob e st = (checkValue upper env e st, gob e)"

definition EncodeValue :: "(string \<Rightarrow> bool) \<Rightarrow> tenv \<Rightarrow> (gvalue \<Rightarrow> 'b) \<Rightarrow> gvalue \<Rightarrow> labgob \<Rightarrow> labgob \<times> 'b" where
  "EncodeValue upper env gob v st = (checkValue upper env v st, gob v)"

definition Decode :: "(string \<Rightarrow> bool) \<Rightarrow> tenv \<Rightarrow> ('b \<Rightarrow> gvalue \<Rightarrow> gvalue option) \<Rightarrow> 'b \<Rightarrow> gvalue \<Rightarrow> labgob
    \<Rightarrow> labgob \<times> gvalue option" where
  "Decode upper env gob b e st = (checkDefault (Some (gv_val e)) (checkValue upper env e st), gob b e)"

definition Register :: "(string \<Rightarrow> bool) \<Rightarrow> tenv \<Rightarrow> gvalue \<Rightarrow> labgob \<Rightarrow> labgob" where
  "Register upper env value st = checkValue upper env value st"

definition RegisterName :: "(string \<Rightarrow> bool) \<Rightarrow> tenv \<Rightarrow> string \<Rightarrow> gvalue \<Rightarrow> labgob \<Rightarrow> labgob" where
  "RegisterName upper env name value st = checkValue upper env value st"

section \<open>What \<^verbatim>\<open>checkType\<close> visits and reports\<close>

fun tid_of :: "item \<Rightarrow> tid" where
  "tid_of (CheckField t name ty) = ty"
| "tid_of (CheckType t) = t"

text \<open>
  The components of a type as \<^verbatim>\<open>reflect\<close> shows it: the types of the fields of a struct, the element of a
  slice, an array or a pointer, the element and the key of a map.
\<close>

inductive component :: "tenv \<Rightarrow> tid \<Rightarrow> tid \<Rightarrow> bool" for env where
  field: "map_of env t = Some (Struct fds) \<Longrightarrow> (name, u) \<in> set fds \<Longrightarrow> component env t u"
| slice_elem: "map_of env t = Some (Slice u) \<Longrightarrow> component env t u"
| array_elem: "map_of env t = Some (Array u) \<Longrightarrow> component env t u"
| ptr_elem: "map_of env t = Some (Ptr u) \<Longrightarrow> component env t u"
| map_elem: "map_of env t = Some (Map u k) \<Longrightarrow> component env t u"
| map_key: "map_of env t = Some (Map e u) \<Longrightarrow> component env t u"

inductive reaches :: "tenv \<Rightarrow> tid \<Rightarrow> tid \<Rightarrow> bool" for env where
  reaches_refl: "reaches env t t"
| reaches_step: "reaches env t u \<Longrightarrow> component env u v \<Longrightarrow> reaches env t v"

definition lower_fields :: "(string \<Rightarrow> bool) \<Rightarrow> tenv \<Rightarrow> tid \<Rightarrow> nat" where
  "lower_fields upper env t =
    (case kind_of env t of Struct fds \<Rightarrow> length (filter (\<lambda>f. \<not> upper (fst f)) fds) | _ \<Rightarrow> 0)"

fun pending :: "(string \<Rightarrow> bool) \<Rightarrow> item \<Rightarrow> nat" where
  "pending upper (CheckField t name ty) = (if upper name then 0 else 1)"
| "pending upper (CheckType t) = 0"

text \<open>The types the code goes on to are the components.\<close>

definition below :: "tenv \<Rightarrow> tid \<Rightarrow> tid set" where
  "below env t = tid_of ` set (children t (kind_of env t))"

lemma below_component: "u \<in> below env t \<longleftrightarrow> component env t u"
proof
  assume "u \<in> below env t"
  then show "component env t u"
    by (cases "map_of env t"; cases "kind_of env t") (auto simp: below_def kind_of_def image_iff intro: component.intros)
next
  assume "component env t u"
  then show "u \<in> below env t" by cases (force simp: below_def kind_of_def image_iff)+
qed

definition closed_types :: "tenv \<Rightarrow> tid set \<Rightarrow> bool" where
  "closed_types env S \<longleftrightarrow> (\<forall>t\<in>S. \<forall>u. component env t u \<longrightarrow> u \<in> S)"

lemma closed_types_below: "closed_types env S \<longleftrightarrow> (\<forall>t\<in>S. below env t \<subseteq> S)"
  unfolding closed_types_def subset_iff below_component ..

lemma pending_children: "sum_list (map (pending upper) (children t (kind_of env t))) = lower_fields upper env t"
proof -
  have "sum_list (map (pending upper) (map (\<lambda>(name, ty). CheckField t name ty) fds)) = length (filter (\<lambda>f. \<not> upper (fst f)) fds)" for fds
    by (induction fds) auto
  then show ?thesis by (cases "kind_of env t") (simp_all add: lower_fields_def)
qed

lemma check_items_closed:
  assumes "\<forall>t\<in>checked st. below env t \<subseteq> checked st \<union> tid_of ` set is"
  shows "closed_types env (checked (check_items upper env is st)) \<and>
    checked st \<union> tid_of ` set is \<subseteq> checked (check_items upper env is st)"
  using assms
proof (induction upper env "is" st rule: check_items.induct)
  case (1 upper env st)
  then show ?case by (simp add: closed_types_below)
next
  case (2 upper env t name ty "is" st)
  have "checked (if upper name then st else complain t name st) = checked st" by (simp add: complain_def)
  with 2 show ?case by simp
next
  case (3 upper env t "is" st)
  show ?case
  proof (cases "t \<in> checked st")
    case True
    then have "\<forall>t\<in>checked st. below env t \<subseteq> checked st \<union> tid_of ` set is" using 3(3) by auto
    from 3(1)[OF True this] True show ?thesis by auto
  next
    case False
    have "\<forall>u\<in>insert t (checked st). below env u \<subseteq> insert t (checked st) \<union> tid_of ` set (children t (kind_of env t) @ is)"
      using 3(3) by (auto simp: below_def)
    with 3(2)[OF False] False show ?thesis by (simp add: image_Un)
  qed
qed

lemma check_items_bounded:
  assumes "tid_of ` set is \<subseteq> P" "closed_types env P"
  shows "checked (check_items upper env is st) \<subseteq> checked st \<union> P"
  using assms
proof (induction upper env "is" st rule: check_items.induct)
  case (2 upper env t name ty "is" st)
  have "checked (if upper name then st else complain t name st) = checked st" by (simp add: complain_def)
  with 2 show ?case by simp
next
  case (3 upper env t "is" st)
  have "below env t \<subseteq> P" using 3(3,4) by (auto simp: closed_types_below)
  then have "tid_of ` set (children t (kind_of env t) @ is) \<subseteq> P" using 3(3) by (auto simp: below_def)
  then show ?case using 3 by (cases "t \<in> checked st") auto
qed simp

lemma check_items_errors:
  "checked st \<subseteq> checked (check_items upper env is st) \<and> finite (checked (check_items upper env is st) - checked st) \<and>
   errorCount (check_items upper env is st) = errorCount st + int (sum_list (map (pending upper) is)) +
     (\<Sum>u\<in>checked (check_items upper env is st) - checked st. int (lower_fields upper env u))"
proof (induction upper env "is" st rule: check_items.induct)
  case (2 upper env t name ty "is" st)
  have "checked (if upper name then st else complain t name st) = checked st" by (simp add: complain_def)
  with 2 show ?case by (auto simp: complain_def)
next
  case (3 upper env t "is" st)
  show ?case
  proof (cases "t \<in> checked st")
    case False
    define st' where "st' = check_items upper env (CheckType t # is) st"
    have st': "check_items upper env (children t (kind_of env t) @ is) (st\<lparr>checked := insert t (checked st)\<rparr>) = st'"
      using False by (simp add: st'_def)
    note IH = 3(2)[OF False, unfolded st', simplified]
    have new: "checked st' - checked st = insert t (checked st' - insert t (checked st))" using IH False by auto
    have "(\<Sum>u\<in>checked st' - checked st. int (lower_fields upper env u)) =
        int (lower_fields upper env t) + (\<Sum>u\<in>checked st' - insert t (checked st). int (lower_fields upper env u))"
      unfolding new using IH by (subst sum.insert) auto
    then have "errorCount st' = errorCount st + int (sum_list (map (pending upper) (CheckType t # is))) +
        (\<Sum>u\<in>checked st' - checked st. int (lower_fields upper env u))"
      using IH pending_children[of upper t env] by simp
    moreover have "finite (checked st' - checked st)" unfolding new using IH by simp
    moreover have "checked st \<subseteq> checked st'" using IH by blast
    ultimately show ?thesis unfolding st'_def by blast
  next
    case True
    then have "check_items upper env (CheckType t # is) st = check_items upper env is st" by simp
    with 3(1)[OF True] show ?thesis by simp
  qed
qed simp

lemma reaches_closed: "closed_types env S \<Longrightarrow> reaches env t u \<Longrightarrow> t \<in> S \<Longrightarrow> u \<in> S"
  by (rotate_tac 1, induction rule: reaches.induct) (auto simp: closed_types_def)

lemma checkType_visits:
  assumes "closed_types env (checked st)"
  shows "checked (checkType upper env t st) = checked st \<union> {u. reaches env t u}"
proof
  have "closed_types env {u. reaches env t u}" by (auto simp: closed_types_def intro: reaches_step)
  then show "checked (checkType upper env t st) \<subseteq> checked st \<union> {u. reaches env t u}"
    unfolding checkType_def by (intro check_items_bounded) (auto intro: reaches_refl)
  have "\<forall>t'\<in>checked st. below env t' \<subseteq> checked st \<union> tid_of ` set [CheckType t]" using assms by (auto simp: closed_types_below)
  from check_items_closed[OF this, of upper] reaches_closed[of env "checked (checkType upper env t st)" t]
  show "checked st \<union> {u. reaches env t u} \<subseteq> checked (checkType upper env t st)" by (auto simp: checkType_def)
qed

section \<open>What \<^verbatim>\<open>checkDefault\<close> reports\<close>

fun leaves :: "nat \<Rightarrow> gval \<Rightarrow> nat" where
  "leaves depth (VStruct t fds) = (if depth > 3 then 0 else sum_list (map (\<lambda>f. leaves (depth + 1) (snd f)) fds))"
| "leaves depth (VPtr v) = (if depth > 3 then 0 else case v of None \<Rightarrow> 0 | Some v \<Rightarrow> leaves (depth + 1) v)"
| "leaves depth (VBasic t nonzero) = (if depth \<le> 3 \<and> nonzero then 1 else 0)"
| "leaves depth VOther = 0"

definition warned :: "labgob \<Rightarrow> nat \<Rightarrow> labgob \<Rightarrow> bool" where
  "warned st n st' \<longleftrightarrow> errorCount st' = errorCount st + int n \<and> checked st' = checked st \<and>
     length (printed st') = length (printed st) + (if errorCount st < 1 \<and> 0 < n then 1 else 0)"

lemma warned_trans: "0 \<le> errorCount st \<Longrightarrow> warned st n st1 \<Longrightarrow> warned st1 k st2 \<Longrightarrow> warned st (n + k) st2"
  by (auto simp: warned_def split: if_splits)

lemma checkDefault1_warned:
  "0 \<le> errorCount st \<Longrightarrow> warned st (leaves depth v) (checkDefault1 v depth name st)"
proof (induction v arbitrary: depth name st)
  case (VStruct t fds)
  define f where "f st p = (case p of (fname, v) \<Rightarrow> checkDefault1 v (depth + 1) (if name \<noteq> '''' then name @ ''.'' @ fname else fname) st)" for st p
  have "set ps \<subseteq> set fds \<Longrightarrow> 0 \<le> errorCount st \<Longrightarrow> warned st (sum_list (map (\<lambda>f. leaves (depth + 1) (snd f)) ps)) (foldl f st ps)" for ps st
  proof (induction ps arbitrary: st)
    case Nil
    then show ?case by (simp add: warned_def)
  next
    case (Cons p ps)
    have "warned st (leaves (depth + 1) (snd p)) (f st p)"
      unfolding f_def using VStruct.IH[of p "snd p"] Cons.prems by (cases p) auto
    moreover from this have "0 \<le> errorCount (f st p)" using Cons.prems(2) by (simp add: warned_def)
    then have "warned (f st p) (sum_list (map (\<lambda>f. leaves (depth + 1) (snd f)) ps)) (foldl f (f st p) ps)"
      using Cons.IH Cons.prems(1) by simp
    ultimately show ?case using warned_trans[OF Cons.prems(2)] by simp
  qed
  note all = this[OF subset_refl VStruct.prems]
  have "checkDefault1 (VStruct t fds) depth name st = (if depth > 3 then st else foldl f st fds)"
    by (simp add: f_def[abs_def])
  then show ?case using all by (simp add: warned_def)
next
  case (VPtr v)
  then show ?case by (cases v) (simp_all add: warned_def)
next
  case (VBasic t nonzero)
  then show ?case by (simp add: warned_def warn_def)
qed (simp add: warned_def)

section \<open>Properties\<close>

text \<open>
  \<^bold>\<open>C29\<close>. checkType terminates on recursive types and, when the types checked before are closed under
  components, visits exactly the types that can be reached from its argument through fields of
  structs, elements of slices, arrays, pointers and maps, and keys of maps; it raises the error
  count by the number of lower-case fields of the struct types it visits for the first time.
\<close>

theorem checkType_complete:
  assumes "closed_types env (checked st)"
  shows "checked (checkType upper env t st) = checked st \<union> {u. reaches env t u} \<and>
    errorCount (checkType upper env t st) = errorCount st +
      (\<Sum>u\<in>{u. reaches env t u} - checked st. int (lower_fields upper env u))"
proof -
  note visits = checkType_visits[OF assms, of upper t]
  have "checked (checkType upper env t st) - checked st = {u. reaches env t u} - checked st" unfolding visits by blast
  then show ?thesis using check_items_errors[of st upper env "[CheckType t]"] visits by (simp add: checkType_def)
qed

definition list_env :: tenv where
  "list_env = [(''Node'', Struct [(''Val'', ''int''), (''next'', ''*Node'')]), (''*Node'', Ptr ''Node'')]"

definition fresh :: labgob where
  "fresh = \<lparr>errorCount = 0, checked = {}, printed = []\<rparr>"

theorem checkType_complete_witness:
  "checked (checkType (\<lambda>n. n = ''Val'') list_env ''Node'' fresh) = {u. reaches list_env ''Node'' u} \<and>
   errorCount (checkType (\<lambda>n. n = ''Val'') list_env ''Node'' fresh) = 1"
proof -
  have "errorCount (checkType (\<lambda>n. n = ''Val'') list_env ''Node'' fresh) = 1"
    by (simp add: checkType_def list_env_def fresh_def kind_of_def complain_def)
  moreover have "closed_types list_env (checked fresh)" by (simp add: closed_types_below fresh_def)
  ultimately show ?thesis using checkType_complete[of list_env fresh "\<lambda>n. n = ''Val''" "''Node''"] by (simp add: fresh_def)
qed

theorem checkType_once:
  assumes "closed_types env (checked st)" "reaches env t u"
  shows "checkType upper env u (checkType upper env t st) = checkType upper env t st"
proof -
  have "u \<in> checked (checkType upper env t st)" using checkType_visits[OF assms(1)] assms(2) by simp
  then show ?thesis by (simp add: checkType_def)
qed

theorem checkType_once_witness:
  "checkType (\<lambda>n. n = ''Val'') list_env ''*Node'' (checkType (\<lambda>n. n = ''Val'') list_env ''Node'' fresh) =
   checkType (\<lambda>n. n = ''Val'') list_env ''Node'' fresh"
proof (rule checkType_once)
  show "closed_types list_env (checked fresh)" by (simp add: closed_types_below fresh_def)
  have "component list_env ''Node'' ''*Node''" by (rule component.field) (auto simp: list_env_def)
  then show "reaches list_env ''Node'' ''*Node''" by (rule reaches_step[OF reaches_refl])
qed

theorem decode_warnings:
  assumes "0 \<le> errorCount st"
  shows "errorCount (checkDefault (Some v) st) = errorCount st + int (leaves 1 v) \<and>
    length (printed (checkDefault (Some v) st)) = length (printed st) + (if errorCount st < 1 \<and> 0 < leaves 1 v then 1 else 0) \<and>
    (leaves 1 v = 0 \<longrightarrow> errorCount (checkDefault (Some v) st) = errorCount st)"
  using checkDefault1_warned[OF assms, of 1 v "''''"] by (simp add: checkDefault_def warned_def)

theorem decode_warnings_witness:
  "errorCount (checkDefault (Some (VPtr (Some (VStruct ''Reply'' [(''Term'', VBasic ''int'' True), (''Ok'', VBasic ''bool'' True)])))) fresh) = 2 \<and>
   length (printed (checkDefault (Some (VPtr (Some (VStruct ''Reply'' [(''Term'', VBasic ''int'' True), (''Ok'', VBasic ''bool'' True)])))) fresh)) = 1"
  using decode_warnings[of fresh "VPtr (Some (VStruct ''Reply'' [(''Term'', VBasic ''int'' True), (''Ok'', VBasic ''bool'' True)]))"]
  by (simp add: fresh_def)

end
