(* ===== verification/Spec2Isabelle.thy ===== *)
theory Spec2Isabelle
  imports Visualization Kv_Clerk Raft_Handlers Raft_Safety Raft_Restart Util Shardkv_Config Programs Labgob Clients
begin

text \<open>
  \<^bold>\<open>A verification library for the distributed-systems labs under \<^verbatim>\<open>src/src\<close>.\<close>

  The repository holds a Raft peer and the network it is tested on, a linearizability checker
  (porcupine) with the key/value model it is used with, a MapReduce master and worker with the
  sequential program they must agree with, and clerks and skeletons of replicated stores.  The
  parts interact as follows.  A peer (\<^verbatim>\<open>raft/raft.go\<close>) keeps its state in a persister and talks to the
  other peers through \<^verbatim>\<open>labrpc\<close>, which encodes messages with \<^verbatim>\<open>labgob\<close>; the harness \<^verbatim>\<open>raft/config.go\<close> builds
  the network, crashes and partitions peers and checks what they apply, and the harnesses of \<^verbatim>\<open>kvraft\<close>,
  \<^verbatim>\<open>shardmaster\<close> and \<^verbatim>\<open>shardkv\<close> do the same around servers that each hold a peer.  \<^verbatim>\<open>mr/worker.go\<close> asks
  \<^verbatim>\<open>mr/master.go\<close> for tasks, runs a plugin of \<^verbatim>\<open>mrapps\<close> on them and leaves files in the working directory; the
  programs of \<^verbatim>\<open>main\<close> start both.  A history of calls is handed to \<^verbatim>\<open>porcupine\<close>, which splits it with the model
  of \<^verbatim>\<open>models/kv.go\<close>, searches each part, and can draw what it found.

  \<^bold>\<open>Conventions.\<close>  A function that can panic, or may not return, has an \<open>option\<close> result; \<open>None\<close> is the
  panic or the missing return, and a theorem that claims a result shows \<open>Some\<close>.  Structs are records, and
  a section of code under a lock is one function on the record.  What the code leaves open is
  an argument: the order in which Go ranges over a map, \<^verbatim>\<open>sort.Sort\<close> (which is not stable), clock
  values, random draws, addresses of new objects, and the order of the communications of a \<^verbatim>\<open>select\<close>.  Where an
  integer can wrap it is a word (bitset chunks, hashes, the RPC counters); terms and log indices are
  unbounded.

  \<^bold>\<open>The checker.\<close>

  \<^item> \<^verbatim>\<open>Prelude\<close>: slices with Go's bounds checks (\<open>at\<close>, \<open>upd_at\<close>, \<open>slice_from\<close>, \<open>slice_to\<close>) and the collection
    \<open>slice_simps\<close>.
  \<^item> \<^verbatim>\<open>Bitset\<close>: \<^verbatim>\<open>porcupine/bitset.go\<close> on 64-bit words.  The locale \<open>finite_set_impl\<close> says what the search needs of it.
  \<^item> \<^verbatim>\<open>Porcupine_Model\<close>, \<^verbatim>\<open>EventList\<close>: \<^verbatim>\<open>model.go\<close> and the entries of \<^verbatim>\<open>checker.go\<close>; the doubly linked list is an explicit
    heap of nodes, and \<open>lift\<close> and \<open>unlift\<close> are inverse on it.
  \<^item> \<^verbatim>\<open>Linearizability\<close>, \<^verbatim>\<open>Locality\<close>: the specification, a linearization of a history, and its locality: a history of
    independent objects is linearizable when every object's part is.
  \<^item> \<^verbatim>\<open>Checker\<close>, \<^verbatim>\<open>Checker_Search\<close>: \<^verbatim>\<open>checkSingle\<close>.  The loop is a partial function; on well-formed entries it returns,
    by a measure on the configurations not yet cached, and decides linearizability.
  \<^item> \<^verbatim>\<open>Checker_Parallel\<close>, \<^verbatim>\<open>Operations\<close>, \<^verbatim>\<open>KvModel\<close>: \<^verbatim>\<open>checkParallel\<close> under every schedule of its goroutines and its timer,
    the entry points of \<^verbatim>\<open>porcupine.go\<close>, and \<^verbatim>\<open>models/kv.go\<close>; the locale \<open>partition_contract\<close> is what a partition
    function owes the checker, and \<open>kv\<close> interprets it.  \<^verbatim>\<open>CheckOperations\<close> decides linearizability of key/value
    histories.
  \<^item> \<^verbatim>\<open>Events\<close>: histories given as events.  \<^verbatim>\<open>CheckEvents\<close> decides linearizability of the operations the events stand
    for as one object, and so agrees with \<^verbatim>\<open>CheckOperations\<close> for models without partition functions; with \<^verbatim>\<open>KvModel\<close>, which partitions operations only, it mixes keys.
  \<^item> \<^verbatim>\<open>Partials\<close>, \<^verbatim>\<open>Visualization\<close>: the partial linearizations the search hands on, a full one for every part of an accepted
    history, and \<^verbatim>\<open>visualization.go\<close>; the locale
    \<open>described_contract\<close> extends \<open>partition_contract\<close> by what the drawing needs of a model.
  \<^item> \<^verbatim>\<open>Kv_Clerk\<close>: the stub clerk of \<^verbatim>\<open>kvraft/client.go\<close>, whose histories the checker rejects.

  \<^bold>\<open>Raft.\<close>

  \<^item> \<^verbatim>\<open>Persister\<close>: \<^verbatim>\<open>raft/persister.go\<close>, with the locale \<open>storage\<close>.
  \<^item> \<^verbatim>\<open>Raft\<close>, \<^verbatim>\<open>Raft_Local\<close>, \<^verbatim>\<open>Raft_Handlers\<close>: every locked section of \<^verbatim>\<open>raft/raft.go\<close>, its invariants \<open>raft_wf\<close> (sizes and
    ranges) and \<open>peer_ok\<close> (with the dummy entry, the terms in the log and the vote), what the handlers do on every
    branch, redelivered requests included, and the rule by which a vote is granted.
  \<^item> \<^verbatim>\<open>Raft_Net\<close>: peers, their goroutines and the messages between them as a step function; reachable states and
    election safety.  The locale \<open>quorum\<close> carries the counting argument.  A step is \<open>timely\<close> when a heartbeat
    goroutine reads the term before its peer has stopped leading, and the second lock of \<^verbatim>\<open>Start\<close> is taken before
    the peer has stopped leading the term read under the first; the code does not check this, and
    without it two peers can lead one term.  A timely run also shows that rejections take \<^verbatim>\<open>nextIndex\<close> to zero and
    below, with a dummy entry in a follower's log and a panic of the leader.
  \<^item> \<^verbatim>\<open>Raft_Log\<close>, \<^verbatim>\<open>Raft_Commit\<close>, \<^verbatim>\<open>Raft_Safety\<close>: log matching, leader completeness and state machine safety, over
    timely runs in which a new leader starts with fresh match indices and heartbeats are sent from a \<^verbatim>\<open>nextIndex\<close> of
    at least one; the code guarantees none of this, and a run that breaks each condition is given with
    its consequence.
  \<^item> \<^verbatim>\<open>LabRPC\<close>, \<^verbatim>\<open>Labgob\<close>: the simulated network of \<^verbatim>\<open>labrpc/labrpc.go\<close>, one request at the moments it looks at the network,
    and the type and value checks of \<^verbatim>\<open>labgob/labgob.go\<close> with the termination of \<^verbatim>\<open>checkType\<close> on recursive types.
  \<^item> \<^verbatim>\<open>Raft_Config\<close>, \<^verbatim>\<open>Raft_Harness\<close>, \<^verbatim>\<open>Util\<close>: \<^verbatim>\<open>raft/config.go\<close> on top of \<^verbatim>\<open>Raft_Net\<close> and \<^verbatim>\<open>LabRPC\<close>: partitions, crashes, the
    readers of applied commands and the checks, which fail on two leaders of a term and which the states of
    timely runs pass; \<^verbatim>\<open>make_config\<close>, which builds the
    initial state of \<^verbatim>\<open>Raft_Net\<close>; \<^verbatim>\<open>one\<close> and the agreement it reports; and the random names, which are new when
    the random bytes are.
  \<^item> \<^verbatim>\<open>Raft_Restart\<close>: nothing is persisted, so a restarted peer votes again; with one restart two peers lead
    one term.

  \<^bold>\<open>MapReduce, stores and their harnesses.\<close>

  \<^item> \<^verbatim>\<open>Strconv\<close>, \<^verbatim>\<open>Master\<close>, \<^verbatim>\<open>MapReduce\<close>, \<^verbatim>\<open>MapReduce_Job\<close>: \<^verbatim>\<open>mr/master.go\<close>, \<^verbatim>\<open>mr/worker.go\<close> and \<^verbatim>\<open>main/mrsequential.go\<close>.  A worker
    that keeps asking finishes the job and writes the lines of the sequential program.
  \<^item> \<^verbatim>\<open>MrApps\<close>, \<^verbatim>\<open>Programs\<close>: the plugins of \<^verbatim>\<open>mrapps\<close> and the programs of \<^verbatim>\<open>main\<close>: word count and index as jobs, and
    \<^verbatim>\<open>mrmaster\<close> with \<^verbatim>\<open>mrworker\<close> against \<^verbatim>\<open>mrsequential\<close>.
  \<^item> \<^verbatim>\<open>Clients\<close>: the clerks of \<^verbatim>\<open>shardmaster\<close> and \<^verbatim>\<open>shardkv\<close>, whose loops may run forever; the locale \<open>retry\<close> holds what
    the loops share, and both loops interpret it.  The server skeletons have empty handlers in the source.
  \<^item> \<^verbatim>\<open>Kv_Config\<close>, \<^verbatim>\<open>Kv_Harness\<close>: the harnesses of \<^verbatim>\<open>kvraft\<close> and \<^verbatim>\<open>shardmaster\<close>.  Every operation keeps a configuration well
    formed, a partition puts the leader in the minority, and a restart keeps what was saved; the locale
    \<open>replica\<close> is what a server owes the harness, and both servers interpret it.
  \<^item> \<^verbatim>\<open>Shardkv_Config\<close>: the harness of \<^verbatim>\<open>shardkv\<close>, which only works for groups of three servers.

  \<^bold>\<open>Fuel.\<close>  \<open>Worker\<close> and \<open>work\<close> take a number of turns; the theorems give the number that finishes the job (one
  turn per file and per reduce task, and one to close each phase).  The harness loops take the
  states of their rounds as a list.  Everything else recurses structurally, by a measure, or as a
  partial function whose termination is a theorem.

  \<^bold>\<open>Parameters.\<close>  \<^verbatim>\<open>encoding/json\<close> and \<^verbatim>\<open>encoding/gob\<close> are functions; the MapReduce theorem assumes that
  decoding inverts encoding on the pairs the map function emits (\<open>json_ok\<close>).  The map and reduce functions
  are plugins; the theorem assumes a reduce function that ignores the order of its values.
  \<^verbatim>\<open>unicode.IsLetter\<close> and the formatting verb \<^verbatim>\<open>%v\<close> are arguments, and so are the packages \<^verbatim>\<open>lockservice\<close>, \<^verbatim>\<open>pbservice\<close>,
  \<^verbatim>\<open>viewservice\<close> and \<^verbatim>\<open>diskv\<close>, which the programs of \<^verbatim>\<open>main\<close> import and the repository does not hold.

  \<^bold>\<open>Not modelled.\<close>  Sockets and the dialling of \<^verbatim>\<open>mr\<close>, printing and sleeping are I/O.  The constant \<^verbatim>\<open>html\<close> of
  \<^verbatim>\<open>visualization.go\<close> is a page of JavaScript that is only written out.  \<^verbatim>\<open>randstring\<close>, \<^verbatim>\<open>makeSeed\<close> and \<^verbatim>\<open>nrand\<close> occur
  with one text in several packages and are modelled once.
\<close>

end
